(* ===== verification/Aqueduct_Prelude.thy ===== *)
theory Aqueduct_Prelude
  imports Main "HOL-Library.Word"
begin

unbundle bit_operations_syntax

text \<open>
  Shared vocabulary of the development: the machine types of the Go sources, the result of a Go
  call that may return an error or panic, slices with their bounds checks, and the little-endian
  codecs of \<^verbatim>\<open>encoding/binary\<close>.

  A Go \<^verbatim>\<open>[]byte\<close> and a Go \<^verbatim>\<open>string\<close> are both byte sequences and both are \<open>bytes\<close> here; a string
  literal of the source is \<open>str ''...''\<close>. Go's \<^verbatim>\<open>int\<close> is 64 bits wide on the targets of the
  repository; lengths and offsets are \<open>nat\<close>, because every one of them is bounded by the length
  of a slice or by a 32-bit field of a frame.
\<close>

declare add_2_eq_Suc [simp del] add_2_eq_Suc' [simp del]

section \<open>Types\<close>

type_synonym byte = "8 word"
type_synonym bytes = "byte list"
type_synonym u16 = "16 word"
type_synonym u32 = "32 word"
type_synonym u64 = "64 word"

definition str :: "string \<Rightarrow> bytes" where
  "str s = map of_char s"

named_theorems wire_consts
  \<open>the constants of the wire protocol, unfolded\<close>

named_theorems no_panic
  \<open>facts that an operation never takes the panic branch\<close>

section \<open>Results: a value, an error, or a run-time panic\<close>

text \<open>
  \<open>Ok\<close> is a normal return, \<open>Err\<close> a non-nil error, \<open>Panic\<close> a run-time panic: an index or a slice
  out of range, or an \<^verbatim>\<open>unsafe.Slice\<close> that would leave its backing array.
\<close>

datatype ('e, 'a) res = Ok 'a | Err 'e | Panic

primrec rbind :: "('e, 'a) res \<Rightarrow> ('a \<Rightarrow> ('e, 'b) res) \<Rightarrow> ('e, 'b) res" where
  "rbind (Ok x) k = k x"
| "rbind (Err e) k = Err e"
| "rbind Panic k = Panic"

lemma rbind_eq_Ok: "rbind m k = Ok y \<longleftrightarrow> (\<exists>x. m = Ok x \<and> k x = Ok y)"
  by (cases m) auto

lemma rbind_eq_Panic: "rbind m k = Panic \<longleftrightarrow> m = Panic \<or> (\<exists>x. m = Ok x \<and> k x = Panic)"
  by (cases m) auto

lemma rbind_eq_Err: "rbind m k = Err e \<longleftrightarrow> m = Err e \<or> (\<exists>x. m = Ok x \<and> k x = Err e)"
  by (cases m) auto

lemma rbind_no_panic [no_panic]:
  "m \<noteq> Panic \<Longrightarrow> (\<And>x. m = Ok x \<Longrightarrow> k x \<noteq> Panic) \<Longrightarrow> rbind m k \<noteq> Panic"
  by (cases m) auto

lemma rbind_assoc: "rbind (rbind m k) h = rbind m (\<lambda>x. rbind (k x) h)"
  by (cases m) auto

lemma rbind_if: "rbind (if b then m else m') k = (if b then rbind m k else rbind m' k)"
  by simp

lemma rbind_cong: "m = m' \<Longrightarrow> (\<And>x. m' = Ok x \<Longrightarrow> k x = k' x) \<Longrightarrow> rbind m k = rbind m' k'"
  by (cases m) auto

section \<open>Slices\<close>

text \<open>\<open>slice buf a b\<close> is the content of \<^verbatim>\<open>buf[a:b]\<close>; \<open>go_slice\<close> adds the bounds check.\<close>

definition slice :: "'a list \<Rightarrow> nat \<Rightarrow> nat \<Rightarrow> 'a list" where
  "slice xs a b = take (b - a) (drop a xs)"

definition go_slice :: "'a list \<Rightarrow> nat \<Rightarrow> nat \<Rightarrow> ('e, 'a list) res" where
  "go_slice xs a b = (if a \<le> b \<and> b \<le> length xs then Ok (slice xs a b) else Panic)"

definition go_index :: "'a list \<Rightarrow> nat \<Rightarrow> ('e, 'a) res" where
  "go_index xs i = (if i < length xs then Ok (xs ! i) else Panic)"

text \<open>
  \<^verbatim>\<open>unsafe.Slice(&xs[i], n)\<close>: taking the address panics when \<open>i\<close> is out of range; a length that
  runs past the backing array is undefined behaviour in Go and is a panic here, so freedom from
  panics is memory safety.
\<close>

definition unsafe_slice :: "'a list \<Rightarrow> nat \<Rightarrow> nat \<Rightarrow> ('e, 'a list) res" where
  "unsafe_slice xs i n =
     (if i < length xs \<and> i + n \<le> length xs then Ok (slice xs i (i + n)) else Panic)"

text \<open>\<open>write_at b i xs\<close> is the buffer after \<^verbatim>\<open>copy(b[i:], xs)\<close> with room for all of \<open>xs\<close>.\<close>

definition write_at :: "'a list \<Rightarrow> nat \<Rightarrow> 'a list \<Rightarrow> 'a list" where
  "write_at b i xs = take i b @ xs @ drop (i + length xs) b"

lemma length_slice [simp]: "b \<le> length xs \<Longrightarrow> length (slice xs a b) = b - a"
  by (simp add: slice_def)

lemma slice_append_left [simp]: "b \<le> length xs \<Longrightarrow> slice (xs @ ys) a b = slice xs a b"
  by (cases "a \<le> b") (auto simp: slice_def)

lemma slice_append_right:
  "length xs \<le> a \<Longrightarrow> slice (xs @ ys) a b = slice ys (a - length xs) (b - length xs)"
  by (simp add: slice_def)

lemma slice_all [simp]: "slice xs 0 (length xs) = xs"
  by (simp add: slice_def)

lemma slice_zero [simp]: "slice xs 0 n = take n xs"
  by (simp add: slice_def)

lemma slice_same [simp]: "slice xs a a = []"
  by (simp add: slice_def)

lemma slice_take_drop: "slice xs a (a + n) = take n (drop a xs)"
  by (simp add: slice_def)

lemma slice_concat: "a \<le> b \<Longrightarrow> b \<le> c \<Longrightarrow> slice xs a b @ slice xs b c = slice xs a c"
proof -
  assume "a \<le> b" "b \<le> c"
  then obtain m n where "b = a + m" "c = a + m + n"
    by (metis le_Suc_ex)
  then show ?thesis
    by (simp add: slice_def take_add add.commute)
qed

lemma length_write_at [simp]: "i + length xs \<le> length b \<Longrightarrow> length (write_at b i xs) = length b"
  by (simp add: write_at_def)

lemma write_at_prefix: "write_at (p @ b) (length p) xs = p @ xs @ drop (length xs) b"
  by (simp add: write_at_def)

lemma write_at_join:
  "j = i + length xs \<Longrightarrow> j + length ys \<le> length b \<Longrightarrow>
     write_at (write_at b i xs) j ys = write_at b i (xs @ ys)"
  by (simp add: write_at_def ac_simps)

lemma update_write_at: "i < length b \<Longrightarrow> b[i := x] = write_at b i [x]"
  by (simp add: write_at_def upd_conv_take_nth_drop)

lemma write_at_full: "length xs = length b \<Longrightarrow> write_at b 0 xs = xs"
  by (simp add: write_at_def)

text \<open>A buffer filled by adjacent writes holds their concatenation, whatever it held before.\<close>

lemmas fill_simps = write_at_join update_write_at write_at_full

section \<open>Little-endian integers\<close>

fun le_nat :: "bytes \<Rightarrow> nat" where
  "le_nat [] = 0"
| "le_nat (b # bs) = unat b + 256 * le_nat bs"

fun le_bytes :: "nat \<Rightarrow> nat \<Rightarrow> bytes" where
  "le_bytes 0 k = []"
| "le_bytes (Suc n) k = of_nat k # le_bytes n (k div 256)"

lemma length_le_bytes [simp]: "length (le_bytes n k) = n"
  by (induction n arbitrary: k) auto

lemma byte_unat_less: "unat (b :: byte) < 256"
  using unsigned_less [of b, where ?'a = nat] by simp

lemma le_nat_bytes: "le_nat (le_bytes n k) = k mod 256 ^ n"
proof (induction n arbitrary: k)
  case (Suc n)
  have "k mod 256 ^ Suc n = k mod 256 + 256 * (k div 256 mod 256 ^ n)"
    by (metis mod_mult2_eq power_Suc add.commute)
  then show ?case using Suc by (simp add: unat_of_nat)
qed simp

lemma of_nat_byte_add: "(of_nat (unat b + 256 * k) :: byte) = b"
proof -
  have "unat (of_nat (unat b + 256 * k) :: byte) = unat b"
    using byte_unat_less [of b] by (simp add: unat_of_nat del: of_nat_add)
  then show ?thesis by (simp only: word_unat_eq_iff)
qed

lemma le_bytes_nat: "le_bytes (length bs) (le_nat bs) = bs"
proof (induction bs)
  case (Cons b bs)
  have "(unat b + 256 * le_nat bs) div 256 = le_nat bs"
    using byte_unat_less [of b] by simp
  with Cons show ?case by (simp add: of_nat_byte_add del: of_nat_add)
qed simp

lemma le_nat_less: "le_nat bs < 256 ^ length bs"
  by (metis le_bytes_nat le_nat_bytes mod_less_divisor zero_less_numeral zero_less_power)

text \<open>\<^verbatim>\<open>binary.LittleEndian.PutUintN\<close> and \<^verbatim>\<open>UintN\<close>, on slices of the right length.\<close>

definition put_u16 :: "u16 \<Rightarrow> bytes" where "put_u16 w = le_bytes 2 (unat w)"
definition put_u32 :: "u32 \<Rightarrow> bytes" where "put_u32 w = le_bytes 4 (unat w)"
definition put_u64 :: "u64 \<Rightarrow> bytes" where "put_u64 w = le_bytes 8 (unat w)"
definition get_u16 :: "bytes \<Rightarrow> u16" where "get_u16 bs = of_nat (le_nat (take 2 bs))"
definition get_u32 :: "bytes \<Rightarrow> u32" where "get_u32 bs = of_nat (le_nat (take 4 bs))"
definition get_u64 :: "bytes \<Rightarrow> u64" where "get_u64 bs = of_nat (le_nat (take 8 bs))"

text \<open>\<^verbatim>\<open>binary.BigEndian.PutUint64\<close>, used for the nonce counter of the log.\<close>

definition put_be_u64 :: "u64 \<Rightarrow> bytes" where "put_be_u64 w = rev (put_u64 w)"

lemma length_put [simp]:
  "length (put_u16 a) = 2" "length (put_u32 b) = 4" "length (put_u64 c) = 8"
  "length (put_be_u64 c) = 8"
  by (simp_all add: put_u16_def put_u32_def put_u64_def put_be_u64_def)

lemma unat_u16_less: "unat (w :: u16) < 65536"
  using unsigned_less [of w, where ?'a = nat] by simp

lemma unat_u32_less: "unat (w :: u32) < 4294967296"
  using unsigned_less [of w, where ?'a = nat] by simp

lemma unat_u64_less: "unat (w :: u64) < 18446744073709551616"
  using unsigned_less [of w, where ?'a = nat] by simp

lemma get_put_u16 [simp]: "get_u16 (put_u16 w @ r) = w" "get_u16 (put_u16 w) = w"
  using unat_u16_less [of w] by (simp_all add: get_u16_def put_u16_def le_nat_bytes)

lemma get_put_u32 [simp]: "get_u32 (put_u32 w @ r) = w" "get_u32 (put_u32 w) = w"
  using unat_u32_less [of w] by (simp_all add: get_u32_def put_u32_def le_nat_bytes)

lemma get_put_u64 [simp]: "get_u64 (put_u64 w @ r) = w" "get_u64 (put_u64 w) = w"
  using unat_u64_less [of w] by (simp_all add: get_u64_def put_u64_def le_nat_bytes)

lemma put_get_u32: "length bs = 4 \<Longrightarrow> put_u32 (get_u32 bs) = bs"
  using le_nat_less [of bs] le_bytes_nat [of bs]
  by (simp add: get_u32_def put_u32_def unat_of_nat)

lemma put_get_u16: "length bs = 2 \<Longrightarrow> put_u16 (get_u16 bs) = bs"
  using le_nat_less [of bs] le_bytes_nat [of bs]
  by (simp add: get_u16_def put_u16_def unat_of_nat)

lemma put_u64_inject: "put_u64 a = put_u64 b \<longleftrightarrow> a = b"
  by (metis get_put_u64(2))

lemma put_be_u64_inject: "put_be_u64 a = put_be_u64 b \<longleftrightarrow> a = b"
  by (simp add: put_be_u64_def put_u64_inject)

section \<open>Conversions between lengths and machine words\<close>

lemma unat_of_nat_u32 [simp]: "n < 4294967296 \<Longrightarrow> unat (of_nat n :: u32) = n"
  by (simp add: unat_of_nat)

lemma unat_of_nat_u16 [simp]: "n < 65536 \<Longrightarrow> unat (of_nat n :: u16) = n"
  by (simp add: unat_of_nat)

lemma unat_of_nat_u64 [simp]: "n < 18446744073709551616 \<Longrightarrow> unat (of_nat n :: u64) = n"
  by (simp add: unat_of_nat)

text \<open>\<open>i64\<close> wraps an integer to the range of \<^verbatim>\<open>int64\<close>.\<close>

definition i64 :: "int \<Rightarrow> int" where
  "i64 x = (x + 2 ^ 63) mod 2 ^ 64 - 2 ^ 63"

lemma i64_id: "0 \<le> x \<Longrightarrow> x < 2 ^ 63 \<Longrightarrow> i64 x = x"
  by (simp add: i64_def)

section \<open>The interface to the buffer allocator\<close>

text \<open>
  What the frame and extension builders rely on: an acquired buffer has the requested length. Its
  content is arbitrary, since blocks are recycled.
\<close>

locale buffer_source =
  fixes acq :: "nat \<Rightarrow> bytes option"
  assumes acq_length: "acq n = Some b \<Longrightarrow> length b = n"

text \<open>
  \<open>iterate step s xs\<close> threads a state through a list and stops at the first error. A \<open>record_loop\<close> is a
  loop over a byte string that consumes one encoded record per round and runs \<open>step\<close> on it; reading
  back what was written is a fact about every such loop.
\<close>

fun iterate :: "('s \<Rightarrow> 'a \<Rightarrow> 's \<times> 'e option) \<Rightarrow> 's \<Rightarrow> 'a list \<Rightarrow> 's \<times> 'e option" where
  "iterate step s [] = (s, None)"
| "iterate step s (x # xs) =
     (case step s x of (s', Some e) \<Rightarrow> (s', Some e) | (s', None) \<Rightarrow> iterate step s' xs)"

lemma iterate_append:
  "iterate step s (xs @ ys) =
     (case iterate step s xs of (s', Some e) \<Rightarrow> (s', Some e) | (s', None) \<Rightarrow> iterate step s' ys)"
  by (induction xs arbitrary: s) (auto split: prod.splits option.splits)

locale record_loop =
  fixes enc :: "'a \<Rightarrow> bytes"
    and ok :: "'a \<Rightarrow> bool"
    and step :: "'s \<Rightarrow> 'a \<Rightarrow> 's \<times> 'e option"
    and halt :: "'s \<Rightarrow> 'e \<Rightarrow> 'r"
    and loop :: "'s \<Rightarrow> bytes \<Rightarrow> 'r"
  assumes loop_record: "ok x \<Longrightarrow> loop s (enc x @ r) =
      (case step s x of (s', Some e) \<Rightarrow> halt s' e | (s', None) \<Rightarrow> loop s' r)"
begin

lemma loop_concat:
  "list_all ok xs \<Longrightarrow> loop s (concat (map enc xs) @ r) =
     (case iterate step s xs of (s', Some e) \<Rightarrow> halt s' e | (s', None) \<Rightarrow> loop s' r)"
  by (induction xs arbitrary: s) (auto simp: loop_record split: prod.splits option.splits)

end

end
