(* ===== verification/Wildcard.thy ===== *)
theory Wildcard
  imports Aqueduct_Prelude
begin

text \<open>
  Topic patterns, \<^verbatim>\<open>internal/broker/wildcard.go\<close>. The two indices of the source walk the pattern and the
  topic from left to right and never go back, so \<open>match_loop\<close> is written over the remaining suffixes
  \<^verbatim>\<open>pattern[pIdx:]\<close> and \<^verbatim>\<open>topic[tIdx:]\<close>. The abstract view is matching level by level: \<open>mqtt_match\<close> works
  on the lists of levels between the slashes, and the loop is shown to decide it.
\<close>

section \<open>Operations\<close>

abbreviation slash :: byte where "slash \<equiv> 47"
abbreviation plus_byte :: byte where "plus_byte \<equiv> 43"
abbreviation hash_byte :: byte where "hash_byte \<equiv> 35"

fun match_loop :: "bytes \<Rightarrow> bytes \<Rightarrow> bool" where
  "match_loop [] topic = (topic = [])"
| "match_loop (c # pattern) topic =
     (if c = hash_byte then True
      else if c = plus_byte then
        (if topic = [] then False
         else match_loop pattern (dropWhile (\<lambda>b. b \<noteq> slash) topic))
      else case topic of
        [] \<Rightarrow> c = slash \<and> pattern \<noteq> [] \<and> hd pattern = hash_byte
      | d # topic' \<Rightarrow> if c \<noteq> d then False else match_loop pattern topic')"

definition MatchWildcard :: "bytes \<Rightarrow> bytes \<Rightarrow> bool" where
  "MatchWildcard pattern topic \<longleftrightarrow> (if pattern = topic then True else match_loop pattern topic)"

definition IsWildcardTopic :: "bytes \<Rightarrow> bool" where
  "IsWildcardTopic topic \<longleftrightarrow> plus_byte \<in> set topic \<or> hash_byte \<in> set topic"

section \<open>Levels\<close>

text \<open>A topic or a pattern as its levels, joined by slashes.\<close>

fun join_levels :: "bytes list \<Rightarrow> bytes" where
  "join_levels [] = []"
| "join_levels [l] = l"
| "join_levels (l # ls) = l @ slash # join_levels ls"

fun mqtt_match :: "bytes list \<Rightarrow> bytes list \<Rightarrow> bool" where
  "mqtt_match [] ts = (ts = [])"
| "mqtt_match (p # ps) ts =
     (if p = [hash_byte] then True
      else case ts of [] \<Rightarrow> False
        | t # ts' \<Rightarrow> (p = [plus_byte] \<or> p = t) \<and> mqtt_match ps ts')"

definition literal_level :: "bytes \<Rightarrow> bool" where
  "literal_level l \<longleftrightarrow> slash \<notin> set l \<and> plus_byte \<notin> set l \<and> hash_byte \<notin> set l"

text \<open>Well-formed patterns: a wildcard fills its level, and the multi-level one is last.\<close>

fun wf_pattern :: "bytes list \<Rightarrow> bool" where
  "wf_pattern [] = False"
| "wf_pattern [p] = (p = [hash_byte] \<or> p = [plus_byte] \<or> literal_level p)"
| "wf_pattern (p # ps) = ((p = [plus_byte] \<or> literal_level p) \<and> wf_pattern ps)"

definition wf_topic :: "bytes list \<Rightarrow> bool" where
  "wf_topic ts \<longleftrightarrow> ts \<noteq> [] \<and> last ts \<noteq> [] \<and> list_all (\<lambda>t. slash \<notin> set t) ts"

lemma join_Cons: "join_levels (l # ls) = l @ (if ls = [] then [] else slash # join_levels ls)"
  by (cases ls) auto

lemma match_loop_literal:
  "literal_level l \<Longrightarrow> match_loop (l @ q) x \<longleftrightarrow> (\<exists>x'. x = l @ x' \<and> match_loop q x')"
  by (induction l arbitrary: x) (auto simp: literal_level_def split: list.split)

lemma append_slash_eq:
  assumes "slash \<notin> set a" "slash \<notin> set b"
  shows "a @ (if P then [] else slash # x) = b @ (if Q then [] else slash # y) \<longleftrightarrow>
    a = b \<and> (P \<longleftrightarrow> Q) \<and> (P \<or> x = y)"
  using assms by (induction a b rule: list_induct2') (auto split: if_splits)

lemma dropWhile_level:
  "slash \<notin> set t \<Longrightarrow> dropWhile (\<lambda>b. b \<noteq> slash) (t @ (if P then [] else slash # x)) =
     (if P then [] else slash # x)"
  by (induction t) auto

lemma wf_pattern_Cons:
  "wf_pattern (p # ps) \<longleftrightarrow> (p = [plus_byte] \<or> literal_level p \<or> (p = [hash_byte] \<and> ps = [])) \<and>
     (ps = [] \<or> wf_pattern ps)"
  by (cases ps) auto

lemma pattern_starts_with_hash:
  "wf_pattern ps \<Longrightarrow> (join_levels ps \<noteq> [] \<and> hd (join_levels ps) = hash_byte) \<longleftrightarrow> ps = [[hash_byte]]"
  by (cases ps) (auto simp: wf_pattern_Cons join_Cons literal_level_def hd_append dest: hd_in_set)

lemma match_loop_slash:
  assumes "wf_pattern ps"
  shows "match_loop (slash # join_levels ps) [] \<longleftrightarrow> ps = [[hash_byte]]"
    "match_loop (slash # join_levels ps) (slash # y) \<longleftrightarrow> match_loop (join_levels ps) y"
  using pattern_starts_with_hash [OF assms] by simp_all

lemma mqtt_match_Nil: "wf_pattern ps \<Longrightarrow> mqtt_match ps [] \<longleftrightarrow> ps = [[hash_byte]]"
  by (cases ps) (auto simp: wf_pattern_Cons literal_level_def)

lemma match_loop_join:
  "wf_pattern ps \<Longrightarrow> wf_topic ts \<Longrightarrow> match_loop (join_levels ps) (join_levels ts) \<longleftrightarrow> mqtt_match ps ts"
proof (induction ps arbitrary: ts)
  case (Cons p ps)
  obtain t ts' where ts: "ts = t # ts'" and t: "slash \<notin> set t"
    using Cons.prems(2) by (cases ts) (auto simp: wf_topic_def)
  have tail: "ts' \<noteq> [] \<Longrightarrow> wf_topic ts'"
    using Cons.prems(2) by (auto simp: ts wf_topic_def)
  have rest: "match_loop (if ps = [] then [] else slash # join_levels ps)
      (if ts' = [] then [] else slash # join_levels ts') \<longleftrightarrow> mqtt_match ps ts'"
    using Cons.prems(1) Cons.IH [of ts'] tail
    by (cases "ps = []"; cases "ts' = []")
      (simp_all add: wf_pattern_Cons match_loop_slash mqtt_match_Nil del: match_loop.simps(2))
  consider "p = [hash_byte]" | "p = [plus_byte]" | "literal_level p" "p \<noteq> [hash_byte]" "p \<noteq> [plus_byte]"
    using Cons.prems(1) by (auto simp: wf_pattern_Cons literal_level_def)
  then show ?case
  proof cases
    case 2
    have "join_levels ts \<noteq> []"
      using Cons.prems(2) by (auto simp: ts wf_topic_def join_Cons)
    then show ?thesis
      using 2 rest by (auto simp: ts join_Cons dropWhile_level [OF t] split: if_splits)
  next
    case 3
    have p: "slash \<notin> set p" using 3 by (simp add: literal_level_def)
    define q where "q = (if ps = [] then [] else slash # join_levels ps)"
    define y where "y = (if ts' = [] then [] else slash # join_levels ts')"
    have hd_q: "match_loop q x' \<Longrightarrow> x' = [] \<or> hd x' = slash" for x'
      by (cases x') (auto simp: q_def split: if_splits)
    have "match_loop (p @ q) (t @ y) \<longleftrightarrow> t = p \<and> match_loop q y"
    proof
      assume "match_loop (p @ q) (t @ y)"
      then obtain x' where x': "t @ y = p @ x'" "match_loop q x'"
        using match_loop_literal [OF 3(1)] by blast
      from hd_q [OF x'(2)] obtain Q z where "x' = (if Q then [] else slash # z)"
        by (cases x') (auto intro: that [of True] that [of False])
      with x' show "t = p \<and> match_loop q y"
        using append_slash_eq [OF t p, of "ts' = []" "join_levels ts'" Q z] by (auto simp: y_def)
    qed (use match_loop_literal [OF 3(1)] in auto)
    then show ?thesis
      using 3 rest by (auto simp: ts join_Cons q_def y_def)
  qed (simp add: join_Cons)
qed simp

lemma join_levels_inject:
  "list_all (\<lambda>t. slash \<notin> set t) ps \<Longrightarrow> list_all (\<lambda>t. slash \<notin> set t) ts \<Longrightarrow> ps \<noteq> [] \<Longrightarrow> ts \<noteq> [] \<Longrightarrow>
     join_levels ps = join_levels ts \<longleftrightarrow> ps = ts"
proof (induction ps arbitrary: ts)
  case (Cons p ps)
  then show ?case
    by (cases ts) (auto simp: join_Cons append_slash_eq)
qed simp

lemma mqtt_match_refl: "mqtt_match ps ps"
  by (induction ps) auto

lemma wf_pattern_no_slash: "wf_pattern ps \<Longrightarrow> list_all (\<lambda>t. slash \<notin> set t) ps"
  by (induction ps rule: wf_pattern.induct) (auto simp: literal_level_def)

section \<open>Properties\<close>

text \<open>C30: On a pattern whose wildcards fill their levels and on a topic that does not end in an empty
  level, the byte loop decides matching level by level: a plus matches exactly one level, a final hash
  matches the rest of the topic and also no level at all, and every other level matches itself.\<close>

theorem wildcard_matches_levels:
  assumes "wf_pattern ps" "wf_topic ts"
  shows "MatchWildcard (join_levels ps) (join_levels ts) \<longleftrightarrow> mqtt_match ps ts"
proof (cases "join_levels ps = join_levels ts")
  case True
  then have "ps = ts"
    using assms wf_pattern_no_slash [OF assms(1)] join_levels_inject [of ps ts]
    by (cases ps) (auto simp: wf_topic_def)
  then show ?thesis by (simp add: MatchWildcard_def mqtt_match_refl)
qed (simp add: MatchWildcard_def match_loop_join [OF assms])

theorem wildcard_matches_levels_witness:
  "MatchWildcard (join_levels [str ''a'', str ''+'', str ''#'']) (join_levels [str ''a'', str ''b''])"
  using wildcard_matches_levels [of "[str ''a'', str ''+'', str ''#'']" "[str ''a'', str ''b'']"]
  by (simp add: wf_topic_def literal_level_def str_def)

text \<open>A hash matches wherever it stands and a plus does not match an empty last level: the source
  accepts a topic under a pattern that is not well-formed, and refuses a topic that the level rules
  accept.\<close>

theorem wildcard_edge_cases:
  "MatchWildcard (str ''a#b'') (str ''axyz'') \<and>
   \<not> MatchWildcard (str ''a/+'') (str ''a/'') \<and> mqtt_match [str ''a'', str ''+''] [str ''a'', []]"
  by code_simp

end
