(* ===== verification/Quotas.thy ===== *)
theory Quotas
  imports Aqueduct_Prelude "HOL-Library.AList"
begin

text \<open>
  Token buckets, \<^verbatim>\<open>internal/quotas/bucket.go\<close>. The counters are signed 64-bit integers: they are kept as
  \<open>int\<close> with the wrap-around of addition written out by \<open>i64\<close>. A compare-and-swap loop of the source
  retries until no other operation intervened, so each operation is one atomic step; the refill
  goroutine is the step \<open>refill_tick\<close>. A nil bucket or manager is \<open>None\<close>.
\<close>

section \<open>Operations\<close>

record Bucket =
  tokens :: int
  capacity :: int
  rate :: int
  refilling :: bool

definition NewBucket :: "int \<Rightarrow> int \<Rightarrow> Bucket" where
  "NewBucket r c = \<lparr>tokens = c, capacity = c, rate = r, refilling = r > 0\<rparr>"

text \<open>
  \<^verbatim>\<open>int64(float64(rate) * 0.1)\<close>. The constant is the double nearest to one tenth,
  \<open>3602879701896397 / 2^55\<close>; the product is rounded to 53 significant bits, to nearest and ties to
  even, and then truncated. \<open>round53\<close> rounds a numerator over a power of two.
\<close>

fun bit_len :: "nat \<Rightarrow> nat" where
  "bit_len n = (if n = 0 then 0 else Suc (bit_len (n div 2)))"

declare bit_len.simps [simp del]

definition round53 :: "nat \<Rightarrow> nat" where
  "round53 m =
     (let e = bit_len m - 53; q = m div 2 ^ e; r = m mod 2 ^ e;
          up = (if 2 * r > 2 ^ e then 1 else if 2 * r = 2 ^ e \<and> odd q then 1 else 0)
      in (q + up) * 2 ^ e)"

definition tenth :: "int \<Rightarrow> int" where
  "tenth r = int (round53 (round53 (nat r) * 3602879701896397) div 2 ^ 55)"

definition refill_amount :: "int \<Rightarrow> int" where
  "refill_amount currentRate = (let added = tenth currentRate in if added \<le> 0 then 1 else added)"

definition refill_tick :: "Bucket \<Rightarrow> Bucket" where
  "refill_tick b =
     (if \<not> refilling b then b
      else if rate b \<le> 0 then b
      else let want = i64 (tokens b + refill_amount (rate b));
               want = (if want > capacity b then capacity b else want)
           in b\<lparr>tokens := want\<rparr>)"

definition TryAcquire :: "Bucket option \<Rightarrow> bool \<times> Bucket option" where
  "TryAcquire ob =
     (case ob of None \<Rightarrow> (True, None)
      | Some b \<Rightarrow> if tokens b \<le> 0 then (False, Some b) else (True, Some (b\<lparr>tokens := tokens b - 1\<rparr>)))"

definition Bucket_SetRate :: "Bucket option \<Rightarrow> int \<Rightarrow> Bucket option" where
  "Bucket_SetRate ob r = map_option (\<lambda>b. b\<lparr>rate := r\<rparr>) ob"

text \<open>Closing the stop channel ends the refill goroutine.\<close>

definition Stop :: "Bucket option \<Rightarrow> Bucket option" where
  "Stop ob = map_option (\<lambda>b. b\<lparr>refilling := False\<rparr>) ob"

record Manager =
  buckets :: "(bytes \<times> Bucket) list"
  defaultBucket :: "Bucket option"

definition NewManager :: "int \<Rightarrow> int \<Rightarrow> Manager" where
  "NewManager defaultRate defaultBurst =
     \<lparr>buckets = [], defaultBucket = (if defaultRate > 0 then Some (NewBucket defaultRate defaultBurst) else None)\<rparr>"

text \<open>The buckets are shared by reference, so taking a token updates the bucket found.\<close>

definition Manager_TryAcquire :: "Manager option \<Rightarrow> bytes \<Rightarrow> bool \<times> Manager option" where
  "Manager_TryAcquire om clientID =
     (case om of None \<Rightarrow> (True, None)
      | Some m \<Rightarrow>
          (case map_of (buckets m) clientID of
             Some b \<Rightarrow>
               (case TryAcquire (Some b) of (ok, b') \<Rightarrow>
                  (ok, Some (m\<lparr>buckets := AList.update clientID (the b') (buckets m)\<rparr>)))
           | None \<Rightarrow>
               (case TryAcquire (defaultBucket m) of (ok, b') \<Rightarrow> (ok, Some (m\<lparr>defaultBucket := b'\<rparr>)))))"

definition Manager_SetRate :: "Manager option \<Rightarrow> bytes \<Rightarrow> int \<Rightarrow> int \<Rightarrow> Manager option" where
  "Manager_SetRate om clientID r burst =
     (case om of None \<Rightarrow> None
      | Some m \<Rightarrow>
          (case map_of (buckets m) clientID of
             Some old \<Rightarrow> Some (m\<lparr>buckets := AList.update clientID (the (Bucket_SetRate (Some old) r)) (buckets m)\<rparr>)
           | None \<Rightarrow>
               (let burst = (if burst \<le> 0 then if r > 0 then r else 1000 else burst)
                in Some (m\<lparr>buckets := AList.update clientID (NewBucket r burst) (buckets m)\<rparr>))))"

section \<open>Runs of a bucket\<close>

text \<open>What happens to a bucket over time: ticks of the refill goroutine, requests, rate changes.\<close>

datatype event = Tick | Request | ChangeRate int

fun bucket_step :: "event \<Rightarrow> Bucket \<Rightarrow> nat \<times> Bucket" where
  "bucket_step Tick b = (0, refill_tick b)"
| "bucket_step Request b = (case TryAcquire (Some b) of (ok, b') \<Rightarrow> (if ok then 1 else 0, the b'))"
| "bucket_step (ChangeRate r) b = (0, the (Bucket_SetRate (Some b) r))"

fun bucket_run :: "event list \<Rightarrow> Bucket \<Rightarrow> nat \<times> Bucket" where
  "bucket_run [] b = (0, b)"
| "bucket_run (e # es) b =
     (case bucket_step e b of (n, b') \<Rightarrow> case bucket_run es b' of (m, b'') \<Rightarrow> (n + m, b''))"

text \<open>The most that the ticks of a run can add.\<close>

fun refill_budget :: "event list \<Rightarrow> int \<Rightarrow> int" where
  "refill_budget [] r = 0"
| "refill_budget (Tick # es) r = (if r > 0 then refill_amount r else 0) + refill_budget es r"
| "refill_budget (Request # es) r = refill_budget es r"
| "refill_budget (ChangeRate r' # es) r = refill_budget es r'"

definition wf_bucket :: "Bucket \<Rightarrow> bool" where
  "wf_bucket b \<longleftrightarrow> 0 \<le> tokens b \<and> tokens b \<le> capacity b \<and> capacity b < 2 ^ 62"

text \<open>Rates whose refill does not overflow the counter.\<close>

definition sane_rate :: "int \<Rightarrow> bool" where
  "sane_rate r \<longleftrightarrow> refill_amount r < 2 ^ 62"

fun sane_event :: "event \<Rightarrow> bool" where
  "sane_event (ChangeRate r) = sane_rate r"
| "sane_event _ = True"

lemma refill_amount_pos: "0 < refill_amount r"
  by (simp add: refill_amount_def Let_def)

lemma refill_tick_tokens:
  assumes "wf_bucket b" "sane_rate (rate b)"
  shows "tokens (refill_tick b) = (if refilling b \<and> rate b > 0
     then min (capacity b) (tokens b + refill_amount (rate b)) else tokens b)"
  using assms refill_amount_pos [of "rate b"]
  by (auto simp: refill_tick_def Let_def wf_bucket_def sane_rate_def i64_id min_def)

lemma refill_tick_fields [simp]:
  "capacity (refill_tick b) = capacity b" "rate (refill_tick b) = rate b"
  "refilling (refill_tick b) = refilling b"
  by (simp_all add: refill_tick_def Let_def)

lemma bucket_step_keeps:
  assumes "wf_bucket b" "sane_rate (rate b)" "sane_event e" "bucket_step e b = (n, b')"
  shows "wf_bucket b'" "sane_rate (rate b')" "capacity b' = capacity b"
  using assms refill_tick_tokens [OF assms(1,2)] refill_amount_pos [of "rate b"]
  by (cases e; auto simp: wf_bucket_def TryAcquire_def Bucket_SetRate_def min_def split: if_splits)+

lemma bucket_run_budget:
  assumes "wf_bucket b" "sane_rate (rate b)" "list_all sane_event es" "bucket_run es b = (n, b')"
  shows "wf_bucket b' \<and> capacity b' = capacity b \<and>
    int n + tokens b' \<le> tokens b + refill_budget es (rate b)"
  using assms
proof (induction es arbitrary: b n)
  case (Cons e es)
  obtain n1 b1 where s: "bucket_step e b = (n1, b1)" by (cases "bucket_step e b")
  obtain n2 where r: "bucket_run es b1 = (n2, b')" and n: "n = n1 + n2"
    using Cons.prems(4) s by (auto split: prod.splits)
  have "int n1 + tokens b1 + refill_budget es (rate b1) \<le> tokens b + refill_budget (e # es) (rate b)"
    using s refill_tick_tokens [OF Cons.prems(1,2)] refill_amount_pos [of "rate b"]
    by (cases e) (auto simp: TryAcquire_def Bucket_SetRate_def split: if_splits)
  then show ?case
    using Cons.IH [OF _ _ _ r] bucket_step_keeps [OF Cons.prems(1,2) _ s] Cons.prems(3) n by simp
qed simp

section \<open>The floating-point tenth\<close>

lemma bit_len_upper: "m < 2 ^ bit_len m"
proof (induction m rule: bit_len.induct)
  case (1 m)
  show ?case
    using 1 by (subst bit_len.simps) auto
qed

lemma bit_len_le: "m < 2 ^ k \<Longrightarrow> bit_len m \<le> k"
proof (induction m arbitrary: k rule: bit_len.induct)
  case (1 m)
  show ?case
  proof (cases "m = 0")
    case False
    then obtain k' where k: "k = Suc k'" using "1.prems" by (cases k) auto
    then have "m div 2 < 2 ^ k'" using "1.prems" by auto
    then show ?thesis using False 1 k by (subst bit_len.simps) simp
  qed (simp add: bit_len.simps)
qed

lemma round53_small: "m < 2 ^ 53 \<Longrightarrow> round53 m = m"
  using bit_len_le [of m 53] by (simp add: round53_def Let_def)

lemma round53_upper: "2 * round53 m \<le> 2 * m + 2 ^ (bit_len m - 53)"
proof -
  define e where "e = bit_len m - 53"
  have "m div 2 ^ e * 2 ^ e + m mod 2 ^ e = m" by (rule div_mult_mod_eq)
  then show ?thesis
    unfolding round53_def Let_def e_def [symmetric]
    by (simp only: distrib_right distrib_left) (auto split: if_splits)
qed

lemma round53_lower:
  assumes "a * 2 ^ (bit_len m - 53) \<le> m"
  shows "a * 2 ^ (bit_len m - 53) \<le> round53 m"
proof -
  have "a \<le> m div 2 ^ (bit_len m - 53)" using assms by (simp add: less_eq_div_iff_mult_less_eq)
  then show ?thesis unfolding round53_def Let_def by (auto intro: mult_le_mono)
qed

lemma round53_tenth:
  assumes "r < (2 :: nat) ^ 40"
  shows "round53 (r * 3602879701896397) div 2 ^ 55 = r div 10"
proof -
  define m where "m = r * 3602879701896397"
  have "m < 2 ^ 40 * 2 ^ 52" unfolding m_def by (rule mult_strict_mono) (use assms in auto)
  then have "bit_len m \<le> 92" by (intro bit_len_le) simp
  then have e: "bit_len m - 53 \<le> 39" by simp
  then have e2: "(2 :: nat) ^ (bit_len m - 53) \<le> 2 ^ 39" by (intro power_increasing) simp_all
  have at55: "r div 10 * 2 ^ 55 = (r div 10 * 2 ^ (55 - (bit_len m - 53))) * 2 ^ (bit_len m - 53)"
    using e by (simp only: mult.assoc power_add [symmetric]) simp
  have "r div 10 * 2 ^ 55 \<le> m" by (simp add: m_def)
  then have lower: "r div 10 * 2 ^ 55 \<le> round53 m"
    using round53_lower [of "r div 10 * 2 ^ (55 - (bit_len m - 53))" m] by (simp only: at55)
  have "2 * round53 m < 2 * ((r div 10 + 1) * 2 ^ 55)"
    using round53_upper [of m] e2 assms by (simp add: m_def)
  then have upper: "round53 m < (r div 10 + 1) * 2 ^ 55" by simp
  show ?thesis
    using lower upper unfolding m_def [symmetric] by (intro div_nat_eqI) (simp_all add: ac_simps)
qed

lemma refill_amount_tenth: "0 < r \<Longrightarrow> r < 2 ^ 40 \<Longrightarrow> refill_amount r = max 1 (r div 10)"
proof -
  assume r: "0 < r" "r < 2 ^ 40"
  then have "nat r < 2 ^ 40" by (simp add: nat_less_iff)
  then have "tenth r = r div 10"
    using r round53_tenth [of "nat r"]
    by (simp add: tenth_def round53_small)
  then show ?thesis by (auto simp: refill_amount_def Let_def)
qed

section \<open>Properties\<close>



text \<open>A bucket that is being refilled never starves its client: after any tick with a positive rate
  and a capacity of at least one, the next request is granted.\<close>

theorem quota_no_starvation:
  assumes "wf_bucket b" "sane_rate (rate b)" "refilling b" "rate b > 0" "capacity b > 0"
  shows "fst (TryAcquire (Some (refill_tick b)))"
  using assms refill_amount_pos [of "rate b"]
  by (auto simp: TryAcquire_def refill_tick_tokens wf_bucket_def)

theorem quota_no_starvation_witness:
  "fst (TryAcquire (Some (refill_tick ((NewBucket 5 1)\<lparr>tokens := 0\<rparr>))))"
  by (rule quota_no_starvation)
    (simp_all add: wf_bucket_def sane_rate_def NewBucket_def refill_amount_tenth)

text \<open>A client with a bucket of its own spends only its own tokens: its requests leave every other
  client's bucket and the default bucket unchanged, and the outcome is that of its bucket alone.\<close>

theorem quota_isolation:
  assumes "map_of (buckets m) c = Some b" "c' \<noteq> c"
  shows "\<exists>m'. Manager_TryAcquire (Some m) c = (fst (TryAcquire (Some b)), Some m') \<and>
    map_of (buckets m') c = snd (TryAcquire (Some b)) \<and>
    map_of (buckets m') c' = map_of (buckets m) c' \<and> defaultBucket m' = defaultBucket m"
  using assms by (auto simp: Manager_TryAcquire_def TryAcquire_def update_conv split: prod.split)

theorem quota_isolation_witness:
  "\<exists>m'. Manager_TryAcquire (Some \<lparr>buckets = [([1], NewBucket 5 1)], defaultBucket = None\<rparr>) [1] = (True, Some m') \<and>
    map_of (buckets m') [2] = None"
  using quota_isolation [of "\<lparr>buckets = [([1], NewBucket 5 1)], defaultBucket = None\<rparr>" "[1]" "NewBucket 5 1" "[2]"]
  by (auto simp: TryAcquire_def NewBucket_def)

text \<open>Clients without a bucket of their own share one: a request of one takes a token from the other,
  so a single client can use up what the default is meant to give each. A bucket made with rate zero
  has no refill goroutine, so raising its rate later never refills it.\<close>

theorem quota_default_shared:
  "(let m = Some (NewManager 1 1); (ok1, m1) = Manager_TryAcquire m (str ''a'');
        (ok2, m2) = Manager_TryAcquire m1 (str ''b'') in ok1 \<and> \<not> ok2) \<and>
   (let m = Manager_SetRate (Manager_SetRate (Some (NewManager 0 0)) (str ''a'') 0 1) (str ''a'') 100 1;
        b = map_of (buckets (the m)) (str ''a'')
    in map_option rate b = Some 100 \<and> map_option (\<lambda>b. tokens (refill_tick (b\<lparr>tokens := 0\<rparr>))) b = Some 0)"
  by code_simp

end
