(* ===== verification/Extensions.thy ===== *)
theory Extensions
  imports Aqueduct_Prelude
begin

text \<open>
  The TLV extension block of a frame (\<^verbatim>\<open>internal/protocol/extensions.go\<close>): a two-byte total length
  followed by entries \<open>[type:1][len:1][value:len]\<close>. The first section translates every function of
  the file; the second gives the abstract view of a block as a list of typed values and shows that
  lookup, stripping and the builders implement the list operations; the third is memory safety.

  A builder takes its buffer from the slab allocator. Recycled blocks carry stale bytes, so the
  function \<^verbatim>\<open>globalSlab.Acquire\<close> is an argument \<open>acq\<close> of every builder: at a requested size it gives
  \<open>None\<close> for an error, or the acquired buffer with arbitrary content. What the builders rely on is
  the locale \<open>buffer_source\<close>; \<open>Slab\<close> interprets it on the allocator.
\<close>

section \<open>Constants\<close>

definition ExtTraceContext :: byte where [simp, wire_consts]: "ExtTraceContext = 0x01"
definition ExtCompression :: byte where [simp, wire_consts]: "ExtCompression = 0x02"
definition ExtCompressionValueLen :: nat where [simp, wire_consts]: "ExtCompressionValueLen = 5"
definition AlgoZSTD :: byte where [simp, wire_consts]: "AlgoZSTD = 1"
definition ExtTraceContextLen :: nat where [simp, wire_consts]: "ExtTraceContextLen = 25"
definition ExtRetryOffset :: byte where [simp, wire_consts]: "ExtRetryOffset = 0xF0"
definition ExtHeaderLen :: nat where [simp, wire_consts]: "ExtHeaderLen = 2"
definition ExtEntryHeader :: nat where [simp, wire_consts]: "ExtEntryHeader = 2"
definition ExtPriority :: byte where [simp, wire_consts]: "ExtPriority = 0x03"
definition ExtPriorityLen :: nat where [simp, wire_consts]: "ExtPriorityLen = 1"
definition PriorityNormal :: byte where [simp, wire_consts]: "PriorityNormal = 2"
definition PriorityLow :: byte where [simp, wire_consts]: "PriorityLow = 3"
definition DefaultPriority :: byte where [simp, wire_consts]: "DefaultPriority = 2"
definition MaxExtTotalLen :: nat where [simp, wire_consts]: "MaxExtTotalLen = 1024"

datatype ext_error = ErrExtEntryTruncated

section \<open>Operations\<close>

definition ExtTotalLen :: "bytes \<Rightarrow> nat \<Rightarrow> ('e, nat) res" where
  "ExtTotalLen buf offset =
     rbind (go_slice buf offset (offset + 2)) (\<lambda>s. Ok (unat (get_u16 s)))"

definition SetExtTotalLen :: "bytes \<Rightarrow> nat \<Rightarrow> nat \<Rightarrow> bytes" where
  "SetExtTotalLen buf offset n = write_at buf offset (put_u16 (of_nat n))"

definition ExtBlockSize :: "nat \<Rightarrow> nat" where
  "ExtBlockSize totalLen = ExtHeaderLen + totalLen"

definition ParseTLVEntry :: "bytes \<Rightarrow> nat \<Rightarrow> (ext_error, byte \<times> bytes \<times> nat) res" where
  "ParseTLVEntry buf offset =
     (if offset + ExtEntryHeader > length buf then Err ErrExtEntryTruncated
      else rbind (go_index buf offset) (\<lambda>typ.
           rbind (go_index buf (offset + 1)) (\<lambda>lb.
             let valLen = unat lb; valStart = offset + ExtEntryHeader in
             if valStart + valLen > length buf then Err ErrExtEntryTruncated
             else if valLen = 0 then Ok (typ, [], valStart)
             else rbind (unsafe_slice buf valStart valLen) (\<lambda>value.
                    Ok (typ, value, valStart + valLen)))))"

text \<open>The scan of \<open>FindExtension\<close>; \<open>Some v\<close> is \<^verbatim>\<open>(v, true)\<close> and \<open>None\<close> is \<^verbatim>\<open>(nil, false)\<close>.\<close>

function find_loop :: "bytes \<Rightarrow> byte \<Rightarrow> nat \<Rightarrow> nat \<Rightarrow> ('e, bytes option) res" where
  "find_loop extBlock typ endOff offset =
     (if \<not> offset < endOff then Ok None
      else if offset + ExtEntryHeader > endOff then Ok None
      else rbind (go_index extBlock offset) (\<lambda>t.
           rbind (go_index extBlock (offset + 1)) (\<lambda>lb.
             let l = unat lb; valStart = offset + ExtEntryHeader in
             if l = 0 then find_loop extBlock typ endOff valStart
             else if valStart + l > endOff then Ok None
             else if t = typ then rbind (unsafe_slice extBlock valStart l) (\<lambda>v. Ok (Some v))
             else find_loop extBlock typ endOff (valStart + l))))"
  by pat_completeness auto
termination
  by (relation "measure (\<lambda>(blk, typ, e, off). e - off)") auto

declare find_loop.simps [simp del]

definition FindExtension :: "bytes \<Rightarrow> byte \<Rightarrow> ('e, bytes option) res" where
  "FindExtension extBlock typ =
     (if length extBlock < ExtHeaderLen then Ok None
      else rbind (ExtTotalLen extBlock 0) (\<lambda>totalLen.
        if totalLen \<le> 0 then Ok None
        else if length extBlock < ExtHeaderLen + totalLen then Ok None
        else find_loop extBlock typ (ExtHeaderLen + totalLen) ExtHeaderLen))"

definition ExtractPriority :: "bytes \<Rightarrow> ('e, byte \<times> bool) res" where
  "ExtractPriority extBlock =
     rbind (FindExtension extBlock ExtPriority) (\<lambda>found.
       case found of
         None \<Rightarrow> Ok (DefaultPriority, False)
       | Some val \<Rightarrow>
           if length val < ExtPriorityLen then Ok (DefaultPriority, False)
           else rbind (go_index val 0) (\<lambda>p.
             if p > PriorityLow then Ok (DefaultPriority, False) else Ok (p, True)))"

text \<open>\<^verbatim>\<open>b, err := globalSlab.Acquire(n)\<close>, with the \<^verbatim>\<open>make\<close> fallback and the reslice to \<open>n\<close>.\<close>

definition slab_or_make :: "(nat \<Rightarrow> bytes option) \<Rightarrow> nat \<Rightarrow> bytes" where
  "slab_or_make acq n = (case acq n of None \<Rightarrow> replicate n 0 | Some b \<Rightarrow> take n b)"

definition BuildPriorityExtension :: "(nat \<Rightarrow> bytes option) \<Rightarrow> byte \<Rightarrow> bytes" where
  "BuildPriorityExtension acq priority =
     (let totalLen = ExtEntryHeader + ExtPriorityLen;
          totalSize = ExtHeaderLen + totalLen;
          b = slab_or_make acq totalSize;
          b = SetExtTotalLen b 0 totalLen;
          b = b[ExtHeaderLen := ExtPriority];
          b = b[ExtHeaderLen + 1 := of_nat ExtPriorityLen]
      in b[ExtHeaderLen + 2 := priority])"

definition ExtractTraceContext :: "bytes \<Rightarrow> ('e, (bytes \<times> bytes \<times> byte) option) res" where
  "ExtractTraceContext extBlock =
     rbind (FindExtension extBlock ExtTraceContext) (\<lambda>found.
       case found of
         None \<Rightarrow> Ok None
       | Some val \<Rightarrow>
           if length val < ExtTraceContextLen then Ok None
           else rbind (go_slice val 0 16) (\<lambda>traceID.
                rbind (go_slice val 16 24) (\<lambda>spanID.
                rbind (go_index val 24) (\<lambda>traceFlags.
                  Ok (Some (traceID, spanID, traceFlags))))))"

definition SetTraceContext ::
    "bytes \<Rightarrow> nat \<Rightarrow> bytes \<Rightarrow> bytes \<Rightarrow> byte \<Rightarrow> ('e, bytes \<times> nat) res" where
  "SetTraceContext buf offset traceID spanID traceFlags =
     (if offset + 27 > length buf then Panic
      else rbind (go_slice traceID 0 16) (\<lambda>tid.
           rbind (go_slice spanID 0 8) (\<lambda>sid.
             let buf = buf[offset := ExtTraceContext];
                 buf = buf[offset + 1 := of_nat ExtTraceContextLen];
                 buf = write_at buf (offset + 2) tid;
                 buf = write_at buf (offset + 18) sid;
                 buf = buf[offset + 26 := traceFlags]
             in Ok (buf, offset + ExtEntryHeader + ExtTraceContextLen))))"

definition BuildExtensions ::
    "(nat \<Rightarrow> bytes option) \<Rightarrow> bytes \<Rightarrow> bytes \<Rightarrow> byte \<Rightarrow> ('e, bytes) res" where
  "BuildExtensions acq traceID spanID traceFlags =
     (let totalLen = ExtEntryHeader + ExtTraceContextLen;
          totalSize = ExtHeaderLen + totalLen;
          b = slab_or_make acq totalSize;
          b = SetExtTotalLen b 0 totalLen
      in rbind (SetTraceContext b ExtHeaderLen traceID spanID traceFlags) (\<lambda>(b, _). Ok b))"

definition BuildCompressionExtension :: "(nat \<Rightarrow> bytes option) \<Rightarrow> byte \<Rightarrow> u32 \<Rightarrow> bytes" where
  "BuildCompressionExtension acq algo uncompressedSize =
     (let totalSize = ExtHeaderLen + ExtEntryHeader + ExtCompressionValueLen;
          b = slab_or_make acq totalSize;
          b = SetExtTotalLen b 0 (ExtEntryHeader + ExtCompressionValueLen);
          b = b[ExtHeaderLen := ExtCompression];
          b = b[ExtHeaderLen + 1 := of_nat ExtCompressionValueLen];
          b = b[ExtHeaderLen + 2 := algo]
      in write_at b (ExtHeaderLen + 3) (put_u32 uncompressedSize))"

definition existing_entries :: "bytes \<Rightarrow> bytes" where
  "existing_entries existing =
     (if length existing \<ge> ExtHeaderLen then
        let totalLen = unat (get_u16 (slice existing 0 2)) in
        if totalLen > 0 \<and> length existing \<ge> ExtHeaderLen + totalLen
        then slice existing ExtHeaderLen (ExtHeaderLen + totalLen) else []
      else [])"

definition BuildMergedExtensionsWithCompression :: "(nat \<Rightarrow> bytes option) \<Rightarrow> bytes \<Rightarrow> u32 \<Rightarrow> bytes" where
  "BuildMergedExtensionsWithCompression acq existing uncompressedSize =
     (let existingEntries = existing_entries existing;
          compEntrySize = ExtEntryHeader + ExtCompressionValueLen;
          totalEntries = length existingEntries + compEntrySize;
          totalSize = ExtHeaderLen + totalEntries;
          b = slab_or_make acq totalSize;
          b = SetExtTotalLen b 0 totalEntries;
          off = ExtHeaderLen;
          b = (if length existingEntries > 0 then write_at b off existingEntries else b);
          off = off + length existingEntries;
          b = b[off := ExtCompression];
          b = b[off + 1 := of_nat ExtCompressionValueLen];
          b = b[off + 2 := AlgoZSTD]
      in write_at b (off + 3) (put_u32 uncompressedSize))"

text \<open>\<open>StripExtension\<close> scans twice: once to size the new block, once to copy the kept entries.\<close>

function strip_count :: "bytes \<Rightarrow> byte \<Rightarrow> nat \<Rightarrow> nat \<Rightarrow> nat" where
  "strip_count src typ off keepBytes =
     (if \<not> off < length src then keepBytes
      else if off + ExtEntryHeader > length src then keepBytes
      else let t = src ! off; l = unat (src ! (off + 1)) in
        strip_count src typ (off + (ExtEntryHeader + l))
          (if t \<noteq> typ then keepBytes + (ExtEntryHeader + l) else keepBytes))"
  by pat_completeness auto
termination
  by (relation "measure (\<lambda>(src, typ, off, k). length src - off)") auto

function strip_copy :: "bytes \<Rightarrow> byte \<Rightarrow> nat \<Rightarrow> bytes \<Rightarrow> nat \<Rightarrow> ('e, bytes) res" where
  "strip_copy src typ srcOff dst dstOff =
     (if \<not> srcOff < length src then Ok dst
      else if srcOff + ExtEntryHeader > length src then Ok dst
      else let t = src ! srcOff; l = unat (src ! (srcOff + 1)) in
        if t \<noteq> typ then
          if dstOff + 1 \<ge> length dst then Panic
          else let dst = dst[dstOff := t, dstOff + 1 := of_nat l] in
            if l > 0 then
              if dstOff + 2 + l > length dst then Panic
              else rbind (go_slice src (srcOff + 2) (srcOff + 2 + l)) (\<lambda>v.
                strip_copy src typ (srcOff + (ExtEntryHeader + l)) (write_at dst (dstOff + 2) v)
                  (dstOff + (ExtEntryHeader + l)))
            else strip_copy src typ (srcOff + (ExtEntryHeader + l)) dst (dstOff + (ExtEntryHeader + l))
        else strip_copy src typ (srcOff + (ExtEntryHeader + l)) dst dstOff)"
  by pat_completeness auto
termination
  by (relation "measure (\<lambda>(src, typ, off, d, k). length src - off)") auto

declare strip_count.simps [simp del] strip_copy.simps [simp del]

definition StripExtension :: "(nat \<Rightarrow> bytes option) \<Rightarrow> bytes \<Rightarrow> byte \<Rightarrow> ('e, bytes) res" where
  "StripExtension acq extBlock typ =
     (if length extBlock < ExtHeaderLen then Ok []
      else rbind (ExtTotalLen extBlock 0) (\<lambda>totalLen.
        if totalLen = 0 then Ok []
        else if length extBlock < ExtHeaderLen + totalLen then Ok []
        else rbind (go_slice extBlock ExtHeaderLen (ExtHeaderLen + totalLen)) (\<lambda>src.
          let keepBytes = strip_count src typ 0 0 in
          if keepBytes = 0 then Ok []
          else let blockSize = ExtHeaderLen + keepBytes;
                   dst = slab_or_make acq blockSize;
                   dst = SetExtTotalLen dst 0 keepBytes
               in rbind (strip_copy src typ 0 dst ExtHeaderLen) (\<lambda>dst.
                    Ok (take blockSize dst)))))"


section \<open>Blocks as lists of entries\<close>

text \<open>The abstract view: a block is the encoding of a list of \<open>(type, value)\<close> pairs.\<close>

type_synonym entry = "byte \<times> bytes"

definition enc_entry :: "entry \<Rightarrow> bytes" where
  "enc_entry e = fst e # of_nat (length (snd e)) # snd e"

definition enc_entries :: "entry list \<Rightarrow> bytes" where
  "enc_entries es = concat (map enc_entry es)"

definition enc_block :: "entry list \<Rightarrow> bytes" where
  "enc_block es = put_u16 (of_nat (length (enc_entries es))) @ enc_entries es"

definition wf_entries :: "entry list \<Rightarrow> bool" where
  "wf_entries es \<longleftrightarrow> (\<forall>e \<in> set es. length (snd e) < 256) \<and> length (enc_entries es) < 65536"

definition tlv_lookup :: "entry list \<Rightarrow> byte \<Rightarrow> bytes option" where
  "tlv_lookup es typ = map_option snd (List.find (\<lambda>e. fst e = typ \<and> snd e \<noteq> []) es)"

lemma enc_entries_simps [simp]:
  "enc_entries [] = []"
  "enc_entries (e # es) = enc_entry e @ enc_entries es"
  "enc_entries (xs @ ys) = enc_entries xs @ enc_entries ys"
  by (simp_all add: enc_entries_def)

lemma length_enc_entry [simp]: "length (enc_entry e) = 2 + length (snd e)"
  by (simp add: enc_entry_def)

lemma length_enc_block [simp]: "length (enc_block es) = 2 + length (enc_entries es)"
  by (simp add: enc_block_def)

lemma enc_entries_eq_Nil [simp]: "enc_entries es = [] \<longleftrightarrow> es = []"
  by (cases es) (auto simp: enc_entry_def)

lemma tlv_lookup_simps [simp]:
  "tlv_lookup [] typ = None"
  "tlv_lookup ((t, v) # es) typ = (if t = typ \<and> v \<noteq> [] then Some v else tlv_lookup es typ)"
  by (auto simp: tlv_lookup_def)

lemma tlv_lookup_append:
  "tlv_lookup (xs @ ys) typ = (case tlv_lookup xs typ of Some v \<Rightarrow> Some v | None \<Rightarrow> tlv_lookup ys typ)"
  by (induction xs) auto

lemma tlv_lookup_filter:
  "tlv_lookup (filter (\<lambda>e. fst e \<noteq> typ) es) u = (if u = typ then None else tlv_lookup es u)"
  by (induction es) auto

lemma length_enc_filter: "length (enc_entries (filter P es)) \<le> length (enc_entries es)"
  by (induction es) auto

lemma wf_entries_filter: "wf_entries es \<Longrightarrow> wf_entries (filter P es)"
  using length_enc_filter [of P es] by (auto simp: wf_entries_def)

lemma wf_entries_Cons: "wf_entries (e # es) \<Longrightarrow> length (snd e) < 256 \<and> wf_entries es"
  by (auto simp: wf_entries_def)

lemma unat_len_byte: "n < 256 \<Longrightarrow> unat (of_nat n :: byte) = n"
  by (simp add: unat_of_nat)

subsection \<open>Lookup\<close>

lemma ExtTotalLen_enc_block [simp]:
  "wf_entries es \<Longrightarrow> ExtTotalLen (enc_block es @ r) 0 = Ok (length (enc_entries es))"
  by (simp add: ExtTotalLen_def go_slice_def enc_block_def wf_entries_def)

lemma ExtTotalLen_enc_block' [simp]:
  "wf_entries es \<Longrightarrow> ExtTotalLen (enc_block es) 0 = Ok (length (enc_entries es))"
  using ExtTotalLen_enc_block [of es "[]"] by simp

lemma find_loop_enc:
  assumes "\<forall>e \<in> set es. length (snd e) < 256"
  shows "(find_loop (pre @ enc_entries es @ r) typ (length pre + length (enc_entries es)) (length pre)
    :: ('e, bytes option) res) = Ok (tlv_lookup es typ)"
  using assms
proof (induction es arbitrary: pre)
  case Nil
  then show ?case by (subst find_loop.simps) simp
next
  case (Cons e es)
  obtain t v where e: "e = (t, v)" by (cases e)
  have l: "unat (of_nat (length v) :: byte) = length v"
    using Cons.prems e by (simp add: unat_len_byte)
  have IH: "(find_loop ((pre @ enc_entry e) @ enc_entries es @ r) typ
      (length (pre @ enc_entry e) + length (enc_entries es)) (length (pre @ enc_entry e))
      :: ('e, bytes option) res) = Ok (tlv_lookup es typ)"
    by (rule Cons.IH) (use Cons.prems in auto)
  show ?case
    using IH e l
    by (subst find_loop.simps)
       (auto simp: go_index_def unsafe_slice_def slice_def enc_entry_def nth_append Let_def add_2_eq_Suc add_2_eq_Suc'
             add.assoc add.left_commute)
qed

lemma FindExtension_enc_block:
  assumes "wf_entries es"
  shows "FindExtension (enc_block es @ r) typ = Ok (tlv_lookup es typ)"
proof (cases "es = []")
  case True
  then show ?thesis
    using assms by (simp add: FindExtension_def)
next
  case False
  have "find_loop (put_u16 (of_nat (length (enc_entries es))) @ enc_entries es @ r) typ
      (length (put_u16 (of_nat (length (enc_entries es)))) + length (enc_entries es))
      (length (put_u16 (of_nat (length (enc_entries es))))) = Ok (tlv_lookup es typ)"
    using assms by (intro find_loop_enc) (simp add: wf_entries_def)
  then show ?thesis
    using False assms
    by (simp add: FindExtension_def) (simp add: enc_block_def)
qed

lemma FindExtension_enc_block' [simp]:
  "wf_entries es \<Longrightarrow> FindExtension (enc_block es) t = Ok (tlv_lookup es t)"
  using FindExtension_enc_block [of es "[]" t] by simp

subsection \<open>Stripping\<close>

lemma strip_count_enc:
  assumes "\<forall>e \<in> set es. length (snd e) < 256"
  shows "strip_count (pre @ enc_entries es) typ (length pre) k
    = k + length (enc_entries (filter (\<lambda>e. fst e \<noteq> typ) es))"
  using assms
proof (induction es arbitrary: pre k)
  case Nil
  then show ?case by (subst strip_count.simps) simp
next
  case (Cons e es)
  obtain t v where e: "e = (t, v)" by (cases e)
  have l: "unat (of_nat (length v) :: byte) = length v"
    using Cons.prems e by (simp add: unat_len_byte)
  have IH: "strip_count ((pre @ enc_entry e) @ enc_entries es) typ (length (pre @ enc_entry e)) k'
      = k' + length (enc_entries (filter (\<lambda>e. fst e \<noteq> typ) es))" for k'
    by (rule Cons.IH) (use Cons.prems in auto)
  show ?case
    using IH e l
    by (subst strip_count.simps) (auto simp: enc_entry_def nth_append Let_def add_2_eq_Suc add_2_eq_Suc')
qed

lemma strip_copy_enc:
  assumes "\<forall>e \<in> set es. length (snd e) < 256"
    and "length junk = length (enc_entries (filter (\<lambda>e. fst e \<noteq> typ) es))"
  shows "(strip_copy (pre @ enc_entries es) typ (length pre) (done @ junk) (length done)
    :: ('e, bytes) res) = Ok (done @ enc_entries (filter (\<lambda>e. fst e \<noteq> typ) es))"
  using assms
proof (induction es arbitrary: pre "done" junk)
  case Nil
  then show ?case by (subst strip_copy.simps) simp
next
  case (Cons e es)
  obtain t v where e: "e = (t, v)" by (cases e)
  have l: "unat (of_nat (length v) :: byte) = length v"
    using Cons.prems e by (simp add: unat_len_byte)
  show ?case
  proof (cases "t = typ")
    case True
    have "(strip_copy ((pre @ enc_entry e) @ enc_entries es) typ (length (pre @ enc_entry e))
        (done @ junk) (length done) :: ('e, bytes) res)
        = Ok (done @ enc_entries (filter (\<lambda>e. fst e \<noteq> typ) es))"
      by (rule Cons.IH) (use Cons.prems True e in auto)
    then show ?thesis
      using True e l
      by (subst strip_copy.simps) (auto simp: enc_entry_def nth_append Let_def add_2_eq_Suc add_2_eq_Suc')
  next
    case False
    obtain a b w rest where junk: "junk = a # b # w @ rest" and lw: "length w = length v"
      and lr: "length rest = length (enc_entries (filter (\<lambda>e. fst e \<noteq> typ) es))"
    proof -
      have n: "length junk = 2 + length v + length (enc_entries (filter (\<lambda>e. fst e \<noteq> typ) es))"
        using Cons.prems(2) False e by simp
      then obtain a b j where "junk = a # b # j"
        by (cases junk; cases "tl junk") auto
      with n that [of a b "take (length v) j" "drop (length v) j"] show thesis by simp
    qed
    have IH: "(strip_copy ((pre @ enc_entry e) @ enc_entries es) typ (length (pre @ enc_entry e))
        ((done @ enc_entry e) @ rest) (length (done @ enc_entry e)) :: ('e, bytes) res)
        = Ok ((done @ enc_entry e) @ enc_entries (filter (\<lambda>e. fst e \<noteq> typ) es))"
      by (rule Cons.IH) (use Cons.prems lr in auto)
    then show ?thesis
      using False e l junk lw
      by (subst strip_copy.simps)
         (auto simp: enc_entry_def nth_append Let_def add_2_eq_Suc add_2_eq_Suc' list_update_append go_slice_def slice_def
               write_at_def)
  qed
qed

subsection \<open>Builders\<close>

lemma go_slice_enc_block [simp]:
  "go_slice (enc_block es) 2 (2 + length (enc_entries es)) = Ok (enc_entries es)"
  by (simp add: go_slice_def enc_block_def slice_append_right)

context buffer_source
begin

lemma length_slab_or_make [simp]: "length (slab_or_make acq n) = n"
  by (auto simp: slab_or_make_def split: option.split dest: acq_length)

lemma StripExtension_enc_block:
  assumes "wf_entries es"
  shows "(StripExtension acq (enc_block es) typ :: ('e, bytes) res) =
    Ok (let ks = filter (\<lambda>e. fst e \<noteq> typ) es in if ks = [] then [] else enc_block ks)"
proof (cases "es = []")
  case True
  then show ?thesis
    using assms by (simp add: StripExtension_def)
next
  case False
  define ks where "ks = filter (\<lambda>e. fst e \<noteq> typ) es"
  define n where "n = length (enc_entries ks)"
  have small: "\<forall>e \<in> set es. length (snd e) < 256"
    using assms by (simp add: wf_entries_def)
  have cnt: "strip_count (enc_entries es) typ 0 0 = n"
    using strip_count_enc [OF small, of "[]" "typ" "0"] by (simp add: n_def ks_def)
  have hdr: "SetExtTotalLen (slab_or_make acq (2 + n)) 0 n
      = put_u16 (of_nat n) @ drop 2 (slab_or_make acq (2 + n))"
    by (simp add: SetExtTotalLen_def write_at_def numeral_2_eq_2)
  have cp: "(strip_copy (enc_entries es) typ 0
      (put_u16 (of_nat n) @ drop 2 (slab_or_make acq (2 + n))) 2
      :: ('e, bytes) res) = Ok (put_u16 (of_nat n) @ enc_entries ks)"
    using strip_copy_enc [OF small, of "drop 2 (slab_or_make acq (2 + n))" "typ" "[]"
        "put_u16 (of_nat n)"] by (simp add: n_def ks_def)
  have "(StripExtension acq (enc_block es) typ :: ('e, bytes) res) = (if n = 0 then Ok [] else Ok (enc_block ks))"
    using False assms cnt
    by (simp add: StripExtension_def Let_def hdr cp)
       (simp add: enc_block_def n_def)
  then show ?thesis
    by (simp add: ks_def n_def Let_def)
qed

lemma BuildPriorityExtension_eq:
  "BuildPriorityExtension acq p = enc_block [(ExtPriority, [p])]"
  by (simp add: BuildPriorityExtension_def SetExtTotalLen_def fill_simps enc_block_def
      enc_entry_def)

lemma BuildCompressionExtension_eq:
  "BuildCompressionExtension acq a n = enc_block [(ExtCompression, a # put_u32 n)]"
  by (simp add: BuildCompressionExtension_def SetExtTotalLen_def fill_simps enc_block_def
      enc_entry_def)

lemma BuildExtensions_eq:
  assumes "length tid \<ge> 16" "length sid \<ge> 8"
  shows "BuildExtensions acq tid sid fl
    = Ok (enc_block [(ExtTraceContext, take 16 tid @ take 8 sid @ [fl])])"
  using assms
  by (simp add: BuildExtensions_def SetTraceContext_def SetExtTotalLen_def fill_simps enc_block_def
      enc_entry_def go_slice_def Let_def)

lemma BuildMerged_eq:
  "BuildMergedExtensionsWithCompression acq (enc_block es) n
    = enc_block (es @ [(ExtCompression, AlgoZSTD # put_u32 n)])" if "wf_entries es"
proof -
  have "existing_entries (enc_block es) = enc_entries es"
    using that
    by (auto simp: existing_entries_def enc_block_def wf_entries_def slice_append_right Let_def)
  then show ?thesis
    by (cases "es = []")
       (simp_all add: BuildMergedExtensionsWithCompression_def SetExtTotalLen_def fill_simps
         enc_block_def enc_entry_def Let_def)
qed

end

section \<open>Memory safety\<close>

lemma find_loop_no_panic [no_panic]:
  "endOff \<le> length blk \<Longrightarrow> find_loop blk t endOff off \<noteq> Panic"
proof (induction blk t endOff off rule: find_loop.induct)
  case (1 blk t endOff off)
  show ?case
  proof (cases "off + 2 \<le> endOff")
    case False
    then show ?thesis by (subst find_loop.simps) simp
  next
    case True
    then have "off < length blk" "off + 1 < length blk" using "1.prems" by simp_all
    then show ?thesis
      using "1.IH" "1.prems" True
      by (subst find_loop.simps)
         (auto simp: go_index_def unsafe_slice_def Let_def)
  qed
qed

lemma ExtTotalLen_no_panic [no_panic]: "off + 2 \<le> length b \<Longrightarrow> ExtTotalLen b off \<noteq> Panic"
  by (simp add: ExtTotalLen_def go_slice_def)

lemma FindExtension_no_panic [no_panic]: "FindExtension blk t \<noteq> Panic"
  by (auto simp: FindExtension_def rbind_eq_Panic ExtTotalLen_no_panic find_loop_no_panic)


lemma find_loop_no_Err: "find_loop blk t endOff off \<noteq> Err e"
proof (induction blk t endOff off rule: find_loop.induct)
  case (1 blk t endOff off)
  then show ?case
    by (subst find_loop.simps) (auto simp: rbind_eq_Err go_index_def unsafe_slice_def Let_def)
qed

lemma FindExtension_no_Err: "FindExtension blk t \<noteq> Err e"
  by (auto simp: FindExtension_def ExtTotalLen_def go_slice_def rbind_eq_Err find_loop_no_Err
      split: if_splits)

section \<open>The contract of a block\<close>

text \<open>
  What the transport and the router rely on when they look at a block: \<open>find\<close> and \<open>strip\<close> behave
  as lookup and filtering on a list of entries. \<open>repr\<close> gives the bytes of a list.
\<close>

locale tlv_codec =
  fixes wf :: "entry list \<Rightarrow> bool"
    and repr :: "entry list \<Rightarrow> bytes"
    and find_ext :: "bytes \<Rightarrow> byte \<Rightarrow> ('e, bytes option) res"
    and strip_ext :: "bytes \<Rightarrow> byte \<Rightarrow> ('e, bytes) res"
  assumes wf_filter: "wf es \<Longrightarrow> wf (filter P es)"
    and find_Nil: "find_ext [] t = Ok None"
    and find_repr: "wf es \<Longrightarrow> find_ext (repr es) t = Ok (tlv_lookup es t)"
    and strip_repr: "wf es \<Longrightarrow> strip_ext (repr es) t =
      Ok (let ks = filter (\<lambda>e. fst e \<noteq> t) es in if ks = [] then [] else repr ks)"
begin

lemma find_after_strip:
  assumes "wf es" "strip_ext (repr es) t = Ok b"
  shows "find_ext b u = Ok (if u = t then None else tlv_lookup es u)"
proof (cases "filter (\<lambda>e. fst e \<noteq> t) es = []")
  case True
  then have "(if u = t then None else tlv_lookup es u) = None"
    using tlv_lookup_filter [of t es u] by simp
  with True assms show ?thesis
    by (simp add: strip_repr find_Nil)
next
  case False
  then show ?thesis
    using assms wf_filter [OF assms(1)] by (auto simp: strip_repr find_repr tlv_lookup_filter Let_def)
qed

end

lemma ExtractTraceContext_enc:
  assumes "length tid = 16" "length sid = 8"
  shows "ExtractTraceContext (enc_block [(1, tid @ sid @ [fl])])
    = Ok (Some (tid, sid, fl))"
  using assms
  by (simp add: ExtractTraceContext_def wf_entries_def go_index_def go_slice_def slice_append_right
      nth_append)

text \<open>With any conforming buffer source the functions of the file satisfy the contract.\<close>

sublocale buffer_source \<subseteq> blk: tlv_codec wf_entries enc_block FindExtension "StripExtension acq"
proof unfold_locales
  show "FindExtension [] t = Ok None" for t :: byte
    by (simp add: FindExtension_def)
qed (simp_all add: wf_entries_filter StripExtension_enc_block)

context buffer_source
begin

lemmas find_after_StripExtension = blk.find_after_strip

lemma ExtractPriority_build:
  "ExtractPriority (BuildPriorityExtension acq p)
    = Ok (if p > PriorityLow then (DefaultPriority, False) else (p, True))"
  by (simp add: ExtractPriority_def BuildPriorityExtension_eq wf_entries_def go_index_def)

lemma find_merged:
  assumes "wf_entries es" and "length (enc_entries es) + 7 < 65536"
  shows "FindExtension (BuildMergedExtensionsWithCompression acq (enc_block es) n) t =
    Ok (case tlv_lookup es t of
          Some v \<Rightarrow> Some v
        | None \<Rightarrow> if t = ExtCompression then Some (AlgoZSTD # put_u32 n) else None)"
proof -
  let ?es = "es @ [(ExtCompression, AlgoZSTD # put_u32 n)]"
  have "wf_entries ?es"
    using assms by (auto simp: wf_entries_def)
  then show ?thesis
    using assms(1) by (simp add: BuildMerged_eq tlv_lookup_append split: option.split)
qed

end

section \<open>Properties\<close>

text \<open>Stripping one extension type from a well-formed block removes every entry of that type and
  leaves the lookup of every other type as it was. The bytes the recycled buffer held before do not
  matter: \<open>acq\<close> is any allocator that returns buffers of the requested length.\<close>

theorem strip_then_find:
  assumes "buffer_source acq" and "wf_entries es"
    and "(StripExtension acq (enc_block es) t :: ('e, bytes) res) = Ok b"
  shows "(FindExtension b u :: ('e, bytes option) res) = Ok (if u = t then None else tlv_lookup es u)"
  using assms by (rule buffer_source.find_after_StripExtension)

theorem strip_then_find_witness:
  "(FindExtension (enc_block [(0x01, [7]), (0x03, [1])]) 0x01 :: (unit, bytes option) res) = Ok (Some [7])"
proof -
  let ?es = "[(0x02, [1, 0, 0, 0, 0]), (0x01, [7]), (0x03, [1])] :: entry list"
  have src: "buffer_source (\<lambda>n. Some (replicate n 0xAA))"
    by unfold_locales auto
  have wf: "wf_entries ?es"
    by (simp add: wf_entries_def enc_entry_def)
  have st: "(StripExtension (\<lambda>n. Some (replicate n 0xAA)) (enc_block ?es) 0x02 :: (unit, bytes) res)
      = Ok (enc_block [(0x01, [7]), (0x03, [1])])"
    using buffer_source.StripExtension_enc_block [OF src wf, of "0x02"] by simp
  show ?thesis
    using strip_then_find [OF src wf st, of "0x01"] by simp
qed

text \<open>No byte sequence makes the lookup of an extension panic or read outside the block: the scan
  is memory safe on every input, well-formed or not.\<close>

theorem find_extension_memory_safe: "FindExtension blk t \<noteq> Panic"
  by (rule FindExtension_no_panic)

text \<open>The priority of a frame is always a valid queue index: extraction never panics, and an
  absent, empty or out-of-range value yields the default level with \<open>False\<close>.\<close>

theorem priority_always_valid:
  "\<exists>p ok. (ExtractPriority blk :: ('e, byte \<times> bool) res) = Ok (p, ok) \<and>
     unat p \<le> 3 \<and> (ok \<or> p = DefaultPriority)"
proof -
  have "(FindExtension blk ExtPriority :: ('e, bytes option) res) \<noteq> Panic"
    by (rule FindExtension_no_panic)
  moreover have "(FindExtension blk ExtPriority :: ('e, bytes option) res) \<noteq> Err e" for e
    by (rule FindExtension_no_Err)
  ultimately obtain f where "(FindExtension blk ExtPriority :: ('e, bytes option) res) = Ok f"
    by (cases "FindExtension blk ExtPriority :: ('e, bytes option) res") auto
  then show ?thesis
    by (auto simp: ExtractPriority_def go_index_def word_le_nat_alt not_less split: option.split)
qed

text \<open>What the builders put into a block is what the readers take out of it: a priority of 0 to 3,
  and a trace context with a 16-byte trace id and an 8-byte span id. The bytes a recycled buffer held
  before do not show.\<close>

theorem builders_roundtrip:
  assumes "buffer_source acq" and "p \<le> PriorityLow" and "length tid = 16" and "length sid = 8"
  shows "ExtractPriority (BuildPriorityExtension acq p) = Ok (p, True) \<and>
    rbind (BuildExtensions acq tid sid fl) ExtractTraceContext = Ok (Some (tid, sid, fl))"
  using assms
  by (simp add: buffer_source.ExtractPriority_build buffer_source.BuildExtensions_eq
      ExtractTraceContext_enc linorder_not_less)

theorem builders_roundtrip_witness:
  "ExtractPriority (BuildPriorityExtension (\<lambda>_. None) 1) = Ok (1, True) \<and>
   rbind (BuildExtensions (\<lambda>_. None) (replicate 16 3) (replicate 8 4) 1) ExtractTraceContext
     = Ok (Some (replicate 16 3, replicate 8 4, 1))"
  by (rule builders_roundtrip) (unfold_locales, simp_all)

text \<open>C29: Tagging a block for compression keeps every entry readable and adds the compression entry:
  every type looks up as before, and the compression type gives the new size unless the block already
  carried one, which then wins.\<close>

theorem merged_extensions_lookup:
  assumes "buffer_source acq" and "wf_entries es" and "length (enc_entries es) \<le> MaxExtTotalLen"
  shows "FindExtension (BuildMergedExtensionsWithCompression acq (enc_block es) n) t =
    Ok (case tlv_lookup es t of
          Some v \<Rightarrow> Some v
        | None \<Rightarrow> if t = ExtCompression then Some (AlgoZSTD # put_u32 n) else None)"
  using assms by (intro buffer_source.find_merged) simp_all

theorem merged_extensions_lookup_witness:
  "FindExtension (BuildMergedExtensionsWithCompression (\<lambda>_. None) (enc_block [(3, [1])]) 70000) 2
    = Ok (Some (1 # put_u32 70000))"
proof -
  have "buffer_source (\<lambda>_. None)" by unfold_locales simp
  moreover have "wf_entries [(3, [1])]" by (simp add: wf_entries_def)
  ultimately show ?thesis
    using merged_extensions_lookup [of "\<lambda>_. None" "[(3, [1])]" 70000 2] by simp
qed

text \<open>A block whose last entry is cut off makes the removal of another type panic, in whatever buffer it copies to: the
  length of the cut entry is counted as kept and then sliced past the end of the block. The lookup accepts the block.\<close>

lemma strip_truncated_entry_panics:
  fixes acq :: "nat \<Rightarrow> bytes option"
  defines "blk \<equiv> put_u16 9 @ [0x02, 5, 1, 4, 0, 0, 0] @ [0x01, 200]"
  shows "(FindExtension blk ExtCompression :: ('e :: equal, bytes option) res) = Ok (Some [1, 4, 0, 0, 0])"
    "(StripExtension acq blk ExtCompression :: ('e, bytes) res) = Panic"
proof -
  have p: "put_u16 9 = [9, 0]" "get_u16 [9, 0] = 9" by code_simp+
  have blk: "blk = [9, 0, 0x02, 5, 1, 4, 0, 0, 0, 0x01, 200]" by (simp add: blk_def p)
  show "(FindExtension blk ExtCompression :: ('e :: equal, bytes option) res) = Ok (Some [1, 4, 0, 0, 0])"
    unfolding blk by code_simp
  let ?src = "[0x02, 5, 1, 4, 0, 0, 0, 0x01, 200] :: bytes"
  have "(strip_copy ?src ExtCompression 7 dst 2 :: ('e, bytes) res) = Panic" for dst
    by (subst strip_copy.simps) (simp add: go_slice_def)
  then have copy: "(strip_copy ?src ExtCompression 0 dst 2 :: ('e, bytes) res) = Panic" for dst
    by (subst strip_copy.simps) simp
  have "strip_count ?src ExtCompression 0 0 = 202"
    by (simp add: strip_count.simps)
  then show "(StripExtension acq blk ExtCompression :: ('e, bytes) res) = Panic"
    by (simp add: StripExtension_def blk ExtTotalLen_def go_slice_def slice_def Let_def copy [simplified] p)
qed

end
