(* ===== verification/Slab.thy ===== *)
theory Slab
  imports Extensions
begin

text \<open>
  The slab allocator, \<^verbatim>\<open>internal/mem/slab.go\<close>. An arena is a range of addresses that starts at \<open>sc_base\<close>;
  where the runtime places a new one is an argument, and that a new arena does not overlap memory in use
  is a hypothesis of the step that grows. The free list is the chain of indices from \<open>sc_head\<close> through
  \<open>sc_next\<close>, as in the source. The operations come twice: as atomic functions, for which the live blocks
  never overlap, and as the loads, stores and compare-and-swaps they consist of, where they can.
\<close>

section \<open>Size classes\<close>

definition noBlock :: u64 where "noBlock = 18446744073709551615"

definition arenaSize :: nat where "arenaSize = 64 * 1024 * 1024"

record sizeClass =
  sc_blockSize :: nat
  sc_base :: nat
  sc_arenaLen :: nat
  sc_blocks :: nat
  sc_head :: u64
  sc_next :: "nat \<Rightarrow> u64"
  sc_nextLen :: nat

definition newSizeClass :: "nat \<Rightarrow> sizeClass" where
  "newSizeClass bs = \<lparr>sc_blockSize = bs, sc_base = 0, sc_arenaLen = 0, sc_blocks = 0,
     sc_head = noBlock, sc_next = (\<lambda>_. 0), sc_nextLen = 0\<rparr>"

definition grow :: "nat \<Rightarrow> sizeClass \<Rightarrow> sizeClass" where
  "grow base sc =
     (if sc_head sc \<noteq> noBlock then sc
      else let blocks = arenaSize div sc_blockSize sc
           in sc\<lparr>sc_base := base, sc_arenaLen := arenaSize,
                 sc_next := (\<lambda>i. if i < blocks - 1 then of_nat (i + 1) else noBlock),
                 sc_nextLen := blocks, sc_blocks := blocks, sc_head := 0\<rparr>)"

datatype slab_error = ErrOutOfMemory

text \<open>The result is the address of the block.\<close>

definition class_Acquire :: "nat \<Rightarrow> sizeClass \<Rightarrow> (slab_error, nat) res \<times> sizeClass" where
  "class_Acquire base sc =
     (let sc = (if sc_head sc = noBlock then grow base sc else sc);
          idx = sint (sc_head sc)
      in if idx < 0 \<or> idx \<ge> int (sc_nextLen sc) then (Err ErrOutOfMemory, sc)
         else let nxt = sc_next sc (nat idx);
                  offset = nat idx * sc_blockSize sc;
                  end = offset + sc_blockSize sc
              in if end \<le> sc_arenaLen sc then (Ok (sc_base sc + offset), sc\<lparr>sc_head := nxt\<rparr>)
                 else (Panic, sc\<lparr>sc_head := nxt\<rparr>))"

definition class_Release :: "nat \<Rightarrow> sizeClass \<Rightarrow> sizeClass" where
  "class_Release bufStart sc =
     (if sc_arenaLen sc = 0 then sc
      else if bufStart < sc_base sc then sc
      else let delta = bufStart - sc_base sc in
        if delta \<ge> sc_arenaLen sc then sc
        else let idx = delta div sc_blockSize sc in
          if idx \<ge> sc_blocks sc then sc
          else sc\<lparr>sc_next := (sc_next sc)(idx := sc_head sc), sc_head := of_nat idx\<rparr>)"

section \<open>The allocator\<close>

definition slab_sizes :: "nat list" where
  "slab_sizes = [128, 256, 512, 2048, 8192, 32768]"

type_synonym SlabAllocator = "sizeClass list"

definition New :: SlabAllocator where
  "New = map newSizeClass slab_sizes"

text \<open>A slice: where it starts, how long it is and what it may grow to.\<close>

record buffer =
  b_start :: nat
  b_len :: nat
  b_cap :: nat

fun size_index :: "nat list \<Rightarrow> nat \<Rightarrow> nat option" where
  "size_index [] n = None"
| "size_index (s # ss) n = (if n \<le> s then Some 0 else map_option Suc (size_index ss n))"

fun cap_index :: "nat list \<Rightarrow> nat \<Rightarrow> nat option" where
  "cap_index [] c = None"
| "cap_index (s # ss) c = (if c = s then Some 0 else map_option Suc (cap_index ss c))"

text \<open>\<open>base\<close> is where a new arena or an oversized buffer is placed.\<close>

definition Acquire :: "nat \<Rightarrow> nat \<Rightarrow> SlabAllocator \<Rightarrow> (slab_error, buffer) res \<times> SlabAllocator" where
  "Acquire base n sa =
     (case size_index slab_sizes n of
        Some i \<Rightarrow>
          (case class_Acquire base (sa ! i) of
             (Ok a, sc) \<Rightarrow>
               (Ok \<lparr>b_start = a, b_len = n, b_cap = sc_blockSize sc\<rparr>, sa[i := sc])
           | (Err e, sc) \<Rightarrow> (Err e, sa[i := sc])
           | (Panic, sc) \<Rightarrow> (Panic, sa[i := sc]))
      | None \<Rightarrow> (Ok \<lparr>b_start = base, b_len = n, b_cap = n\<rparr>, sa))"

definition Release :: "buffer \<Rightarrow> SlabAllocator \<Rightarrow> SlabAllocator" where
  "Release buf sa =
     (case cap_index slab_sizes (b_cap buf) of
        Some i \<Rightarrow> sa[i := class_Release (b_start buf) (sa ! i)]
      | None \<Rightarrow> sa)"

definition ReleaseWithLen :: "buffer \<Rightarrow> nat \<Rightarrow> SlabAllocator \<Rightarrow> SlabAllocator" where
  "ReleaseWithLen buf len sa =
     (case cap_index slab_sizes (b_cap buf) of
        Some i \<Rightarrow> sa[i := class_Release (b_start buf) (sa ! i)]
      | None \<Rightarrow> sa)"

text \<open>What a caller of \<^verbatim>\<open>Acquire\<close> reads in the buffer: whatever the memory holds there.\<close>

definition slab_acq :: "(nat \<Rightarrow> byte) \<Rightarrow> nat \<Rightarrow> SlabAllocator \<Rightarrow> nat \<Rightarrow> bytes option" where
  "slab_acq mem base sa n =
     (case Acquire base n sa of
        (Ok b, _) \<Rightarrow> Some (map mem [b_start b ..< b_start b + b_len b])
      | _ \<Rightarrow> None)"

section \<open>The operations in small steps\<close>

text \<open>
  A thread inside \<^verbatim>\<open>Acquire\<close> or \<^verbatim>\<open>Release\<close>: what it has loaded so far. One step is one atomic action on the
  shared class; growing is atomic because it runs under the mutex.
\<close>

datatype thread =
    AcqStart
  | AcqHead u64
  | AcqNext u64 u64
  | Acquired nat
  | RelStart nat
  | RelHead nat u64
  | RelStored nat u64
  | Released
  | Failed

fun thread_step :: "nat \<Rightarrow> sizeClass \<times> thread \<Rightarrow> sizeClass \<times> thread" where
  "thread_step base (sc, AcqStart) =
     (let head = sc_head sc in
      if head = noBlock then (grow base sc, AcqStart) else (sc, AcqHead head))"
| "thread_step base (sc, AcqHead head) =
     (if sint head < 0 \<or> sint head \<ge> int (sc_nextLen sc) then (sc, Failed)
      else (sc, AcqNext head (sc_next sc (nat (sint head)))))"
| "thread_step base (sc, AcqNext head nxt) =
     (if sc_head sc = head then (sc\<lparr>sc_head := nxt\<rparr>, Acquired (unat head)) else (sc, AcqStart))"
| "thread_step base (sc, RelStart idx) = (sc, RelHead idx (sc_head sc))"
| "thread_step base (sc, RelHead idx head) =
     (sc\<lparr>sc_next := (sc_next sc)(idx := head)\<rparr>, RelStored idx head)"
| "thread_step base (sc, RelStored idx head) =
     (if sc_head sc = head then (sc\<lparr>sc_head := of_nat idx\<rparr>, Released) else (sc, RelStart idx))"
| "thread_step base (sc, t) = (sc, t)"

text \<open>A schedule names the thread that moves at each step.\<close>

fun run_schedule :: "nat \<Rightarrow> nat list \<Rightarrow> sizeClass \<times> thread list \<Rightarrow> sizeClass \<times> thread list" where
  "run_schedule base [] st = st"
| "run_schedule base (i # is) (sc, ts) =
     (case thread_step base (sc, ts ! i) of (sc', t') \<Rightarrow> run_schedule base is (sc', ts[i := t']))"

section \<open>The free list\<close>

fun chain :: "(nat \<Rightarrow> u64) \<Rightarrow> u64 \<Rightarrow> nat list \<Rightarrow> bool" where
  "chain nx h [] \<longleftrightarrow> h = noBlock"
| "chain nx h (i # is) \<longleftrightarrow> h = of_nat i \<and> chain nx (nx i) is"

lemma chain_upd: "i \<notin> set fl \<Longrightarrow> chain (nx(i := x)) h fl \<longleftrightarrow> chain nx h fl"
  by (induction fl arbitrary: h) auto

lemma chain_init:
  assumes "k \<le> n"
  shows "chain (\<lambda>i. if i < n then of_nat (i + 1) else noBlock) (of_nat k) [k ..< Suc n]"
  using assms
proof (induction "n - k" arbitrary: k)
  case 0
  then show ?case by simp
next
  case (Suc d)
  then have "k < n" "d = n - Suc k" by simp_all
  then show ?case
    using Suc.hyps(1) [of "Suc k"] by (simp add: upt_rec del: upt_Suc)
qed

definition apart :: "nat \<Rightarrow> nat \<Rightarrow> nat \<Rightarrow> nat \<Rightarrow> bool" where
  "apart a n b m \<longleftrightarrow> a + n \<le> b \<or> b + m \<le> a"

text \<open>The invariant of a class with the set \<open>L\<close> of blocks that are handed out.\<close>

definition grown :: "sizeClass \<Rightarrow> bool" where
  "grown sc \<longleftrightarrow> sc_arenaLen sc = arenaSize \<and> sc_blocks sc = arenaSize div sc_blockSize sc \<and>
     sc_nextLen sc = sc_blocks sc"

definition class_inv :: "sizeClass \<Rightarrow> nat set \<Rightarrow> bool" where
  "class_inv sc L \<longleftrightarrow>
     0 < sc_blockSize sc \<and> sc_blockSize sc \<le> arenaSize \<and>
     (sc_arenaLen sc = 0 \<and> sc_blocks sc = 0 \<and> L = {} \<or> grown sc) \<and>
     (\<exists>fl. chain (sc_next sc) (sc_head sc) fl \<and> distinct fl \<and>
        (\<forall>i\<in>set fl. i < sc_blocks sc \<and> sc_base sc + i * sc_blockSize sc \<notin> L)) \<and>
     (\<forall>a\<in>L. (\<exists>i < sc_blocks sc. a = sc_base sc + i * sc_blockSize sc) \<or>
        apart a (sc_blockSize sc) (sc_base sc) (sc_arenaLen sc)) \<and>
     (\<forall>a\<in>L. \<forall>b\<in>L. a \<noteq> b \<longrightarrow> apart a (sc_blockSize sc) b (sc_blockSize sc))"

lemma arenaSize_eq: "arenaSize = 67108864" by (simp add: arenaSize_def)

lemma unat_noBlock: "unat noBlock = 2 ^ 64 - 1"
  by (simp add: noBlock_def)

lemma index_word:
  assumes "i < 2 ^ 63"
  shows "sint (of_nat i :: u64) = int i" "unat (of_nat i :: u64) = i" "(of_nat i :: u64) \<noteq> noBlock"
proof -
  show u: "unat (of_nat i :: u64) = i" using assms by (simp add: unat_of_nat_u64)
  show "(of_nat i :: u64) \<noteq> noBlock"
  proof
    assume "(of_nat i :: u64) = noBlock"
    then show False using u assms unat_noBlock by simp
  qed
  have "uint (of_nat i :: u64) = int i" using u by (simp only: uint_nat)
  then have "sint (of_nat i :: u64) = signed_take_bit 63 (int i)"
    by (simp add: sint_uint)
  then show "sint (of_nat i :: u64) = int i"
    using assms by (simp add: signed_take_bit_int_eq_self_iff)
qed

lemma blocks_bound:
  assumes "grown sc" "i < sc_blocks sc"
  shows "i < 2 ^ 63" "(i + 1) * sc_blockSize sc \<le> arenaSize"
proof -
  have "(i + 1) * sc_blockSize sc \<le> arenaSize div sc_blockSize sc * sc_blockSize sc"
    using assms by (intro mult_le_mono1) (simp add: grown_def)
  then show "(i + 1) * sc_blockSize sc \<le> arenaSize"
    by (rule order_trans) simp
  have "i < arenaSize" using assms div_le_dividend [of arenaSize "sc_blockSize sc"]
    by (auto simp only: grown_def intro: less_le_trans)
  then show "i < 2 ^ 63" by (simp add: arenaSize_eq)
qed

lemma class_inv_new: "0 < bs \<Longrightarrow> bs \<le> arenaSize \<Longrightarrow> class_inv (newSizeClass bs) {}"
  by (auto simp: class_inv_def newSizeClass_def intro!: exI [of _ "[]"])

text \<open>Growing an empty class keeps the invariant and leaves a block to take.\<close>

definition fresh_arena :: "nat \<Rightarrow> sizeClass \<Rightarrow> nat set \<Rightarrow> bool" where
  "fresh_arena base sc L \<longleftrightarrow> (\<forall>a\<in>L. apart a (sc_blockSize sc) base arenaSize)"

lemma class_inv_grow:
  assumes inv: "class_inv sc L" and fresh: "fresh_arena base sc L" and h: "sc_head sc = noBlock"
  shows "class_inv (grow base sc) L \<and> sc_head (grow base sc) = 0 \<and> grown (grow base sc) \<and>
    sc_blockSize (grow base sc) = sc_blockSize sc"
proof -
  define n where "n = arenaSize div sc_blockSize sc"
  have bs: "0 < sc_blockSize sc" "sc_blockSize sc \<le> arenaSize" using inv by (auto simp: class_inv_def)
  then have n: "0 < n" by (simp add: n_def div_greater_zero_iff)
  have g: "grow base sc = sc\<lparr>sc_base := base, sc_arenaLen := arenaSize,
      sc_next := (\<lambda>i. if i < n - 1 then of_nat (i + 1) else noBlock),
      sc_nextLen := n, sc_blocks := n, sc_head := 0\<rparr>"
    by (simp add: grow_def h n_def Let_def)
  have "chain (\<lambda>i. if i < n - 1 then of_nat (i + 1) else noBlock) 0 [0 ..< n]"
    using chain_init [of 0 "n - 1"] n by simp
  moreover have "base + i * sc_blockSize sc \<notin> L" if "i < n" for i
  proof
    assume "base + i * sc_blockSize sc \<in> L"
    then have "apart (base + i * sc_blockSize sc) (sc_blockSize sc) base arenaSize"
      using fresh by (simp add: fresh_arena_def)
    moreover have "(i + 1) * sc_blockSize sc \<le> n * sc_blockSize sc" using that by (intro mult_le_mono1) simp
    moreover have "n * sc_blockSize sc \<le> arenaSize" by (simp add: n_def)
    ultimately show False using bs by (simp add: apart_def)
  qed
  ultimately show ?thesis
    using inv fresh bs
    by (auto simp: g class_inv_def grown_def n_def fresh_arena_def intro!: exI [of _ "[0 ..< n]"])
qed

lemma take_block:
  assumes inv: "class_inv sc L" and g: "grown sc" and h: "sc_head sc \<noteq> noBlock"
  obtains i where "i < sc_blocks sc" "sc_head sc = of_nat i" "sc_base sc + i * sc_blockSize sc \<notin> L"
    "class_inv (sc\<lparr>sc_head := sc_next sc i\<rparr>) (insert (sc_base sc + i * sc_blockSize sc) L)"
proof -
  obtain fl where fl: "chain (sc_next sc) (sc_head sc) fl" "distinct fl"
    "\<forall>i\<in>set fl. i < sc_blocks sc \<and> sc_base sc + i * sc_blockSize sc \<notin> L"
    using inv by (auto simp: class_inv_def)
  with h obtain i fl' where i: "fl = i # fl'" by (cases fl) auto
  define a where "a = sc_base sc + i * sc_blockSize sc"
  have bs: "0 < sc_blockSize sc" using inv by (simp add: class_inv_def)
  have ib: "i < sc_blocks sc" "a \<notin> L" using fl(3) i by (simp_all add: a_def)
  have other: "apart a (sc_blockSize sc) b (sc_blockSize sc)" if b: "b \<in> L" for b
  proof -
    consider j where "j < sc_blocks sc" "b = sc_base sc + j * sc_blockSize sc"
      | "apart b (sc_blockSize sc) (sc_base sc) (sc_arenaLen sc)"
      using inv b unfolding class_inv_def by blast
    then show ?thesis
    proof cases
      case 1
      then have "j \<noteq> i" using b ib(2) by (auto simp: a_def)
      then have "(i + 1) * sc_blockSize sc \<le> j * sc_blockSize sc \<or> (j + 1) * sc_blockSize sc \<le> i * sc_blockSize sc"
        by (metis Suc_eq_plus1 Suc_leI mult_le_mono1 nat_neq_iff)
      then show ?thesis using 1 by (auto simp: apart_def a_def)
    next
      case 2
      then show ?thesis
        using blocks_bound(2) [OF g ib(1)] g by (auto simp: apart_def a_def grown_def)
    qed
  qed
  then have "class_inv (sc\<lparr>sc_head := sc_next sc i\<rparr>) (insert a L)"
    using inv fl i ib g bs
    by (auto simp: class_inv_def a_def grown_def apart_def intro!: exI [of _ fl'])
  then show thesis
    using that [of i] ib fl(1) by (simp add: i a_def)
qed

lemma class_Acquire_ok:
  assumes inv: "class_inv sc L" and fresh: "sc_head sc = noBlock \<Longrightarrow> fresh_arena base sc L"
  obtains a sc' where "class_Acquire base sc = (Ok a, sc')" "a \<notin> L" "class_inv sc' (insert a L)"
    "sc_blockSize sc' = sc_blockSize sc"
proof -
  define sc1 where "sc1 = (if sc_head sc = noBlock then grow base sc else sc)"
  have one: "class_inv sc1 L" "grown sc1" "sc_head sc1 \<noteq> noBlock" "sc_blockSize sc1 = sc_blockSize sc"
  proof -
    have "grown sc" if "sc_head sc \<noteq> noBlock"
    proof -
      obtain fl where "chain (sc_next sc) (sc_head sc) fl" "\<forall>i\<in>set fl. i < sc_blocks sc"
        using inv by (auto simp: class_inv_def)
      then show ?thesis using inv that by (cases fl) (auto simp: class_inv_def)
    qed
    then show "class_inv sc1 L" "grown sc1" "sc_head sc1 \<noteq> noBlock" "sc_blockSize sc1 = sc_blockSize sc"
      using class_inv_grow [OF inv fresh] inv by (auto simp: sc1_def noBlock_def)
  qed
  obtain i where i: "i < sc_blocks sc1" "sc_head sc1 = of_nat i"
    "sc_base sc1 + i * sc_blockSize sc1 \<notin> L"
    "class_inv (sc1\<lparr>sc_head := sc_next sc1 i\<rparr>) (insert (sc_base sc1 + i * sc_blockSize sc1) L)"
    using take_block [OF one(1-3)] by blast
  have "class_Acquire base sc =
      (Ok (sc_base sc1 + i * sc_blockSize sc1), sc1\<lparr>sc_head := sc_next sc1 i\<rparr>)"
    using blocks_bound [OF one(2) i(1)] i(1,2) one(2)
    by (simp add: class_Acquire_def sc1_def [symmetric] Let_def index_word grown_def ac_simps)
  then show thesis using that i(3,4) one(4) by simp
qed

lemma class_Release_inv:
  assumes inv: "class_inv sc L" and a: "a \<in> L"
  shows "class_inv (class_Release a sc) (L - {a})"
proof -
  have bs: "0 < sc_blockSize sc" and g: "grown sc" using inv a by (auto simp: class_inv_def)
  consider i where "i < sc_blocks sc" "a = sc_base sc + i * sc_blockSize sc"
    | "apart a (sc_blockSize sc) (sc_base sc) (sc_arenaLen sc)"
    using inv a unfolding class_inv_def by blast
  then show ?thesis
  proof cases
    case 1
    obtain fl where fl: "chain (sc_next sc) (sc_head sc) fl" "distinct fl"
      "\<forall>i\<in>set fl. i < sc_blocks sc \<and> sc_base sc + i * sc_blockSize sc \<notin> L"
      using inv by (auto simp: class_inv_def)
    have "i \<notin> set fl" using fl(3) a 1 by auto
    moreover have "i * sc_blockSize sc < arenaSize"
      using blocks_bound(2) [OF g 1(1)] bs by simp
    then have "class_Release a sc =
        sc\<lparr>sc_next := (sc_next sc)(i := sc_head sc), sc_head := of_nat i\<rparr>"
      using 1 bs g by (simp add: class_Release_def grown_def arenaSize_eq)
    ultimately show ?thesis
      using inv fl 1 bs
      by (auto simp: class_inv_def grown_def chain_upd intro!: exI [of _ "i # fl"])
  next
    case 2
    then have "class_Release a sc = sc" using bs by (auto simp: class_Release_def apart_def Let_def)
    then show ?thesis using inv by (auto simp: class_inv_def)
  qed
qed

text \<open>Sequences of atomic operations, with the set of blocks handed out.\<close>

inductive slab_reach :: "nat \<Rightarrow> sizeClass \<Rightarrow> nat set \<Rightarrow> bool" for bs where
  reach_new: "slab_reach bs (newSizeClass bs) {}"
| reach_acquire: "slab_reach bs sc L \<Longrightarrow> fresh_arena base sc L \<Longrightarrow> class_Acquire base sc = (Ok a, sc') \<Longrightarrow>
    slab_reach bs sc' (insert a L)"
| reach_release: "slab_reach bs sc L \<Longrightarrow> a \<in> L \<Longrightarrow> slab_reach bs (class_Release a sc) (L - {a})"

lemma class_Release_blockSize [simp]: "sc_blockSize (class_Release a sc) = sc_blockSize sc"
  by (simp add: class_Release_def Let_def)

lemma slab_reach_inv:
  assumes "slab_reach bs sc L" "0 < bs" "bs \<le> arenaSize"
  shows "class_inv sc L \<and> sc_blockSize sc = bs"
  using assms
proof (induction rule: slab_reach.induct)
  case reach_new
  then show ?case using class_inv_new by (simp add: newSizeClass_def)
next
  case (reach_acquire sc L base a sc')
  then have inv: "class_inv sc L" "sc_blockSize sc = bs" by simp_all
  show ?case
    by (rule class_Acquire_ok [OF inv(1), of base]) (use reach_acquire inv in auto)
next
  case (reach_release sc L a)
  then show ?case using class_Release_inv by simp
qed

section \<open>The whole allocator\<close>

definition slab_inv :: "SlabAllocator \<Rightarrow> nat set list \<Rightarrow> bool" where
  "slab_inv sa Ls \<longleftrightarrow> length sa = 6 \<and> length Ls = 6 \<and>
     (\<forall>i<6. sc_blockSize (sa ! i) = slab_sizes ! i \<and> class_inv (sa ! i) (Ls ! i))"

lemma size_index_Some:
  "size_index ss n = Some i \<Longrightarrow> i < length ss \<and> n \<le> ss ! i \<and> (\<forall>j<i. ss ! j < n)"
  by (induction ss arbitrary: i) (auto simp: less_Suc_eq_0_disj split: if_splits)

lemma size_index_None: "size_index ss n = None \<Longrightarrow> (\<forall>s\<in>set ss. s < n)"
  by (induction ss) (auto split: if_splits)

lemma cap_index_nth: "distinct ss \<Longrightarrow> i < length ss \<Longrightarrow> cap_index ss (ss ! i) = Some i"
  by (induction ss arbitrary: i) (auto simp: nth_Cons' gr0_conv_Suc)

lemma slab_sizes_facts: "distinct slab_sizes" "length slab_sizes = 6"
  by (simp_all add: slab_sizes_def)

interpretation slab: buffer_source "slab_acq mem base sa" for mem base sa
  by unfold_locales
    (auto simp: slab_acq_def Acquire_def split: option.splits prod.splits res.splits)

section \<open>Properties\<close>

text \<open>C11: Operations that run one after the other never hand out overlapping memory: after any sequence
  of acquisitions and releases of a size class the live blocks are pairwise disjoint, and the next
  acquisition succeeds with a block that is not live. A new arena is only assumed not to overlap the
  blocks that are still held.\<close>

theorem slab_blocks_disjoint:
  assumes "slab_reach bs sc L" "0 < bs" "bs \<le> arenaSize" "fresh_arena base sc L"
  shows "(\<forall>a\<in>L. \<forall>b\<in>L. a \<noteq> b \<longrightarrow> apart a bs b bs) \<and>
    (\<exists>a sc'. class_Acquire base sc = (Ok a, sc') \<and> (\<forall>b\<in>L. apart a bs b bs))"
proof -
  have inv: "class_inv sc L" and bs: "sc_blockSize sc = bs"
    using slab_reach_inv [OF assms(1-3)] by auto
  obtain a sc' where a: "class_Acquire base sc = (Ok a, sc')" "a \<notin> L" "class_inv sc' (insert a L)"
    "sc_blockSize sc' = sc_blockSize sc"
    using class_Acquire_ok [OF inv assms(4)] by blast
  have "\<forall>b\<in>L. apart a bs b bs" using a(2-4) bs by (auto simp: class_inv_def)
  moreover have "\<forall>a\<in>L. \<forall>b\<in>L. a \<noteq> b \<longrightarrow> apart a bs b bs" using inv bs by (simp add: class_inv_def)
  ultimately show ?thesis using a(1) by blast
qed

theorem slab_blocks_disjoint_witness:
  "\<exists>sc'. slab_reach 32768 sc' {4096} \<and>
    (\<exists>a sc''. class_Acquire 0 sc' = (Ok a, sc'') \<and> (\<forall>b\<in>{4096}. apart a 32768 b 32768))"
proof -
  obtain sc' where acq: "class_Acquire 4096 (newSizeClass 32768) = (Ok 4096, sc')" and "sc_head sc' = 1"
    by (auto simp: class_Acquire_def newSizeClass_def grow_def arenaSize_eq noBlock_def Let_def)
  have reach: "slab_reach 32768 sc' {4096}"
    using reach_acquire [OF reach_new, of 4096 32768 4096 sc'] acq by (simp add: fresh_arena_def)
  have "fresh_arena 68000000 sc' {4096}"
    using slab_reach_inv [OF reach] by (simp add: fresh_arena_def apart_def arenaSize_eq)
  have "slab_reach 32768 sc' {4096} \<and>
    (\<exists>a sc''. class_Acquire 68000000 sc' = (Ok a, sc'') \<and> (\<forall>b\<in>{4096}. apart a 32768 b 32768))"
    using slab_blocks_disjoint [OF reach, of 68000000] reach \<open>fresh_arena 68000000 sc' {4096}\<close>
    by (simp add: arenaSize_eq)
  then show ?thesis
    using \<open>sc_head sc' = 1\<close> by (auto simp: class_Acquire_def noBlock_def)
qed

text \<open>A request gets the smallest class that holds it, with the length asked for, or a buffer of its
  own when it is larger than every class; the allocator finds the class of a buffer again from its
  capacity, so a release undoes the acquisition on the set of live blocks.\<close>

theorem slab_acquire_release:
  assumes "slab_inv sa Ls" "\<forall>i<6. fresh_arena base (sa ! i) (Ls ! i)"
  shows "\<exists>b sa'. Acquire base n sa = (Ok b, sa') \<and> b_len b = n \<and> n \<le> b_cap b \<and>
    (if n \<le> 32768 then b_cap b \<in> set slab_sizes \<and> (\<forall>s\<in>set slab_sizes. n \<le> s \<longrightarrow> b_cap b \<le> s) else sa' = sa) \<and>
    slab_inv (Release b sa') Ls"
proof (cases "size_index slab_sizes n")
  case None
  then have "32768 < n" "cap_index slab_sizes n = None"
    using size_index_None [OF None] by (auto simp: slab_sizes_def)
  then show ?thesis using None assms(1) by (simp add: Acquire_def Release_def)
next
  case (Some i)
  have i: "i < 6" "n \<le> slab_sizes ! i" "\<forall>j<i. slab_sizes ! j < n"
    using size_index_Some [OF Some] by (simp_all add: slab_sizes_def)
  have inv: "class_inv (sa ! i) (Ls ! i)" "sc_blockSize (sa ! i) = slab_sizes ! i" "length sa = 6"
    using assms(1) i(1) by (simp_all add: slab_inv_def)
  obtain a sc where a: "class_Acquire base (sa ! i) = (Ok a, sc)" "a \<notin> Ls ! i"
    "class_inv sc (insert a (Ls ! i))" "sc_blockSize sc = sc_blockSize (sa ! i)"
    using class_Acquire_ok [OF inv(1)] assms(2) i(1) by blast
  have rel: "class_inv (class_Release a sc) (Ls ! i)"
    using class_Release_inv [OF a(3), of a] a(2) by simp
  have "slab_sizes ! i \<le> s" if "s \<in> set slab_sizes" "n \<le> s" for s
  proof -
    obtain j where j: "j < 6" "s = slab_sizes ! j" using \<open>s \<in> set slab_sizes\<close> by (auto simp: in_set_conv_nth slab_sizes_facts)
    then have "\<not> j < i" using i(3) \<open>n \<le> s\<close> by auto
    moreover have "sorted slab_sizes" by (simp add: slab_sizes_def)
    ultimately show ?thesis using j by (simp add: sorted_nth_mono slab_sizes_facts)
  qed
  moreover have "n \<le> 32768"
    using i(2) nth_mem [of i slab_sizes] i(1) by (auto simp: slab_sizes_def)
  ultimately show ?thesis
    using Some i a inv rel assms(1) cap_index_nth [OF slab_sizes_facts(1), of i]
    by (simp add: Acquire_def Release_def slab_inv_def slab_sizes_facts nth_list_update)
qed

lemma slab_inv_New: "slab_inv New (replicate 6 {})"
proof -
  have "sc_blockSize (New ! i) = slab_sizes ! i \<and> class_inv (New ! i) {}" if "i < 6" for i
  proof -
    have "New ! i = newSizeClass (slab_sizes ! i)" using that by (simp add: New_def slab_sizes_facts)
    moreover have "0 < slab_sizes ! i \<and> slab_sizes ! i \<le> arenaSize"
      using nth_mem [of i slab_sizes] that by (auto simp: slab_sizes_def arenaSize_eq)
    ultimately show ?thesis using class_inv_new by (simp add: newSizeClass_def)
  qed
  then show ?thesis by (simp add: slab_inv_def New_def slab_sizes_facts)
qed

theorem slab_acquire_release_witness:
  "\<exists>b sa'. Acquire 0 100 New = (Ok b, sa') \<and> b_len b = 100 \<and> b_cap b \<in> set slab_sizes \<and>
    slab_inv (Release b sa') (replicate 6 {})"
  using slab_acquire_release [OF slab_inv_New, of 0 100] by (auto simp: fresh_arena_def)

text \<open>Run in parallel, the lock-free operations can hand out one block twice. A thread that has read
  the head of the free list and its successor is overtaken by threads that take both blocks and put the
  first one back; its compare-and-swap still succeeds and puts the second block, which is in use, back
  on the list.\<close>

theorem slab_aba_double_allocation:
  "(case run_schedule 0 ([0, 0, 0] @ [1, 1, 1] @ [2, 2, 2] @ [3, 3, 3] @ [0] @ [4, 4, 4])
      (newSizeClass 32768, [AcqStart, AcqStart, AcqStart, RelStart 0, AcqStart]) of
    (sc, ts) \<Rightarrow> ts ! 1 = Acquired 0 \<and> ts ! 3 = Released \<and> ts ! 2 = Acquired 1 \<and> ts ! 4 = Acquired 1)"
  by (simp add: newSizeClass_def grow_def arenaSize_eq noBlock_def Let_def)

end
