(* ===== verification/Frame.thy ===== *)
theory Frame
  imports Extensions
begin

text \<open>
  The wire frame (\<^verbatim>\<open>internal/protocol/frame.go\<close>): a ten-byte header
  \<open>[magic:1][cmd:1][stream id:4][data length:4]\<close>, an optional extension block and the payload. The
  theory translates the parser, the serialisers with their recycled buffers and the batch reader;
  it proves that parsing is memory safe, canonical and inverse to serialisation, and that a batch of
  serialised frames is read back frame by frame.
\<close>

section \<open>Constants and the frame record\<close>

definition MagicByte :: byte where [simp, wire_consts]: "MagicByte = 0x1F"
definition HeaderSize :: nat where [simp, wire_consts]: "HeaderSize = 10"
definition MeshForwardedBit :: byte where [wire_consts]: "MeshForwardedBit = 0x80"
definition HasExtensionsBit :: byte where [wire_consts]: "HasExtensionsBit = 0x40"
definition CmdPublish :: byte where [wire_consts]: "CmdPublish = 1"
definition CmdSubscribe :: byte where [wire_consts]: "CmdSubscribe = 2"
definition CmdUnsubscribe :: byte where [wire_consts]: "CmdUnsubscribe = 3"
definition CmdAck :: byte where [wire_consts]: "CmdAck = 4"
definition CmdPublishBatch :: byte where [wire_consts]: "CmdPublishBatch = 5"
definition CmdNack :: byte where [wire_consts]: "CmdNack = 6"

record Frame =
  f_Command :: byte
  f_StreamID :: u32
  f_PayloadLen :: u32
  f_Payload :: bytes
  f_Extensions :: bytes

definition DataLen :: "Frame \<Rightarrow> u32" where
  "DataLen f = (if length (f_Extensions f) > 0
     then of_nat (length (f_Extensions f)) + f_PayloadLen f else f_PayloadLen f)"

definition Size :: "Frame \<Rightarrow> nat" where
  "Size f = HeaderSize + unat (DataLen f)"

definition HasExtensions :: "Frame \<Rightarrow> bool" where
  "HasExtensions f \<longleftrightarrow> length (f_Extensions f) > 0"

definition IsForwarded :: "byte \<Rightarrow> bool" where
  "IsForwarded cmd \<longleftrightarrow> cmd AND MeshForwardedBit \<noteq> 0"

definition SetForwarded :: "byte \<Rightarrow> byte" where
  "SetForwarded cmd = cmd OR MeshForwardedBit"

definition OpcodeOf :: "byte \<Rightarrow> byte" where
  "OpcodeOf cmd = cmd AND NOT MeshForwardedBit AND NOT HasExtensionsBit"

section \<open>Parsing one frame\<close>

datatype parse_error =
    FrameTooShort
  | InvalidMagic
  | UnknownCommand
  | FrameTruncated
  | ExtHeaderTooShort
  | ExtBlockTooLarge
  | ExtExceedsData

definition finish_frame :: "bytes \<Rightarrow> byte \<Rightarrow> u32 \<Rightarrow> bytes \<Rightarrow> nat \<Rightarrow> u32 \<Rightarrow> (parse_error, Frame) res" where
  "finish_frame buf rawCmd streamID extBlock payloadStart payloadLen =
     (if payloadLen = 0 then
        Ok \<lparr>f_Command = rawCmd, f_StreamID = streamID, f_PayloadLen = 0, f_Payload = [],
            f_Extensions = extBlock\<rparr>
      else rbind (unsafe_slice buf payloadStart (unat payloadLen)) (\<lambda>payload.
        Ok \<lparr>f_Command = rawCmd, f_StreamID = streamID, f_PayloadLen = payloadLen,
            f_Payload = payload, f_Extensions = extBlock\<rparr>))"

definition ParseFrame :: "bytes \<Rightarrow> (parse_error, Frame) res" where
  "ParseFrame buf =
     (if length buf < HeaderSize then Err FrameTooShort
      else rbind (go_index buf 0) (\<lambda>magic.
        if magic \<noteq> MagicByte then Err InvalidMagic
        else rbind (go_index buf 1) (\<lambda>rawCmd.
          let cmd = rawCmd AND NOT MeshForwardedBit AND NOT HasExtensionsBit in
          if cmd < CmdPublish \<or> cmd > CmdNack then Err UnknownCommand
          else rbind (go_slice buf 2 6) (\<lambda>sb. rbind (go_slice buf 6 10) (\<lambda>db.
            let streamID = get_u32 sb; dataLen = get_u32 db;
                totalLen = HeaderSize + unat dataLen in
            if length buf < totalLen then Err FrameTruncated
            else if rawCmd AND HasExtensionsBit \<noteq> 0 then
              if unat dataLen < ExtHeaderLen then Err ExtHeaderTooShort
              else rbind (ExtTotalLen buf HeaderSize) (\<lambda>extTotal.
                if extTotal > MaxExtTotalLen then Err ExtBlockTooLarge
                else let extBlockEnd = HeaderSize + ExtBlockSize extTotal in
                  if extBlockEnd > HeaderSize + unat dataLen then Err ExtExceedsData
                  else rbind (unsafe_slice buf HeaderSize (ExtBlockSize extTotal)) (\<lambda>extBlock.
                    finish_frame buf rawCmd streamID extBlock extBlockEnd
                      (dataLen - of_nat (ExtBlockSize extTotal))))
            else finish_frame buf rawCmd streamID [] HeaderSize dataLen)))))"

definition PayloadLen :: "bytes \<Rightarrow> u32" where
  "PayloadLen buf = (if length buf < HeaderSize then 0 else get_u32 (slice buf 6 10))"

definition FrameSize :: "u32 \<Rightarrow> nat" where
  "FrameSize payloadLen = HeaderSize + unat payloadLen"

section \<open>Serialising into recycled buffers\<close>

text \<open>
  \<open>fill_frame b cmd streamID dataLen ext payload\<close> is the common tail of the serialisers: the header,
  the extension block and the payload written into the acquired buffer \<open>b\<close>. A \<^verbatim>\<open>copy\<close> moves as many
  bytes as fit.
\<close>

definition copy_into :: "bytes \<Rightarrow> nat \<Rightarrow> bytes \<Rightarrow> bytes" where
  "copy_into b i xs = write_at b i (take (length b - i) xs)"

definition fill_frame :: "bytes \<Rightarrow> byte \<Rightarrow> u32 \<Rightarrow> u32 \<Rightarrow> bytes \<Rightarrow> bytes \<Rightarrow> bytes" where
  "fill_frame b cmd streamID dataLen ext payload =
     (let b = b[0 := MagicByte];
          b = b[1 := cmd];
          b = write_at b 2 (put_u32 streamID);
          b = write_at b 6 (put_u32 dataLen);
          b = (if length ext > 0 then copy_into b HeaderSize ext else b)
      in if (of_nat (length payload) :: u32) > 0
         then copy_into b (HeaderSize + length ext) payload else b)"

definition serializeFramePool :: "bytes option \<Rightarrow> byte \<Rightarrow> u32 \<Rightarrow> bytes \<Rightarrow> bytes" where
  "serializeFramePool raw cmd streamID payload =
     (let payloadLen = (of_nat (length payload) :: u32);
          totalSize = HeaderSize + unat payloadLen;
          b = (case raw of
                 None \<Rightarrow> replicate totalSize 0
               | Some b \<Rightarrow> if length b < totalSize then replicate totalSize 0 else take totalSize b)
      in fill_frame b cmd streamID payloadLen [] payload)"

definition serializeFrameSlab ::
    "(nat \<Rightarrow> bytes option) \<Rightarrow> bytes option \<Rightarrow> byte \<Rightarrow> u32 \<Rightarrow> bytes \<Rightarrow> bytes" where
  "serializeFrameSlab acq raw cmd streamID payload =
     (let payloadLen = (of_nat (length payload) :: u32);
          totalSize = HeaderSize + unat payloadLen
      in case acq totalSize of
           None \<Rightarrow> serializeFramePool raw cmd streamID payload
         | Some b \<Rightarrow> fill_frame (take totalSize b) cmd streamID payloadLen [] payload)"

definition SerializeFrame ::
    "(nat \<Rightarrow> bytes option) \<Rightarrow> bytes option \<Rightarrow> byte \<Rightarrow> u32 \<Rightarrow> bytes \<Rightarrow> bytes" where
  "SerializeFrame acq raw cmd streamID payload = serializeFrameSlab acq raw cmd streamID payload"

definition serializeFrameWithExtensionsSlab ::
    "(nat \<Rightarrow> bytes option) \<Rightarrow> byte \<Rightarrow> u32 \<Rightarrow> bytes \<Rightarrow> bytes \<Rightarrow> bytes" where
  "serializeFrameWithExtensionsSlab acq cmd streamID extensions payload =
     (let payloadLen = (of_nat (length payload) :: u32);
          extLen = length extensions;
          totalSize = HeaderSize + extLen + unat payloadLen;
          b = slab_or_make acq totalSize;
          dataLen = of_nat extLen + payloadLen
      in fill_frame b (cmd OR HasExtensionsBit) streamID dataLen extensions payload)"

definition SerializeFrameWithExtensions ::
    "(nat \<Rightarrow> bytes option) \<Rightarrow> byte \<Rightarrow> u32 \<Rightarrow> bytes \<Rightarrow> bytes \<Rightarrow> bytes" where
  "SerializeFrameWithExtensions acq cmd streamID extensions payload =
     serializeFrameWithExtensionsSlab acq cmd streamID extensions payload"

section \<open>Where a released buffer goes\<close>

definition slabClasses :: "nat list" where
  "slabClasses = [128, 256, 512, 2048, 8192, 32768]"

datatype release_to = NoRelease | ToSlab | ToPool

text \<open>The argument is the capacity of the buffer, \<open>None\<close> for a nil pointer.\<close>

definition ReleaseBuffer :: "nat option \<Rightarrow> release_to" where
  "ReleaseBuffer bp =
     (case bp of None \<Rightarrow> NoRelease | Some c \<Rightarrow> if c \<in> set slabClasses then ToSlab else ToPool)"

definition ReleaseExtensions :: "nat \<Rightarrow> nat \<Rightarrow> release_to" where
  "ReleaseExtensions len c =
     (if len = 0 then NoRelease else if c \<in> set slabClasses then ToSlab else NoRelease)"

section \<open>Reading a batch\<close>

datatype batch_error =
    BatchHeaderTruncated
  | BatchInvalidMagic
  | BatchUnknownCommand
  | BatchTruncated

definition ParseBatchFrame :: "bytes \<Rightarrow> nat \<Rightarrow> (batch_error, bytes \<times> nat) res" where
  "ParseBatchFrame buf offset =
     rbind (go_slice buf offset (length buf)) (\<lambda>remaining.
       if length remaining < HeaderSize then Err BatchHeaderTruncated
       else rbind (go_index remaining 0) (\<lambda>magic.
         if magic \<noteq> MagicByte then Err BatchInvalidMagic
         else rbind (go_index remaining 1) (\<lambda>cmd.
           let opcode = OpcodeOf cmd in
           if opcode < CmdPublish \<or> opcode > CmdNack then Err BatchUnknownCommand
           else rbind (go_slice remaining 6 10) (\<lambda>db.
             let totalLen = HeaderSize + unat (get_u32 db) in
             if length remaining < totalLen then Err BatchTruncated
             else rbind (go_slice buf offset (offset + totalLen)) (\<lambda>frame.
               Ok (frame, offset + totalLen))))))"

text \<open>
  \<open>ParseBatch\<close> runs a callback on each frame. The callback is a state transformer that may fail with
  an error of its own; the state it has reached is returned in every case.
\<close>

datatype 'e batch_stop = BatchMalformed batch_error | CallbackError 'e | BatchPanic

lemma ParseBatchFrame_advances:
  "ParseBatchFrame buf offset = Ok (frame, n) \<Longrightarrow> offset + 10 \<le> n \<and> n \<le> length buf"
  by (auto simp: ParseBatchFrame_def go_slice_def rbind_eq_Ok Let_def split: if_splits)

function ParseBatch_loop ::
    "bytes \<Rightarrow> ('s \<Rightarrow> bytes \<Rightarrow> 's \<times> 'e option) \<Rightarrow> 's \<Rightarrow> nat \<Rightarrow> 's \<times> 'e batch_stop option" where
  "ParseBatch_loop batchBuf fn s offset =
     (if \<not> offset < length batchBuf then (s, None)
      else case ParseBatchFrame batchBuf offset of
        Err e \<Rightarrow> (s, Some (BatchMalformed e))
      | Panic \<Rightarrow> (s, Some BatchPanic)
      | Ok (frame, nextOffset) \<Rightarrow>
          (case fn s frame of
             (s', Some e) \<Rightarrow> (s', Some (CallbackError e))
           | (s', None) \<Rightarrow> ParseBatch_loop batchBuf fn s' nextOffset))"
  by pat_completeness auto
termination
  by (relation "measure (\<lambda>(b, fn, s, off). length b - off)") (auto dest: ParseBatchFrame_advances)

declare ParseBatch_loop.simps [simp del]

definition ParseBatch ::
    "bytes \<Rightarrow> ('s \<Rightarrow> bytes \<Rightarrow> 's \<times> 'e option) \<Rightarrow> 's \<Rightarrow> 's \<times> 'e batch_stop option" where
  "ParseBatch batchBuf fn s = ParseBatch_loop batchBuf fn s 0"


section \<open>Layout of a frame\<close>

definition valid_opcode :: "byte \<Rightarrow> bool" where
  "valid_opcode cmd \<longleftrightarrow> CmdPublish \<le> OpcodeOf cmd \<and> OpcodeOf cmd \<le> CmdNack"

definition header_bytes :: "byte \<Rightarrow> u32 \<Rightarrow> u32 \<Rightarrow> bytes" where
  "header_bytes cmd streamID dataLen = [MagicByte, cmd] @ put_u32 streamID @ put_u32 dataLen"

text \<open>The wire image of a frame, and the frames that have one.\<close>

definition enc_frame :: "Frame \<Rightarrow> bytes" where
  "enc_frame f = header_bytes (f_Command f) (f_StreamID f) (DataLen f) @ f_Extensions f @ f_Payload f"

definition wf_frame :: "Frame \<Rightarrow> bool" where
  "wf_frame f \<longleftrightarrow>
     valid_opcode (f_Command f) \<and>
     unat (f_PayloadLen f) = length (f_Payload f) \<and>
     length (f_Extensions f) + length (f_Payload f) < 2 ^ 32 \<and>
     (if f_Command f AND HasExtensionsBit \<noteq> 0
      then length (f_Extensions f) \<ge> 2 \<and>
           length (f_Extensions f) = 2 + unat (get_u16 (f_Extensions f)) \<and>
           length (f_Extensions f) \<le> 2 + MaxExtTotalLen
      else f_Extensions f = [])"

lemma length_header_bytes [simp]: "length (header_bytes c s n) = 10"
  by (simp add: header_bytes_def)

lemma take_2_get_u16 [simp]: "get_u16 (take 2 d) = get_u16 d"
  by (simp add: get_u16_def)

lemma buffer_header_split:
  assumes "10 \<le> length buf"
  obtains m c sid n d where "buf = m # c # put_u32 sid @ put_u32 n @ d"
proof -
  obtain m c b where b: "buf = m # c # b" "length b \<ge> 8"
    using assms by (cases buf; cases "tl buf") auto
  have "b = take 4 b @ take 4 (drop 4 b) @ drop 8 b"
    by (metis append_take_drop_id drop_drop numeral_Bit0 add.commute)
  moreover have "put_u32 (get_u32 (take 4 b)) = take 4 b"
    "put_u32 (get_u32 (take 4 (drop 4 b))) = take 4 (drop 4 b)"
    using b(2) by (simp_all add: put_get_u32)
  ultimately show thesis
    using that [of m c "get_u32 (take 4 b)" "get_u32 (take 4 (drop 4 b))" "drop 8 b"] b(1)
    by simp
qed

lemma header_reads [simp]:
  "go_index (m # c # put_u32 sid @ put_u32 n @ d) 0 = Ok m"
  "go_index (m # c # put_u32 sid @ put_u32 n @ d) (Suc 0) = Ok c"
  "go_slice (m # c # put_u32 sid @ put_u32 n @ d) 2 6 = Ok (put_u32 sid)"
  "go_slice (m # c # put_u32 sid @ put_u32 n @ d) 6 10 = Ok (put_u32 n)"
  by (simp_all add: go_index_def go_slice_def slice_def numeral_eq_Suc)

lemma header_slice:
  "slice (m # c # put_u32 sid @ put_u32 n @ d) (10 + i) (10 + i + k) = slice d i (i + k)"
  using slice_append_right [of "m # c # put_u32 sid @ put_u32 n" "10 + i" d "10 + i + k"] by simp

lemma header_unsafe_slice:
  "unsafe_slice (m # c # put_u32 sid @ put_u32 n @ d) (10 + i) k =
     (if i < length d \<and> i + k \<le> length d then Ok (slice d i (i + k)) else Panic)"
  by (auto simp: unsafe_slice_def header_slice)

lemma header_unsafe_take:
  "0 < k \<Longrightarrow> k \<le> length d \<Longrightarrow>
     unsafe_slice (m # c # put_u32 sid @ put_u32 n @ d) 10 k = Ok (take k d)"
  using header_slice [of m c sid n d 0 k] by (auto simp: unsafe_slice_def slice_zero)

lemma header_ExtTotalLen:
  "2 \<le> length d \<Longrightarrow>
     ExtTotalLen (m # c # put_u32 sid @ put_u32 n @ d) 10 = Ok (unat (get_u16 d))"
  using header_slice [of m c sid n d 0 2] by (simp add: ExtTotalLen_def go_slice_def)

lemma finish_frame_eq:
  assumes "i + unat pl \<le> length d"
  shows "finish_frame (m # c # put_u32 sid @ put_u32 n @ d) rc s ext (10 + i) pl =
     Ok \<lparr>f_Command = rc, f_StreamID = s, f_PayloadLen = pl, f_Payload = slice d i (i + unat pl),
         f_Extensions = ext\<rparr>"
proof (cases "pl = 0")
  case False
  then have "unat pl > 0" by (simp add: unat_gt_0)
  then show ?thesis
    using assms False by (simp add: finish_frame_def header_unsafe_slice)
qed (simp add: finish_frame_def)

lemma unat_minus_of_nat: "k \<le> unat n \<Longrightarrow> unat (n - of_nat k :: u32) = unat n - k"
proof -
  assume k: "k \<le> unat n"
  then have "unat (of_nat k :: u32) = k"
    using unat_u32_less [of n] by (intro unat_of_nat_u32) simp
  then show ?thesis
    using k by (simp add: unat_sub word_le_nat_alt)
qed

text \<open>The parser on a buffer that holds a header, branch by branch.\<close>

definition parse_body :: "byte \<Rightarrow> u32 \<Rightarrow> u32 \<Rightarrow> bytes \<Rightarrow> (parse_error, Frame) res" where
  "parse_body c sid n d =
     (if c AND HasExtensionsBit \<noteq> 0 then
        if unat n < 2 then Err ExtHeaderTooShort
        else let e = unat (get_u16 d) in
          if e > MaxExtTotalLen then Err ExtBlockTooLarge
          else if 2 + e > unat n then Err ExtExceedsData
          else Ok \<lparr>f_Command = c, f_StreamID = sid, f_PayloadLen = n - of_nat (2 + e),
                   f_Payload = slice d (2 + e) (unat n), f_Extensions = take (2 + e) d\<rparr>
      else Ok \<lparr>f_Command = c, f_StreamID = sid, f_PayloadLen = n, f_Payload = take (unat n) d,
               f_Extensions = []\<rparr>)"

lemma ParseFrame_header:
  "ParseFrame (m # c # put_u32 sid @ put_u32 n @ d) =
     (if m \<noteq> MagicByte then Err InvalidMagic
      else if \<not> valid_opcode c then Err UnknownCommand
      else if length d < unat n then Err FrameTruncated
      else parse_body c sid n d)"
proof -
  define b where "b = m # c # put_u32 sid @ put_u32 n @ d"
  have len: "length b = 10 + length d" by (simp add: b_def)
  have reads: "go_index b 0 = (Ok m :: (parse_error, byte) res)"
    "go_index b (Suc 0) = (Ok c :: (parse_error, byte) res)"
    "go_slice b 2 6 = (Ok (put_u32 sid) :: (parse_error, bytes) res)"
    "go_slice b 6 10 = (Ok (put_u32 n) :: (parse_error, bytes) res)"
    by (simp_all add: b_def)
  have op: "valid_opcode c \<longleftrightarrow> \<not> (c AND NOT MeshForwardedBit AND NOT HasExtensionsBit < CmdPublish \<or>
      c AND NOT MeshForwardedBit AND NOT HasExtensionsBit > CmdNack)"
    by (auto simp: valid_opcode_def OpcodeOf_def)
  have plain: "finish_frame b c sid [] 10 n =
      Ok \<lparr>f_Command = c, f_StreamID = sid, f_PayloadLen = n, f_Payload = take (unat n) d,
          f_Extensions = []\<rparr>" if "unat n \<le> length d"
    using finish_frame_eq [of 0 n d m c sid n] that by (simp add: b_def)
  have ext: "rbind (unsafe_slice b 10 (2 + e)) (\<lambda>x. finish_frame b c sid x (12 + e) (n - of_nat (2 + e))) =
      Ok \<lparr>f_Command = c, f_StreamID = sid, f_PayloadLen = n - of_nat (2 + e),
          f_Payload = slice d (2 + e) (unat n), f_Extensions = take (2 + e) d\<rparr>"
    if "unat n \<le> length d" "2 + e \<le> unat n" for e
  proof -
    have "unsafe_slice b 10 (2 + e) = (Ok (take (2 + e) d) :: (parse_error, bytes) res)"
      unfolding b_def by (rule header_unsafe_take) (use that in simp_all)
    then show ?thesis
      using finish_frame_eq [of "2 + e" "n - of_nat (2 + e)" d m c sid n] that
      by (simp add: b_def unat_minus_of_nat del: of_nat_add)
  qed
  have tot: "ExtTotalLen b 10 = (Ok (unat (get_u16 d)) :: (parse_error, nat) res)" if "2 \<le> length d"
    unfolding b_def by (rule header_ExtTotalLen [OF that])
  have "ParseFrame b =
     (if m \<noteq> MagicByte then Err InvalidMagic
      else if \<not> valid_opcode c then Err UnknownCommand
      else if length d < unat n then Err FrameTruncated
      else parse_body c sid n d)"
    by (simp add: ParseFrame_def parse_body_def op Let_def len reads tot plain ext ExtBlockSize_def
        del: of_nat_add)
  then show ?thesis by (simp only: b_def)
qed

section \<open>The parser accepts exactly the wire images of frames\<close>

lemma unat_DataLen:
  assumes "wf_frame f"
  shows "unat (DataLen f) = length (f_Extensions f) + length (f_Payload f)"
proof -
  have small: "length (f_Extensions f) + unat (f_PayloadLen f) < 2 ^ 32"
    using assms by (simp add: wf_frame_def)
  then have "unat (of_nat (length (f_Extensions f)) + f_PayloadLen f)
      = length (f_Extensions f) + unat (f_PayloadLen f)"
    by (simp add: unat_add_lem [THEN iffD1] unat_of_nat_u32)
  then show ?thesis
    using assms by (auto simp: DataLen_def wf_frame_def)
qed

lemma enc_frame_append:
  "enc_frame f @ r = MagicByte # f_Command f # put_u32 (f_StreamID f) @ put_u32 (DataLen f) @
     (f_Extensions f @ f_Payload f @ r)"
  by (simp add: enc_frame_def header_bytes_def)

lemma get_u16_append: "2 \<le> length xs \<Longrightarrow> get_u16 (xs @ ys) = get_u16 xs"
  by (metis take_2_get_u16 take_append take_all diff_is_0_eq take_0 append_Nil2)

lemma ParseFrame_enc_frame:
  assumes wf: "wf_frame f"
  shows "ParseFrame (enc_frame f @ r) = Ok f"
proof -
  have n: "unat (DataLen f) = length (f_Extensions f) + length (f_Payload f)"
    by (rule unat_DataLen [OF wf])
  have op: "valid_opcode (f_Command f)" and pl: "unat (f_PayloadLen f) = length (f_Payload f)"
    using wf by (auto simp: wf_frame_def)
  have "parse_body (f_Command f) (f_StreamID f) (DataLen f) (f_Extensions f @ f_Payload f @ r) = Ok f"
  proof (cases "f_Command f AND HasExtensionsBit = 0")
    case True
    then have "f_Extensions f = []" using wf by (simp add: wf_frame_def)
    then show ?thesis
      using True n pl by (simp add: parse_body_def DataLen_def)
  next
    case False
    then have e: "length (f_Extensions f) = 2 + unat (get_u16 (f_Extensions f))"
      "unat (get_u16 (f_Extensions f)) \<le> 1024" "2 \<le> length (f_Extensions f)"
      using wf by (auto simp: wf_frame_def)
    have "unat (DataLen f - of_nat (length (f_Extensions f))) = unat (f_PayloadLen f)"
      using n pl by (simp add: unat_minus_of_nat)
    then have d: "DataLen f - of_nat (length (f_Extensions f)) = f_PayloadLen f"
      by (simp only: word_unat_eq_iff)
    show ?thesis
      using False e(2,3) n d
      by (simp add: parse_body_def Let_def get_u16_append e(1) [symmetric] slice_append_right
          slice_append_left del: of_nat_add)
  qed
  then show ?thesis
    using op n by (simp only: enc_frame_append ParseFrame_header) simp
qed

lemma parse_body_Ok:
  assumes ok: "parse_body c sid n d = Ok f" and op: "valid_opcode c" and n: "unat n \<le> length d"
  shows "wf_frame f \<and> (\<exists>r. MagicByte # c # put_u32 sid @ put_u32 n @ d = enc_frame f @ r)"
proof -
  have "f_Command f = c \<and> f_StreamID f = sid \<and> wf_frame f \<and> DataLen f = n \<and>
      d = f_Extensions f @ f_Payload f @ drop (unat n) d"
  proof (cases "c AND HasExtensionsBit = 0")
    case True
    then show ?thesis
      using ok op n unat_u32_less [of n] by (auto simp: parse_body_def wf_frame_def DataLen_def)
  next
    case False
    define e where "e = 2 + unat (get_u16 d)"
    have e: "2 \<le> e" "e \<le> 2 + 1024" "e \<le> unat n"
      and f: "f = \<lparr>f_Command = c, f_StreamID = sid, f_PayloadLen = n - of_nat e,
          f_Payload = slice d e (unat n), f_Extensions = take e d\<rparr>"
      using ok False by (auto simp: parse_body_def Let_def e_def split: if_splits)
    have g: "get_u16 (take e d) = get_u16 d"
      using e(1) by (metis take_2_get_u16 take_take min.absorb1)
    have m: "min (length d) e = e" "min (length d) (unat n) = unat n" using e n by simp_all
    have "wf_frame f"
      using op False e n unat_u32_less [of n]
      by (simp add: f wf_frame_def unat_minus_of_nat g e_def [symmetric] m)
    moreover have "DataLen f = n"
      using e n by (simp add: f DataLen_def m)
    moreover have "d = take e d @ slice d e (unat n) @ drop (unat n) d"
      using slice_concat [of 0 e "unat n" d] e n append_take_drop_id [of "unat n" d]
      by (simp add: slice_zero flip: append_assoc)
    ultimately show ?thesis by (simp add: f)
  qed
  then show ?thesis
    by (metis enc_frame_append)
qed

lemma ParseFrame_Ok_iff:
  "ParseFrame buf = Ok f \<longleftrightarrow> wf_frame f \<and> (\<exists>r. buf = enc_frame f @ r)"
proof
  assume ok: "ParseFrame buf = Ok f"
  then have "10 \<le> length buf" by (auto simp: ParseFrame_def split: if_splits)
  then obtain m c sid n d where b: "buf = m # c # put_u32 sid @ put_u32 n @ d"
    by (rule buffer_header_split)
  then have "m = MagicByte" "valid_opcode c" "unat n \<le> length d" "parse_body c sid n d = Ok f"
    using ok by (auto simp only: b ParseFrame_header split: if_splits)
  then show "wf_frame f \<and> (\<exists>r. buf = enc_frame f @ r)"
    using parse_body_Ok b by blast
qed (auto simp: ParseFrame_enc_frame)

lemma ParseFrame_no_panic [no_panic]: "ParseFrame buf \<noteq> Panic"
proof (cases "10 \<le> length buf")
  case True
  then obtain m c sid n d where b: "buf = m # c # put_u32 sid @ put_u32 n @ d"
    by (rule buffer_header_split)
  show ?thesis by (simp only: b ParseFrame_header parse_body_def Let_def) simp
qed (simp add: ParseFrame_def)

section \<open>Serialisers write the wire image\<close>

lemma fill_frame_eq:
  assumes "length b = 10 + length ext + length payload" "length payload < 2 ^ 32"
  shows "fill_frame b cmd sid n ext payload = header_bytes cmd sid n @ ext @ payload"
proof -
  have "unat (of_nat (length payload) :: u32) = length payload"
    using assms(2) by simp
  then have z: "(of_nat (length payload) :: u32) > 0 \<longleftrightarrow> payload \<noteq> []"
    by (simp only: word_less_nat_alt unat_0 length_greater_0_conv)
  show ?thesis
    using assms(1)
    by (cases "ext = []"; cases "payload = []")
      (simp_all add: fill_frame_def Let_def z copy_into_def fill_simps header_bytes_def)
qed

context buffer_source
begin

lemma SerializeFrame_eq:
  assumes "length payload < 2 ^ 32"
  shows "SerializeFrame acq raw cmd sid payload =
     header_bytes cmd sid (of_nat (length payload)) @ payload"
  using assms acq_length
  by (auto simp: SerializeFrame_def serializeFrameSlab_def serializeFramePool_def Let_def
      fill_frame_eq unat_of_nat_u32 split: option.splits)

lemma SerializeFrameWithExtensions_eq:
  assumes "length ext + length payload < 2 ^ 32"
  shows "SerializeFrameWithExtensions acq cmd sid ext payload =
     header_bytes (cmd OR HasExtensionsBit) sid (of_nat (length ext + length payload)) @ ext @ payload"
  using assms
  by (simp add: SerializeFrameWithExtensions_def serializeFrameWithExtensionsSlab_def Let_def
      fill_frame_eq unat_of_nat_u32 length_slab_or_make)

end

text \<open>The frames that the two serialisers mean to write.\<close>

definition plain_frame :: "byte \<Rightarrow> u32 \<Rightarrow> bytes \<Rightarrow> Frame" where
  "plain_frame cmd sid payload = \<lparr>f_Command = cmd, f_StreamID = sid,
     f_PayloadLen = of_nat (length payload), f_Payload = payload, f_Extensions = []\<rparr>"

definition ext_frame :: "byte \<Rightarrow> u32 \<Rightarrow> bytes \<Rightarrow> bytes \<Rightarrow> Frame" where
  "ext_frame cmd sid ext payload = \<lparr>f_Command = cmd OR HasExtensionsBit, f_StreamID = sid,
     f_PayloadLen = of_nat (length payload), f_Payload = payload, f_Extensions = ext\<rparr>"

lemma plain_frame_image:
  assumes "valid_opcode cmd" "cmd AND HasExtensionsBit = 0" "length payload < 2 ^ 32"
  shows "wf_frame (plain_frame cmd sid payload)"
    "enc_frame (plain_frame cmd sid payload) =
       header_bytes cmd sid (of_nat (length payload)) @ payload"
  using assms by (simp_all add: plain_frame_def wf_frame_def enc_frame_def DataLen_def)

lemma OpcodeOf_OR_ext [simp]: "OpcodeOf (cmd OR HasExtensionsBit) = OpcodeOf cmd"
  by (simp add: OpcodeOf_def HasExtensionsBit_def bit_eq_iff) (auto simp: bit_simps)

lemma OpcodeOf_SetForwarded [simp]: "OpcodeOf (SetForwarded cmd) = OpcodeOf cmd"
  by (simp add: OpcodeOf_def SetForwarded_def MeshForwardedBit_def bit_eq_iff) (auto simp: bit_simps)

lemma ext_bit_nonzero [simp]: "HasExtensionsBit \<noteq> 0"
  by (simp add: HasExtensionsBit_def)

lemma OR_ext_bit [simp]: "(cmd OR HasExtensionsBit) AND HasExtensionsBit \<noteq> 0"
  by (simp add: HasExtensionsBit_def word_bw_comms flip: word_ao_dist)

lemma ext_frame_image:
  assumes "valid_opcode cmd" "length ext = 2 + unat (get_u16 ext)" "length ext \<le> 1026"
    "length ext + length payload < 2 ^ 32"
  shows "wf_frame (ext_frame cmd sid ext payload)"
    "enc_frame (ext_frame cmd sid ext payload) =
       header_bytes (cmd OR HasExtensionsBit) sid (of_nat (length ext + length payload)) @ ext @ payload"
proof -
  have "ext \<noteq> []" "2 \<le> length ext" using assms(2) by auto
  then show "wf_frame (ext_frame cmd sid ext payload)"
    "enc_frame (ext_frame cmd sid ext payload) =
       header_bytes (cmd OR HasExtensionsBit) sid (of_nat (length ext + length payload)) @ ext @ payload"
    using assms by (simp_all add: ext_frame_def wf_frame_def enc_frame_def DataLen_def valid_opcode_def)
qed

section \<open>A batch is a sequence of wire images\<close>

lemma ParseBatchFrame_append:
  "ParseBatchFrame (p @ b) (length p + k) =
     rbind (ParseBatchFrame b k) (\<lambda>(f, n). Ok (f, length p + n))"
proof -
  have s: "slice (p @ b) (length p + i) (length p + j) = slice b i j" for i j
    by (cases "i \<le> j") (simp_all add: slice_append_right slice_def)
  show ?thesis
    by (simp add: ParseBatchFrame_def go_slice_def s Let_def rbind_assoc rbind_if add.assoc
        cong: rbind_cong if_cong)
qed

lemma ParseBatch_loop_append:
  "ParseBatch_loop (p @ b) fn s (length p + k) = ParseBatch_loop b fn s k"
proof (induction b fn s k rule: ParseBatch_loop.induct)
  case (1 b fn s k)
  show ?case
    by (subst (1 2) ParseBatch_loop.simps)
      (auto simp: ParseBatchFrame_append 1 split: res.splits option.splits prod.splits)
qed

lemma enc_frame_reads:
  "go_index (enc_frame f @ r) 0 = Ok MagicByte"
  "go_index (enc_frame f @ r) (Suc 0) = Ok (f_Command f)"
  "go_slice (enc_frame f @ r) 6 10 = Ok (put_u32 (DataLen f))"
  by (simp_all only: enc_frame_append header_reads)

lemma length_enc_frame: "wf_frame f \<Longrightarrow> length (enc_frame f) = 10 + unat (DataLen f)"
  by (simp add: enc_frame_def unat_DataLen)

lemma ParseBatchFrame_enc:
  assumes "wf_frame f"
  shows "ParseBatchFrame (enc_frame f @ r) 0 = Ok (enc_frame f, length (enc_frame f))"
proof -
  have whole: "go_slice (enc_frame f @ r) 0 (length (enc_frame f @ r)) =
      (Ok (enc_frame f @ r) :: (batch_error, bytes) res)"
    "go_slice (enc_frame f @ r) 0 (10 + unat (DataLen f)) = (Ok (enc_frame f) :: (batch_error, bytes) res)"
    using length_enc_frame [OF assms] by (simp_all add: go_slice_def slice_zero)
  have "\<not> OpcodeOf (f_Command f) < CmdPublish" "\<not> CmdNack < OpcodeOf (f_Command f)"
    "\<not> length (enc_frame f @ r) < 10 + unat (DataLen f)" "\<not> length (enc_frame f @ r) < 10"
    using assms length_enc_frame [OF assms]
    by (auto simp: wf_frame_def valid_opcode_def linorder_not_less)
  then show ?thesis
    using length_enc_frame [OF assms]
    by (simp add: ParseBatchFrame_def whole enc_frame_reads Let_def del: length_append)
qed

interpretation batch: record_loop enc_frame wf_frame "\<lambda>s f. fn s (enc_frame f)"
    "\<lambda>s e. (s, Some (CallbackError e))" "\<lambda>s b. ParseBatch b fn s" for fn
proof
  fix f s r assume "wf_frame f"
  moreover have "enc_frame f @ r \<noteq> []" by (simp add: enc_frame_append)
  moreover have "ParseBatch_loop (enc_frame f @ r) fn s' (length (enc_frame f)) = ParseBatch_loop r fn s' 0"
    for s'
    using ParseBatch_loop_append [of "enc_frame f" r fn s' 0] by simp
  ultimately show "ParseBatch (enc_frame f @ r) fn s =
      (case fn s (enc_frame f) of (s', Some e) \<Rightarrow> (s', Some (CallbackError e))
       | (s', None) \<Rightarrow> ParseBatch r fn s')"
    unfolding ParseBatch_def
    by (subst ParseBatch_loop.simps)
      (auto simp: ParseBatchFrame_enc split: prod.splits option.splits)
qed

lemma ParseBatch_Nil [simp]: "ParseBatch [] fn s = (s, None)"
  by (simp add: ParseBatch_def ParseBatch_loop.simps)

lemma ParseBatchFrame_no_panic [no_panic]: "offset \<le> length buf \<Longrightarrow> ParseBatchFrame buf offset \<noteq> Panic"
  by (auto simp: ParseBatchFrame_def go_slice_def go_index_def Let_def rbind_eq_Panic split: if_splits)

lemma ParseBatch_loop_no_panic:
  "offset \<le> length buf \<Longrightarrow> snd (ParseBatch_loop buf fn s offset) \<noteq> Some BatchPanic"
proof (induction buf fn s offset rule: ParseBatch_loop.induct)
  case (1 buf fn s offset)
  have step: "snd (ParseBatch_loop buf fn s' n) \<noteq> Some BatchPanic"
    if "fn s fr = (s', None)" "ParseBatchFrame buf offset = Ok (fr, n)" "offset < length buf" for fr s' n
    by (rule "1.IH") (use that in \<open>auto dest: ParseBatchFrame_advances\<close>)
  show ?case
    using ParseBatchFrame_no_panic [OF "1.prems"]
    by (subst ParseBatch_loop.simps) (auto split: res.splits prod.splits option.splits dest: step)
qed

section \<open>Properties\<close>

text \<open>C9: The parser accepts a buffer exactly when the buffer starts with the wire image of a
  well-formed frame, and then it returns that frame: the opcode is in range, the lengths agree, and the
  extension block is present exactly when the control bit says so and has the length it announces.\<close>

theorem frame_parse_characterised:
  "ParseFrame buf = Ok f \<longleftrightarrow> wf_frame f \<and> (\<exists>rest. buf = enc_frame f @ rest)"
  by (rule ParseFrame_Ok_iff)

text \<open>No input makes the frame parser or the batch reader read outside the buffer: neither indexes,
  slices or builds an unsafe slice beyond the bytes it was given.\<close>

theorem frame_and_batch_memory_safe:
  "ParseFrame buf \<noteq> Panic \<and> snd (ParseBatch buf fn s) \<noteq> Some BatchPanic"
  unfolding ParseBatch_def by (simp add: ParseFrame_no_panic ParseBatch_loop_no_panic)

text \<open>C13: Serialising and parsing are inverse. Whatever bytes the slab or the pool hands out, and
  whatever follows in the receive buffer, the parser returns the command, stream, extension block and
  payload that were serialised, with the extension bit set exactly on the frames that carry a block.\<close>

theorem serialize_parse_roundtrip:
  assumes "buffer_source acq" "valid_opcode cmd" "cmd AND HasExtensionsBit = 0"
    and "wf_entries es" "length (enc_entries es) \<le> MaxExtTotalLen"
    and "length (enc_block es) + length payload < 2 ^ 32"
  shows "ParseFrame (SerializeFrame acq raw cmd sid payload @ rest) = Ok (plain_frame cmd sid payload) \<and>
    ParseFrame (SerializeFrameWithExtensions acq cmd sid (enc_block es) payload @ rest)
      = Ok (ext_frame cmd sid (enc_block es) payload)"
proof -
  have l: "length (enc_block es) = 2 + unat (get_u16 (enc_block es))"
    using assms(5) by (simp add: enc_block_def get_u16_append unat_of_nat_u16)
  then have "length (enc_block es) \<le> 1026" using assms(5) by (simp add: enc_block_def)
  moreover have "length payload < 2 ^ 32" using assms(6) by simp
  ultimately show ?thesis
    using buffer_source.SerializeFrame_eq [OF assms(1)] plain_frame_image(2) [OF assms(2,3), symmetric]
      buffer_source.SerializeFrameWithExtensions_eq [OF assms(1)]
      ext_frame_image(2) [OF assms(2) l, symmetric] assms(2,3,6) l
    by (simp add: ParseFrame_enc_frame plain_frame_image(1) ext_frame_image(1))
qed

theorem serialize_parse_roundtrip_witness:
  "ParseFrame (SerializeFrame (\<lambda>n. Some (replicate n 7)) None CmdPublish 9 [1, 2] @ [0])
     = Ok (plain_frame CmdPublish 9 [1, 2]) \<and>
   ParseFrame (SerializeFrameWithExtensions (\<lambda>n. Some (replicate n 7)) CmdPublish 9
       (enc_block [(ExtPriority, [3])]) [1, 2] @ [0])
     = Ok (ext_frame CmdPublish 9 (enc_block [(ExtPriority, [3])]) [1, 2])"
  by (rule serialize_parse_roundtrip)
    (simp_all add: buffer_source_def valid_opcode_def OpcodeOf_def CmdPublish_def CmdNack_def
      HasExtensionsBit_def MeshForwardedBit_def wf_entries_def enc_block_def enc_entry_def)

text \<open>No strict prefix of a frame is taken for a frame: a header that is not complete and a body
  that is not complete are each reported as such, so a reader that waits for more bytes never
  misframes the stream.\<close>

theorem truncated_frame_rejected:
  assumes "wf_frame f" "k < length (enc_frame f)"
  shows "ParseFrame (take k (enc_frame f)) = Err (if k < HeaderSize then FrameTooShort else FrameTruncated)"
proof (cases "k < 10")
  case False
  define d where "d = take (k - 10) (f_Extensions f @ f_Payload f)"
  have t: "take k (enc_frame f) =
      MagicByte # f_Command f # put_u32 (f_StreamID f) @ put_u32 (DataLen f) @ d"
    using False by (simp add: enc_frame_def d_def take_append)
      (simp add: header_bytes_def)
  have "length d < unat (DataLen f)"
    using False assms length_enc_frame [OF assms(1)] unat_DataLen [OF assms(1)] by (simp add: d_def)
  then show ?thesis
    using False assms(1) by (simp only: t ParseFrame_header) (simp add: wf_frame_def)
qed (simp add: ParseFrame_def min_less_iff_disj)

theorem truncated_frame_rejected_witness:
  "ParseFrame (take 11 (enc_frame (plain_frame CmdPublish 9 [1, 2]))) = Err FrameTruncated"
  using truncated_frame_rejected [of "plain_frame CmdPublish 9 [1, 2]" 11]
  by (simp add: plain_frame_image valid_opcode_def OpcodeOf_def CmdPublish_def CmdNack_def
      HasExtensionsBit_def MeshForwardedBit_def)

text \<open>C12: Reading a batch undoes concatenation: on the wire images of well-formed frames, one after
  the other, the callback sees exactly those frames in that order, stops at the first error it reports,
  and otherwise continues with whatever follows.\<close>

theorem batch_roundtrip:
  assumes "list_all wf_frame fs"
  shows "ParseBatch (concat (map enc_frame fs) @ rest) fn s =
    (case iterate (\<lambda>s f. fn s (enc_frame f)) s fs of
       (s', Some e) \<Rightarrow> (s', Some (CallbackError e))
     | (s', None) \<Rightarrow> ParseBatch rest fn s')"
  by (rule batch.loop_concat [OF assms])

theorem batch_roundtrip_witness:
  "ParseBatch (concat (map enc_frame [plain_frame CmdPublish 1 [], plain_frame CmdPublish 2 []]) @ [])
     (\<lambda>(n :: nat) fr. (n + length fr, None :: unit option)) 0 = (20, None)"
  using batch_roundtrip [of "[plain_frame CmdPublish 1 [], plain_frame CmdPublish 2 []]" "[]"
      "\<lambda>(n :: nat) fr. (n + length fr, None :: unit option)" 0]
  by (simp add: plain_frame_image valid_opcode_def OpcodeOf_def CmdPublish_def CmdNack_def
      HasExtensionsBit_def MeshForwardedBit_def)

text \<open>Marking a frame as forwarded changes nothing but the mark: a well-formed frame stays
  well-formed, keeps its opcode, its extension bit and its length on the wire, is recognised as
  forwarded, and marking it twice is marking it once.\<close>

theorem forwarding_mark:
  assumes "wf_frame f"
  defines "g \<equiv> f\<lparr>f_Command := SetForwarded (f_Command f)\<rparr>"
  shows "wf_frame g \<and> OpcodeOf (f_Command g) = OpcodeOf (f_Command f) \<and>
    IsForwarded (f_Command g) \<and> Size g = Size f \<and> SetForwarded (f_Command g) = f_Command g \<and>
    ParseFrame ((enc_frame f)[1 := SetForwarded (f_Command f)] @ rest) = Ok g"
proof -
  have ext: "SetForwarded c AND HasExtensionsBit = c AND HasExtensionsBit" for c
    by (simp add: SetForwarded_def MeshForwardedBit_def HasExtensionsBit_def word_ao_dist)
  have g: "wf_frame g"
    using assms(1) by (auto simp: g_def wf_frame_def valid_opcode_def ext split: if_splits)
  have "(enc_frame f)[1 := SetForwarded (f_Command f)] = enc_frame g"
    by (simp add: enc_frame_def header_bytes_def g_def DataLen_def)
  moreover have "IsForwarded (SetForwarded c)" "SetForwarded (SetForwarded c) = SetForwarded c" for c
    by (simp_all add: IsForwarded_def SetForwarded_def MeshForwardedBit_def word_bw_comms
        or.left_commute flip: word_ao_dist)
  ultimately show ?thesis
    using g by (simp add: ParseFrame_enc_frame) (simp add: g_def Size_def DataLen_def)
qed

theorem forwarding_mark_witness:
  "ParseFrame ((enc_frame (plain_frame CmdPublish 1 [5]))[1 := 129] @ []) =
     Ok (plain_frame (SetForwarded CmdPublish) 1 [5])"
  using forwarding_mark [of "plain_frame CmdPublish 1 [5]" "[]"]
  by (simp add: plain_frame_image valid_opcode_def OpcodeOf_def CmdPublish_def CmdNack_def
      HasExtensionsBit_def MeshForwardedBit_def SetForwarded_def) (simp add: plain_frame_def)

end
