(* ===== verification/Clients.thy ===== *)
theory Clients
  imports Frame
begin

text \<open>
  The two clients that come with the broker: the example of \<^verbatim>\<open>examples/go\<close>, which has its own encoder and decoder of
  frames, and the workers of the load generator \<^verbatim>\<open>cmd/aqueduct-bench\<close>, which build batches by hand in a buffer they
  reuse. QUIC is the outcome of each write.
\<close>

section \<open>The example\<close>

definition headerSize :: nat where "headerSize = 10"
definition magicByte :: byte where "magicByte = 0x1F"

definition serializeFrame :: "byte \<Rightarrow> u32 \<Rightarrow> bytes \<Rightarrow> bytes" where
  "serializeFrame cmd streamID payload =
     (let buf = replicate (headerSize + length payload) 0;
          buf = buf[0 := magicByte];
          buf = buf[1 := cmd];
          buf = write_at buf 2 (put_u32 streamID);
          buf = write_at buf 6 (put_u32 (of_nat (length payload)))
      in write_at buf headerSize payload)"

datatype client_error = tooShort | invalidMagicByte | payloadTruncated

text \<open>The end of the payload is computed with 32 bits.\<close>

definition parseFrame :: "bytes \<Rightarrow> (client_error, byte \<times> u32 \<times> bytes) res" where
  "parseFrame data =
     (if length data < headerSize then Err tooShort
      else if data ! 0 \<noteq> magicByte then Err invalidMagicByte
      else let cmd = data ! 1;
               streamID = get_u32 (slice data 2 6);
               payloadLen = get_u32 (slice data 6 10)
           in if (of_nat (length data) :: u32) < of_nat headerSize + payloadLen then Err payloadTruncated
              else rbind (go_slice data headerSize (unat (of_nat headerSize + payloadLen :: u32)))
                     (\<lambda>payload. Ok (cmd, streamID, payload)))"

section \<open>The load generator\<close>

record worker =
  w_completed :: nat
  w_failed :: nat
  w_written :: "bytes list"

definition idle_worker :: worker where "idle_worker = \<lparr>w_completed = 0, w_failed = 0, w_written = []\<rparr>"

text \<open>A write of \<open>n\<close> messages; \<open>ok k\<close> says whether write number \<open>k\<close> succeeds.\<close>

definition send :: "(nat \<Rightarrow> bool) \<Rightarrow> bytes \<Rightarrow> nat \<Rightarrow> worker \<Rightarrow> worker" where
  "send ok buf n w =
     (let good = ok (length (w_written w)); w = w\<lparr>w_written := w_written w @ [buf]\<rparr> in
      if good then w\<lparr>w_completed := w_completed w + n\<rparr> else w\<lparr>w_failed := w_failed w + n\<rparr>)"

definition bench_payload :: "nat \<Rightarrow> bytes" where
  "bench_payload payloadSize = map (\<lambda>i. of_nat (i mod 256)) [0..<payloadSize]"

definition worker_requests :: "nat \<Rightarrow> nat \<Rightarrow> nat list" where
  "worker_requests totalReqs concurrency =
     map (\<lambda>w. totalReqs div concurrency + (if w = 0 then totalReqs mod concurrency else 0)) [0..<concurrency]"

fun single_loop :: "(nat \<Rightarrow> bytes option) \<Rightarrow> bytes option \<Rightarrow> (nat \<Rightarrow> bool) \<Rightarrow> bytes \<Rightarrow> nat \<Rightarrow> nat \<Rightarrow> worker \<Rightarrow> worker" where
  "single_loop acq raw ok payload i 0 w = w"
| "single_loop acq raw ok payload i (Suc n) w =
     single_loop acq raw ok payload (Suc i) n (send ok (SerializeFrame acq raw CmdPublish (of_nat (i + 1)) payload) 1 w)"

text \<open>The buffer of a batch is its backing array and its length.\<close>

record batch =
  ba_array :: bytes
  ba_len :: nat
  ba_msgCount :: nat

definition put_message :: "bytes \<Rightarrow> nat \<Rightarrow> batch \<Rightarrow> batch" where
  "put_message payload i b =
     (let offset = ba_len b;
          a = (ba_array b)[offset := MagicByte];
          a = a[offset + 1 := CmdPublish];
          a = write_at a (offset + 2) (put_u32 (of_nat (i + 1)));
          a = write_at a (offset + 6) (put_u32 (of_nat (length payload)));
          a = write_at a (offset + 10) payload
      in \<lparr>ba_array = a, ba_len = offset + HeaderSize + length payload, ba_msgCount = ba_msgCount b + 1\<rparr>)"

definition flush_batch :: "(nat \<Rightarrow> bytes option) \<Rightarrow> bytes option \<Rightarrow> (nat \<Rightarrow> bool) \<Rightarrow> batch \<times> worker \<Rightarrow> batch \<times> worker" where
  "flush_batch acq raw ok st =
     (case st of (b, w) \<Rightarrow>
        (b\<lparr>ba_len := 0, ba_msgCount := 0\<rparr>,
         send ok (SerializeFrame acq raw CmdPublishBatch 0 (take (ba_len b) (ba_array b))) (ba_msgCount b) w))"

fun batch_loop :: "(nat \<Rightarrow> bytes option) \<Rightarrow> bytes option \<Rightarrow> (nat \<Rightarrow> bool) \<Rightarrow> bytes \<Rightarrow> nat \<Rightarrow> nat \<Rightarrow> nat \<Rightarrow>
    batch \<times> worker \<Rightarrow> batch \<times> worker" where
  "batch_loop acq raw ok payload batchSize i 0 st = st"
| "batch_loop acq raw ok payload batchSize i (Suc n) st =
     (case st of (b, w) \<Rightarrow>
        let b = put_message payload i b;
            st = (if ba_msgCount b = batchSize then flush_batch acq raw ok (b, w) else (b, w))
        in batch_loop acq raw ok payload batchSize (Suc i) n st)"

text \<open>A worker that has connected; its buffer starts with zeros.\<close>

definition run_worker :: "(nat \<Rightarrow> bytes option) \<Rightarrow> bytes option \<Rightarrow> (nat \<Rightarrow> bool) \<Rightarrow> bytes \<Rightarrow> nat \<Rightarrow> nat \<Rightarrow> worker" where
  "run_worker acq raw ok payload batchSize numReqs =
     (if batchSize \<le> 1 then single_loop acq raw ok payload 0 numReqs idle_worker
      else let array = replicate (batchSize * (HeaderSize + length payload)) 0;
               (b, w) = batch_loop acq raw ok payload batchSize 0 numReqs
                          (\<lparr>ba_array = array, ba_len = 0, ba_msgCount = 0\<rparr>, idle_worker)
           in if ba_msgCount b > 0 then snd (flush_batch acq raw ok (b, w)) else w)"

section \<open>The example speaks the protocol\<close>

lemma serializeFrame_eq:
  "serializeFrame cmd sid payload = header_bytes cmd sid (of_nat (length payload)) @ payload"
  by (simp add: serializeFrame_def headerSize_def magicByte_def Let_def fill_simps header_bytes_def)

lemma parseFrame_header:
  assumes "10 + length d < 2 ^ 32"
  shows "parseFrame (header_bytes cmd sid n @ d) =
    (if 2 ^ 32 - 10 \<le> unat n then Panic else if length d < unat n then Err payloadTruncated else Ok (cmd, sid, take (unat n) d))"
proof -
  define data where "data = header_bytes cmd sid n @ d"
  have h: "length data = 10 + length d" "data ! 0 = magicByte" "data ! Suc 0 = cmd" "get_u32 (slice data 2 6) = sid"
    "get_u32 (slice data 6 10) = n" "slice data 10 (10 + k) = take k d" for k
    by (simp_all add: data_def header_bytes_def magicByte_def header_slice [unfolded header_bytes_def] slice_def)
  have len: "unat (10 + of_nat (length d) :: u32) = 10 + length d" using unat_of_nat_u32 [of "10 + length d"] assms by simp
  have n: "unat n < 2 ^ 32" using unsigned_less [of n] by simp
  have wrap: "unat (10 + n :: u32) = (if 2 ^ 32 - 10 \<le> unat n then unat n - (2 ^ 32 - 10) else 10 + unat n)"
    using n by (simp add: unat_word_ariths mod_if)
  show ?thesis
    unfolding data_def [symmetric] using n by (simp add: parseFrame_def headerSize_def h word_less_nat_alt len wrap go_slice_def Let_def) linarith
qed

text \<open>The example client speaks the protocol of the broker, for all but huge lengths. What it writes is what the broker
  parses as the frame it means, and what it reads from a complete frame without extensions is what the broker would
  read; a frame whose length field is within ten of \<open>2^32\<close> makes it panic where the broker reports a truncated frame.\<close>

theorem example_client_writes:
  assumes "valid_opcode cmd" "cmd AND HasExtensionsBit = 0" "length payload < 2 ^ 32"
  shows "ParseFrame (serializeFrame cmd sid payload) = Ok (plain_frame cmd sid payload)"
  using ParseFrame_Ok_iff [of "serializeFrame cmd sid payload" "plain_frame cmd sid payload"] plain_frame_image [OF assms]
  by (simp add: serializeFrame_eq)

theorem example_client_reads:
  assumes "ParseFrame data = Ok f" "f_Extensions f = []" "length data < 2 ^ 32"
  shows "parseFrame data = Ok (f_Command f, f_StreamID f, f_Payload f)"
proof -
  obtain r where r: "wf_frame f" "data = enc_frame f @ r" using assms(1) by (auto simp: ParseFrame_Ok_iff)
  have l: "unat (f_PayloadLen f) = length (f_Payload f)" using r(1) by (simp add: wf_frame_def)
  have "data = header_bytes (f_Command f) (f_StreamID f) (f_PayloadLen f) @ f_Payload f @ r"
    using r(2) assms(2) by (simp add: enc_frame_def DataLen_def)
  then show ?thesis using parseFrame_header [of "f_Payload f @ r"] assms(3) l by simp
qed

section \<open>The load generator sends every message\<close>

lemma worker_requests_total:
  assumes "0 < concurrency"
  shows "sum_list (worker_requests totalReqs concurrency) = totalReqs"
proof -
  obtain n where n: "concurrency = Suc n" using assms by (cases concurrency) simp_all
  have "sum_list (map (\<lambda>w. a + (if w = 0 then r else 0)) [0..<Suc n]) = Suc n * a + r" for a r :: nat
    by (induction n) simp_all
  then show ?thesis unfolding worker_requests_def n using mult_div_mod_eq [of "Suc n" totalReqs] by (simp del: upt_Suc)
qed

definition message :: "bytes \<Rightarrow> nat \<Rightarrow> bytes" where
  "message payload i = header_bytes CmdPublish (of_nat (i + 1)) (of_nat (length payload)) @ payload"

lemma length_message [simp]: "length (message payload i) = 10 + length payload"
  by (simp add: message_def)

lemma put_message_eq:
  assumes "ba_len b + 10 + length payload \<le> length (ba_array b)"
  shows "take (ba_len (put_message payload i b)) (ba_array (put_message payload i b)) =
      take (ba_len b) (ba_array b) @ message payload i"
    and "length (ba_array (put_message payload i b)) = length (ba_array b)"
proof -
  have e: "ba_array (put_message payload i b) = write_at (ba_array b) (ba_len b) (message payload i)"
    using assms by (simp add: put_message_def Let_def fill_simps message_def header_bytes_def)
  show "take (ba_len (put_message payload i b)) (ba_array (put_message payload i b)) = take (ba_len b) (ba_array b) @ message payload i"
    using assms unfolding e by (simp add: write_at_def put_message_def Let_def)
  show "length (ba_array (put_message payload i b)) = length (ba_array b)" using assms unfolding e by simp
qed

function chunks :: "nat \<Rightarrow> 'a list \<Rightarrow> 'a list list" where
  "chunks n xs = (if xs = [] \<or> n = 0 then [] else take n xs # chunks n (drop n xs))"
  by pat_completeness auto
termination by (relation "measure (\<lambda>(n, xs). length xs)") auto

declare chunks.simps [simp del]

lemma chunks_Nil [simp]: "chunks n [] = []"
  by (simp add: chunks.simps)

lemma chunks_full: "length xs = n \<Longrightarrow> 0 < n \<Longrightarrow> chunks n (xs @ ys) = xs # chunks n ys"
  by (subst chunks.simps) auto

lemma chunks_last: "0 < length xs \<Longrightarrow> length xs < n \<Longrightarrow> chunks n xs = [xs]"
  by (subst chunks.simps) auto

definition pending :: "bytes \<Rightarrow> nat \<Rightarrow> bytes list \<Rightarrow> batch \<Rightarrow> bool" where
  "pending payload batchSize ms b \<longleftrightarrow> length (ba_array b) = batchSize * (10 + length payload) \<and> ba_msgCount b = length ms \<and>
     ba_len b = length ms * (10 + length payload) \<and> take (ba_len b) (ba_array b) = concat ms \<and> length ms < batchSize"

abbreviation batch_frame :: "(nat \<Rightarrow> bytes option) \<Rightarrow> bytes option \<Rightarrow> bytes list \<Rightarrow> bytes" where
  "batch_frame acq raw ms \<equiv> SerializeFrame acq raw CmdPublishBatch 0 (concat ms)"

abbreviation sent_count :: "worker \<Rightarrow> nat" where
  "sent_count w \<equiv> w_completed w + w_failed w"

lemma send_fields [simp]:
  "w_written (send ok buf n w) = w_written w @ [buf]" "sent_count (send ok buf n w) = sent_count w + n"
  by (simp_all add: send_def Let_def)

lemma batch_step:
  assumes "pending payload batchSize ms b"
  shows "if length ms + 1 = batchSize
    then \<exists>b' w'. flush_batch acq raw ok (put_message payload i b, w) = (b', w') \<and> pending payload batchSize [] b' \<and>
      w_written w' = w_written w @ [batch_frame acq raw (ms @ [message payload i])] \<and> sent_count w' = sent_count w + batchSize
    else pending payload batchSize (ms @ [message payload i]) (put_message payload i b)"
proof -
  have "(length ms + 1) * (10 + length payload) \<le> batchSize * (10 + length payload)"
    using assms by (intro mult_right_mono) (simp_all add: pending_def)
  then have fits: "ba_len b + 10 + length payload \<le> length (ba_array b)" using assms by (simp add: pending_def)
  have "ba_msgCount (put_message payload i b) = length ms + 1" "ba_len (put_message payload i b) = (length ms + 1) * (10 + length payload)"
    using assms by (simp_all add: put_message_def pending_def Let_def)
  moreover note put_message_eq [OF fits, of i]
  ultimately show ?thesis using assms by (auto simp: pending_def flush_batch_def)
qed

lemma batch_loop_sends:
  assumes "pending payload batchSize ms b" "batch_loop acq raw ok payload batchSize i n (b, w) = (b', w')"
  shows "\<exists>ms' full. pending payload batchSize ms' b' \<and> w_written w' = w_written w @ map (batch_frame acq raw) full \<and>
    chunks batchSize (ms @ map (message payload) [i..<i + n]) = full @ (if ms' = [] then [] else [ms']) \<and>
    sent_count w' + length ms' = sent_count w + length ms + n"
  using assms
proof (induction n arbitrary: i ms b w)
  case 0
  then show ?case by (intro exI [of _ ms] exI [of _ "[]"]) (auto simp: pending_def chunks_last)
next
  case (Suc n)
  let ?m = "message payload i"
  have up: "map (message payload) [i..<Suc (i + n)] = ?m # map (message payload) [Suc i..<Suc (i + n)]"
    by (simp add: upt_conv_Cons del: upt_Suc)
  have mc: "ba_msgCount (put_message payload i b) = length ms + 1"
    using Suc.prems(1) by (simp add: put_message_def pending_def Let_def)
  show ?case
  proof (cases "length ms + 1 = batchSize")
    case True
    then obtain b1 w1 where f: "flush_batch acq raw ok (put_message payload i b, w) = (b1, w1)" "pending payload batchSize [] b1"
      "w_written w1 = w_written w @ [batch_frame acq raw (ms @ [?m])]" "sent_count w1 = sent_count w + batchSize"
      using batch_step [OF Suc.prems(1), of acq raw ok i w] by auto
    have "batch_loop acq raw ok payload batchSize (Suc i) n (b1, w1) = (b', w')" using Suc.prems(2) True mc f(1) by simp
    from Suc.IH [OF f(2) this] obtain ms' full where r: "pending payload batchSize ms' b'"
      "w_written w' = w_written w1 @ map (batch_frame acq raw) full"
      "chunks batchSize (map (message payload) [Suc i..<Suc i + n]) = full @ (if ms' = [] then [] else [ms'])"
      "sent_count w' + length ms' = sent_count w1 + n" by auto
    have "chunks batchSize ((ms @ [?m]) @ map (message payload) [Suc i..<Suc i + n]) =
        (ms @ [?m]) # chunks batchSize (map (message payload) [Suc i..<Suc i + n])"
      using True by (intro chunks_full) simp_all
    then show ?thesis
      using r f(3,4) True by (intro exI [of _ ms'] exI [of _ "(ms @ [?m]) # full"]) (simp add: up del: upt_Suc)
  next
    case False
    then have p: "pending payload batchSize (ms @ [?m]) (put_message payload i b)"
      using batch_step [OF Suc.prems(1), of acq raw ok i w] by simp
    have "batch_loop acq raw ok payload batchSize (Suc i) n (put_message payload i b, w) = (b', w')"
      using Suc.prems(2) False mc by simp
    from Suc.IH [OF p this] show ?thesis by (simp add: up del: upt_Suc)
  qed
qed

lemma single_loop_sends:
  "w_written (single_loop acq raw ok payload i n w) =
     w_written w @ map (\<lambda>i. SerializeFrame acq raw CmdPublish (of_nat (i + 1)) payload) [i..<i + n]"
  "sent_count (single_loop acq raw ok payload i n w) = sent_count w + n"
  by (induction n arbitrary: i w) (simp_all add: upt_conv_Cons del: upt_Suc)

text \<open>A worker of the load generator sends every message of its share once. With batches the frames it writes hold, batch by
  batch and in order, the messages one after the other, although they are built in a buffer that still has the previous
  batch; and it counts every message once, as completed or as failed.\<close>

theorem bench_worker_sends:
  assumes "w = run_worker acq raw ok payload batchSize numReqs"
  shows "sent_count w = numReqs \<and>
    w_written w = (if batchSize \<le> 1 then map (\<lambda>i. SerializeFrame acq raw CmdPublish (of_nat (i + 1)) payload) [0..<numReqs]
      else map (batch_frame acq raw) (chunks batchSize (map (message payload) [0..<numReqs])))"
proof (cases "batchSize \<le> 1")
  case True
  then show ?thesis using assms by (simp add: run_worker_def single_loop_sends idle_worker_def)
next
  case False
  let ?b = "\<lparr>ba_array = replicate (batchSize * (HeaderSize + length payload)) 0, ba_len = 0, ba_msgCount = 0\<rparr>"
  obtain b1 w1 where l: "batch_loop acq raw ok payload batchSize 0 numReqs (?b, idle_worker) = (b1, w1)" by fastforce
  have "pending payload batchSize [] ?b" using False by (simp add: pending_def)
  from batch_loop_sends [OF this l] obtain ms full where r: "pending payload batchSize ms b1"
    "w_written w1 = map (batch_frame acq raw) full"
    "chunks batchSize (map (message payload) [0..<numReqs]) = full @ (if ms = [] then [] else [ms])"
    "sent_count w1 + length ms = numReqs" by (auto simp: idle_worker_def)
  show ?thesis
    using assms False l r by (auto simp: run_worker_def flush_batch_def pending_def)
qed

end
