(* ===== verification/Msg_Ref.thy ===== *)
theory Msg_Ref
  imports Aqueduct_Prelude "HOL-Library.Multiset"
begin

text \<open>
  Reference-counted messages, \<^verbatim>\<open>internal/broker/msg_ref.go\<close>. Messages live in a heap and are named by their
  index; a nil pointer is \<open>None\<close>. The heap records the pool of recycled messages and, in order, the
  buffers that were given back with \<^verbatim>\<open>protocol.ReleaseBuffer\<close>. Which message the pool returns is an argument.
  The second half relates the counters to the handles that the rest of the broker holds.
\<close>

section \<open>Operations\<close>

record MessageRef =
  mr_buf :: "nat option"
  mr_frame :: "bytes option"
  mr_ref :: u32
  mr_expiresAt :: int
  mr_offset :: u64
  mr_parent :: "nat option"

record ref_heap =
  rh_refs :: "MessageRef list"
  rh_pool :: "nat list"
  rh_released :: "nat list"
  rh_bytes :: "nat \<Rightarrow> bytes"

abbreviation mr :: "ref_heap \<Rightarrow> nat \<Rightarrow> MessageRef" where
  "mr h m \<equiv> rh_refs h ! m"

definition upd :: "nat \<Rightarrow> (MessageRef \<Rightarrow> MessageRef) \<Rightarrow> ref_heap \<Rightarrow> ref_heap" where
  "upd m f h = h\<lparr>rh_refs := (rh_refs h)[m := f (mr h m)]\<rparr>"

definition zero_ref :: MessageRef where
  "zero_ref = \<lparr>mr_buf = None, mr_frame = None, mr_ref = 0, mr_expiresAt = 0, mr_offset = 0,
     mr_parent = None\<rparr>"

text \<open>The pool returns one of its messages or makes a new one.\<close>

definition pool_get :: "nat \<Rightarrow> ref_heap \<Rightarrow> nat \<times> ref_heap" where
  "pool_get pick h =
     (if pick < length (rh_pool h)
      then (rh_pool h ! pick,
            h\<lparr>rh_pool := take pick (rh_pool h) @ drop (Suc pick) (rh_pool h)\<rparr>)
      else (length (rh_refs h), h\<lparr>rh_refs := rh_refs h @ [zero_ref]\<rparr>))"

definition AcquireMessageRef :: "nat \<Rightarrow> nat option \<Rightarrow> ref_heap \<Rightarrow> nat \<times> ref_heap" where
  "AcquireMessageRef pick buf h =
     (case pool_get pick h of (m, h) \<Rightarrow>
        (m, upd m (\<lambda>r. r\<lparr>mr_buf := buf, mr_frame := None, mr_expiresAt := 0, mr_offset := 0,
                        mr_parent := None, mr_ref := 1\<rparr>) h))"

definition AcquireChildMessageRef ::
    "nat \<Rightarrow> nat \<Rightarrow> bytes \<Rightarrow> u64 \<Rightarrow> int \<Rightarrow> ref_heap \<Rightarrow> nat \<times> ref_heap" where
  "AcquireChildMessageRef pick parent frame topicOffset expiresAt h =
     (case pool_get pick h of (m, h) \<Rightarrow>
        let h = upd m (\<lambda>r. r\<lparr>mr_buf := None, mr_frame := Some frame, mr_expiresAt := expiresAt,
                          mr_offset := topicOffset, mr_parent := Some parent, mr_ref := 1\<rparr>) h
        in (m, upd parent (\<lambda>r. r\<lparr>mr_ref := mr_ref r + 1\<rparr>) h))"

definition SetExpiresAt :: "nat option \<Rightarrow> int \<Rightarrow> ref_heap \<Rightarrow> ref_heap" where
  "SetExpiresAt om e h = (case om of None \<Rightarrow> h | Some m \<Rightarrow> upd m (\<lambda>r. r\<lparr>mr_expiresAt := e\<rparr>) h)"

definition SetOffset :: "nat option \<Rightarrow> u64 \<Rightarrow> ref_heap \<Rightarrow> ref_heap" where
  "SetOffset om off h = (case om of None \<Rightarrow> h | Some m \<Rightarrow> upd m (\<lambda>r. r\<lparr>mr_offset := off\<rparr>) h)"

definition Offset :: "nat option \<Rightarrow> ref_heap \<Rightarrow> u64" where
  "Offset om h = (case om of None \<Rightarrow> 0 | Some m \<Rightarrow> mr_offset (mr h m))"

definition IsExpired :: "nat option \<Rightarrow> int \<Rightarrow> ref_heap \<Rightarrow> bool" where
  "IsExpired om nowNano h =
     (case om of None \<Rightarrow> False | Some m \<Rightarrow> mr_expiresAt (mr h m) > 0 \<and> nowNano \<ge> mr_expiresAt (mr h m))"

definition Retain :: "nat option \<Rightarrow> ref_heap \<Rightarrow> ref_heap" where
  "Retain om h = (case om of None \<Rightarrow> h | Some m \<Rightarrow> upd m (\<lambda>r. r\<lparr>mr_ref := mr_ref r + 1\<rparr>) h)"

definition pool_put :: "nat \<Rightarrow> ref_heap \<Rightarrow> ref_heap" where
  "pool_put m h = h\<lparr>rh_pool := m # rh_pool h\<rparr>"

definition release_buffer :: "nat option \<Rightarrow> ref_heap \<Rightarrow> ref_heap" where
  "release_buffer buf h = (case buf of None \<Rightarrow> h | Some b \<Rightarrow> h\<lparr>rh_released := rh_released h @ [b]\<rparr>)"

text \<open>
  \<open>Release_msg\<close> is the method on a non-nil receiver that is in the heap. It ends because every
  recursive call is preceded by a counter that went from one to zero.
\<close>

definition ones :: "ref_heap \<Rightarrow> nat" where
  "ones h = length (filter (\<lambda>r. mr_ref r = 1) (rh_refs h))"

lemma ones_decrease:
  assumes "m < length (rh_refs h)" "mr_ref (mr h m) = 1"
  shows "ones (upd m (\<lambda>r. r\<lparr>mr_ref := mr_ref r - 1\<rparr>) h) < ones h"
proof -
  have split: "rh_refs h = take m (rh_refs h) @ mr h m # drop (Suc m) (rh_refs h)"
    using assms(1) by (rule id_take_nth_drop)
  have "(rh_refs h)[m := x] = take m (rh_refs h) @ x # drop (Suc m) (rh_refs h)" for x
    using assms(1) by (rule upd_conv_take_nth_drop)
  moreover have "ones h = length (filter (\<lambda>r. mr_ref r = 1) (take m (rh_refs h) @ mr h m # drop (Suc m) (rh_refs h)))"
    using split by (simp add: ones_def)
  ultimately show ?thesis using assms(2) by (simp add: ones_def upd_def)
qed

function Release_msg :: "nat \<Rightarrow> ref_heap \<Rightarrow> ref_heap" where
  "Release_msg m h =
     (if m \<ge> length (rh_refs h) then h
      else let dec = mr_ref (mr h m) - 1;
               h1 = upd m (\<lambda>r. r\<lparr>mr_ref := mr_ref r - 1\<rparr>) h
           in if dec = 0 then
                case mr_parent (mr h m) of
                  Some p \<Rightarrow>
                    let h2 = Release_msg p h1;
                        h3 = upd m (\<lambda>r. r\<lparr>mr_parent := None, mr_expiresAt := 0, mr_offset := 0\<rparr>) h2
                    in pool_put m h3
                | None \<Rightarrow>
                    let h2 = release_buffer (mr_buf (mr h m)) h1;
                        h3 = upd m (\<lambda>r. r\<lparr>mr_buf := None, mr_expiresAt := 0, mr_offset := 0\<rparr>) h2
                    in pool_put m h3
              else h1)"
  by pat_completeness auto
termination
  by (relation "measure (\<lambda>(m, h). ones h)") (auto intro: ones_decrease)

declare Release_msg.simps [simp del]

definition Release :: "nat option \<Rightarrow> ref_heap \<Rightarrow> ref_heap" where
  "Release om h = (case om of None \<Rightarrow> h | Some m \<Rightarrow> Release_msg m h)"

definition Parent :: "nat option \<Rightarrow> ref_heap \<Rightarrow> nat option" where
  "Parent om h = (case om of None \<Rightarrow> None | Some m \<Rightarrow> mr_parent (mr h m))"

definition Buf :: "nat option \<Rightarrow> ref_heap \<Rightarrow> bytes option" where
  "Buf om h =
     (case om of None \<Rightarrow> None
      | Some m \<Rightarrow>
          (case mr_frame (mr h m) of
             Some f \<Rightarrow> Some f
           | None \<Rightarrow> map_option (rh_bytes h) (mr_buf (mr h m))))"

section \<open>Counters and handles\<close>

text \<open>\<open>H\<close> is the multiset of references the broker holds. A message that is alive counts its handles
  and its live children.\<close>

definition kids :: "ref_heap \<Rightarrow> nat \<Rightarrow> nat" where
  "kids h m = sum_list (map (\<lambda>r. if mr_ref r \<noteq> 0 \<and> mr_parent r = Some m then 1 else 0) (rh_refs h))"

definition alive :: "ref_heap \<Rightarrow> nat \<Rightarrow> bool" where
  "alive h m \<longleftrightarrow> m < length (rh_refs h) \<and> mr_ref (mr h m) \<noteq> 0"

definition owns :: "ref_heap \<Rightarrow> nat \<Rightarrow> nat \<Rightarrow> bool" where
  "owns h m b \<longleftrightarrow> alive h m \<and> mr_parent (mr h m) = None \<and> mr_buf (mr h m) = Some b"

lemma owns_det: "owns h m b \<Longrightarrow> owns h n b' \<Longrightarrow> n = m \<Longrightarrow> b' = b"
  by (simp add: owns_def)

definition counts_ok :: "ref_heap \<Rightarrow> nat multiset \<Rightarrow> bool" where
  "counts_ok h H \<longleftrightarrow> (\<forall>m\<in>#H. m < length (rh_refs h)) \<and>
     (\<forall>m<length (rh_refs h). unat (mr_ref (mr h m)) = count H m + kids h m)"

definition parents_ok :: "ref_heap \<Rightarrow> bool" where
  "parents_ok h \<longleftrightarrow> (\<forall>m p. alive h m \<longrightarrow> mr_parent (mr h m) = Some p \<longrightarrow>
     p < length (rh_refs h) \<and> mr_parent (mr h p) = None)"

definition pool_ok :: "ref_heap \<Rightarrow> bool" where
  "pool_ok h \<longleftrightarrow> distinct (rh_pool h) \<and> (\<forall>m\<in>set (rh_pool h). m < length (rh_refs h) \<and> mr_ref (mr h m) = 0)"

definition owners_ok :: "ref_heap \<Rightarrow> nat set \<Rightarrow> bool" where
  "owners_ok h B \<longleftrightarrow>
     (\<forall>m. alive h m \<longrightarrow> mr_parent (mr h m) = None \<longrightarrow> (\<exists>b. owns h m b)) \<and>
     (\<forall>m b. owns h m b \<longrightarrow> b \<notin> set (rh_released h)) \<and>
     (\<forall>m n b. owns h m b \<longrightarrow> owns h n b \<longrightarrow> m = n) \<and>
     distinct (rh_released h) \<and> B = set (rh_released h) \<union> {b. \<exists>m. owns h m b}"

definition ref_inv :: "ref_heap \<Rightarrow> nat multiset \<Rightarrow> nat set \<Rightarrow> bool" where
  "ref_inv h H B \<longleftrightarrow> counts_ok h H \<and> parents_ok h \<and> pool_ok h \<and> owners_ok h B"

subsection \<open>Updates\<close>

lemma upd_simps [simp]:
  "length (rh_refs (upd m f h)) = length (rh_refs h)"
  "rh_pool (upd m f h) = rh_pool h" "rh_released (upd m f h) = rh_released h"
  "rh_bytes (upd m f h) = rh_bytes h"
  by (simp_all add: upd_def)

lemma mr_upd: "m < length (rh_refs h) \<Longrightarrow> mr (upd m f h) n = (if n = m then f (mr h m) else mr h n)"
  by (simp add: upd_def)

definition edge :: "MessageRef \<Rightarrow> nat \<Rightarrow> nat" where
  "edge r p = (if mr_ref r \<noteq> 0 \<and> mr_parent r = Some p then 1 else 0)"

lemma kids_eq: "kids h p = sum_list (map (\<lambda>r. edge r p) (rh_refs h))"
  by (simp add: kids_def edge_def)

lemma edge_le_kids: "m < length (rh_refs h) \<Longrightarrow> edge (mr h m) p \<le> kids h p"
  unfolding kids_eq by (rule member_le_sum_list) simp_all

lemma kids_upd:
  assumes "m < length (rh_refs h)"
  shows "kids (upd m f h) p + edge (mr h m) p = kids h p + edge (f (mr h m)) p"
proof -
  have "kids (upd m f h) p = kids h p + edge (f (mr h m)) p - edge (mr h m) p"
    using assms by (simp add: kids_eq upd_def map_update sum_list_update)
  then show ?thesis using edge_le_kids [OF assms, of p] by simp
qed

lemma kids_same_edge:
  "m < length (rh_refs h) \<Longrightarrow> (\<And>p. edge (f (mr h m)) p = edge (mr h m) p) \<Longrightarrow> kids (upd m f h) p = kids h p"
  using kids_upd [of m h f p] by simp

lemma no_kids: "kids h p = 0 \<Longrightarrow> alive h m \<Longrightarrow> mr_parent (mr h m) \<noteq> Some p"
  using edge_le_kids [of m h p] by (auto simp: alive_def edge_def)

lemma kids_ge_1: "alive h m \<Longrightarrow> mr_parent (mr h m) = Some p \<Longrightarrow> 1 \<le> kids h p"
  using edge_le_kids [of m h p] by (simp add: alive_def edge_def)

lemma kids_cong: "rh_refs h' = rh_refs h \<Longrightarrow> kids h' p = kids h p"
  by (simp add: kids_def)

lemma alive_upd:
  "m < length (rh_refs h) \<Longrightarrow>
     alive (upd m f h) n \<longleftrightarrow> (if n = m then mr_ref (f (mr h m)) \<noteq> 0 else alive h n)"
  by (auto simp: alive_def mr_upd)

lemma owns_upd:
  "m < length (rh_refs h) \<Longrightarrow>
     owns (upd m f h) n b \<longleftrightarrow>
       (if n = m then mr_ref (f (mr h m)) \<noteq> 0 \<and> mr_parent (f (mr h m)) = None \<and> mr_buf (f (mr h m)) = Some b
        else owns h n b)"
  by (auto simp: owns_def alive_upd mr_upd)

lemmas upd_rules = alive_upd owns_upd mr_upd

lemma handle_alive:
  assumes "counts_ok h H" "m \<in># H"
  shows "m < length (rh_refs h)" "1 \<le> unat (mr_ref (mr h m))" "alive h m"
proof -
  show m: "m < length (rh_refs h)" using assms by (auto simp: counts_ok_def)
  then show u: "1 \<le> unat (mr_ref (mr h m))"
    using assms by (auto simp: counts_ok_def Suc_le_eq)
  then show "alive h m" using m by (auto simp: alive_def)
qed

text \<open>Heaps that agree on the live messages agree on the parents and the owners.\<close>

lemma shape_cong:
  assumes len: "length (rh_refs h') = length (rh_refs h)" and rel: "rh_released h' = rh_released h"
    and al: "\<And>x. alive h' x \<longleftrightarrow> alive h x"
    and par: "\<And>x. alive h x \<or> mr_parent (mr h x) = None \<Longrightarrow> mr_parent (mr h' x) = mr_parent (mr h x)"
    and buf: "\<And>x. alive h x \<Longrightarrow> mr_buf (mr h' x) = mr_buf (mr h x)"
  shows "parents_ok h \<Longrightarrow> parents_ok h'" "owners_ok h B \<Longrightarrow> owners_ok h' B"
proof -
  show "parents_ok h \<Longrightarrow> parents_ok h'"
    unfolding parents_ok_def len al by (metis par)
  have own: "owns h' x b \<longleftrightarrow> owns h x b" for x b
    unfolding owns_def al using par buf by metis
  have "mr_parent (mr h' x) = None \<longleftrightarrow> mr_parent (mr h x) = None" if "alive h x" for x
    using par that by metis
  then show "owners_ok h B \<Longrightarrow> owners_ok h' B"
    by (simp add: owners_ok_def rel al own)
qed

text \<open>Changing a counter without reaching zero.\<close>

lemma ref_inv_count:
  assumes inv: "ref_inv h H B" and m: "alive h m" and n: "c \<noteq> 0"
    and H: "set_mset H' \<subseteq> insert m (set_mset H)" "unat c = count H' m + kids h m"
      "\<And>x. x \<noteq> m \<Longrightarrow> count H' x = count H x"
  shows "ref_inv (upd m (\<lambda>r. r\<lparr>mr_ref := c\<rparr>) h) H' B"
proof -
  let ?h = "upd m (\<lambda>r. r\<lparr>mr_ref := c\<rparr>) h"
  have len: "m < length (rh_refs h)" using m by (simp add: alive_def)
  have k: "kids ?h p = kids h p" for p
    by (rule kids_same_edge [OF len]) (use m n in \<open>auto simp: edge_def alive_def\<close>)
  have "counts_ok ?h H'"
    using inv H len by (auto simp: ref_inv_def counts_ok_def k mr_upd)
  moreover have "parents_ok ?h" "owners_ok ?h B"
    using inv m n len by (auto simp: ref_inv_def upd_rules intro!: shape_cong [of ?h h] split: if_splits)
  moreover have "m \<notin> set (rh_pool h)"
    using inv m by (auto simp: ref_inv_def pool_ok_def alive_def)
  then have "pool_ok ?h"
    using inv len by (auto simp: ref_inv_def pool_ok_def mr_upd)
  ultimately show ?thesis by (simp add: ref_inv_def)
qed

text \<open>A message that is dead may be changed and put into the pool.\<close>

lemma ref_inv_pool_put:
  assumes inv: "ref_inv h H B" and m: "m < length (rh_refs h)" "mr_ref (mr h m) = 0" "m \<notin> set (rh_pool h)"
    and f: "mr_ref (f (mr h m)) = 0" "mr_parent (f (mr h m)) = None"
  shows "ref_inv (pool_put m (upd m f h)) H B"
proof -
  let ?h = "upd m f h"
  let ?g = "pool_put m ?h"
  have dead: "\<not> alive h m" using m by (simp add: alive_def)
  have g: "rh_refs ?g = rh_refs ?h" "rh_released ?g = rh_released h" "rh_pool ?g = m # rh_pool h"
    by (simp_all add: pool_put_def)
  have k: "kids ?g p = kids h p" for p
    unfolding kids_cong [OF g(1)] by (rule kids_same_edge [OF m(1)]) (use m f in \<open>auto simp: edge_def\<close>)
  have al: "alive ?g x \<longleftrightarrow> alive h x" for x
    using dead alive_upd [OF m(1), of f x] f by (auto simp: alive_def g)
  have "counts_ok ?g H" using inv m f by (auto simp: ref_inv_def counts_ok_def k g mr_upd)
  moreover have "parents_ok ?g" "owners_ok ?g B"
    using inv m f dead by (auto simp: ref_inv_def al g mr_upd intro!: shape_cong [of ?g h])
  moreover have "pool_ok ?g"
    using inv m f by (auto simp: ref_inv_def pool_ok_def g mr_upd)
  ultimately show ?thesis by (simp add: ref_inv_def)
qed

subsection \<open>Releasing\<close>

lemma last_handle:
  assumes "counts_ok h H" "m \<in># H" "mr_ref (mr h m) - 1 = 0"
  shows "mr_ref (mr h m) = 1" "count H m = 1" "kids h m = 0"
proof -
  show r: "mr_ref (mr h m) = 1" using assms(3) by (simp only: right_minus_eq)
  have "unat (mr_ref (mr h m)) = count H m + kids h m" "1 \<le> count H m"
    using assms(1,2) handle_alive(1) [OF assms(1,2)] by (auto simp: counts_ok_def Suc_le_eq)
  then show "count H m = 1" "kids h m = 0" using r by simp_all
qed

text \<open>The owner of a buffer dies: its buffer goes back.\<close>

lemma ref_inv_free_root:
  assumes inv: "ref_inv h H B" and m: "m \<in># H" "mr_ref (mr h m) - 1 = 0" and own: "owns h m b"
  shows "ref_inv (release_buffer (Some b) (upd m (\<lambda>r. r\<lparr>mr_ref := mr_ref r - 1\<rparr>) h)) (H - {#m#}) B"
    (is "ref_inv ?g _ _")
proof -
  have c: "counts_ok h H" using inv by (simp add: ref_inv_def)
  note lh = last_handle [OF c m] and len = handle_alive(1) [OF c m(1)]
  have g: "length (rh_refs ?g) = length (rh_refs h)" "rh_released ?g = rh_released h @ [b]"
    "rh_pool ?g = rh_pool h"
    "mr ?g x = (if x = m then (mr h m)\<lparr>mr_ref := 0\<rparr> else mr h x)" for x
    using lh len by (simp_all add: release_buffer_def mr_upd)
  have k: "kids ?g p = kids h p" for p
  proof -
    have "kids ?g p = kids (upd m (\<lambda>r. r\<lparr>mr_ref := mr_ref r - 1\<rparr>) h) p"
      by (rule kids_cong) (simp add: release_buffer_def)
    then show ?thesis
      using kids_same_edge [OF len, of "\<lambda>r. r\<lparr>mr_ref := mr_ref r - 1\<rparr>" p] own
      by (simp add: edge_def owns_def)
  qed
  have al: "alive ?g x \<longleftrightarrow> x \<noteq> m \<and> alive h x" for x by (auto simp: alive_def g)
  have ow: "owns ?g x b' \<longleftrightarrow> x \<noteq> m \<and> owns h x b'" for x b' by (auto simp: owns_def al g(4))
  have "counts_ok ?g (H - {#m#})"
    using c lh(2,3) by (auto simp: counts_ok_def g k dest: in_diffD)
  moreover have "parents_ok ?g"
    using inv by (auto simp: ref_inv_def parents_ok_def al g)
  moreover have "pool_ok ?g"
    using inv by (auto simp: ref_inv_def pool_ok_def g)
  moreover have "owners_ok ?g B"
  proof -
    have o: "owners_ok h B" using inv by (simp add: ref_inv_def)
    have "{b'. \<exists>x. owns ?g x b'} = {b'. \<exists>x. owns h x b'} - {b}"
      using o own unfolding owners_ok_def ow by (auto dest: owns_det [OF own])
    then show ?thesis
      using o own unfolding owners_ok_def g(2) al ow by (auto simp: g)
  qed
  ultimately show ?thesis by (simp add: ref_inv_def)
qed

lemma Release_msg_root:
  assumes inv: "ref_inv h H B" and m: "m \<in># H" and root: "mr_parent (mr h m) = None"
  shows "ref_inv (Release_msg m h) (H - {#m#}) B"
    and "x \<noteq> m \<Longrightarrow> mr (Release_msg m h) x = mr h x"
    and "length (rh_refs (Release_msg m h)) = length (rh_refs h)"
    and "set (rh_pool (Release_msg m h)) \<subseteq> insert m (set (rh_pool h))"
    and "mr_ref (mr (Release_msg m h) m) = mr_ref (mr h m) - 1"
proof -
  have c: "counts_ok h H" using inv by (simp add: ref_inv_def)
  note len = handle_alive(1) [OF c m]
  obtain b where own: "owns h m b"
    using inv root handle_alive(3) [OF c m] by (auto simp: ref_inv_def owners_ok_def)
  let ?h1 = "upd m (\<lambda>r. r\<lparr>mr_ref := mr_ref r - 1\<rparr>) h"
  let ?f = "\<lambda>r. r\<lparr>mr_buf := None, mr_expiresAt := 0, mr_offset := 0\<rparr>"
  have eq: "Release_msg m h = (if mr_ref (mr h m) - 1 = 0
      then pool_put m (upd m ?f (release_buffer (Some b) ?h1)) else ?h1)"
    using own root len by (subst Release_msg.simps) (auto simp: owns_def Let_def)
  have pm: "m \<notin> set (rh_pool h)"
    using inv handle_alive [OF c m] by (auto simp: ref_inv_def pool_ok_def alive_def)
  show "ref_inv (Release_msg m h) (H - {#m#}) B"
  proof (cases "mr_ref (mr h m) - 1 = 0")
    case True
    have "ref_inv (pool_put m (upd m ?f (release_buffer (Some b) ?h1))) (H - {#m#}) B"
      by (rule ref_inv_pool_put [OF ref_inv_free_root [OF inv m True own]])
        (use len pm True root in \<open>simp_all add: release_buffer_def mr_upd\<close>)
    then show ?thesis using eq True by simp
  next
    case False
    have "unat (mr_ref (mr h m) - 1) = unat (mr_ref (mr h m)) - 1"
      using handle_alive [OF c m] by (simp add: unat_minus_one alive_def)
    moreover have "unat (mr_ref (mr h m)) = count H m + kids h m" using c len by (simp add: counts_ok_def)
    moreover have "1 \<le> count H m" using m by (simp add: Suc_le_eq)
    moreover have "?h1 = upd m (\<lambda>r. r\<lparr>mr_ref := mr_ref (mr h m) - 1\<rparr>) h" by (simp add: upd_def)
    ultimately show ?thesis
      using ref_inv_count [OF inv handle_alive(3) [OF c m] False, of "H - {#m#}"] eq False
      by (auto dest: in_diffD)
  qed
  show "x \<noteq> m \<Longrightarrow> mr (Release_msg m h) x = mr h x"
    "length (rh_refs (Release_msg m h)) = length (rh_refs h)"
    "set (rh_pool (Release_msg m h)) \<subseteq> insert m (set (rh_pool h))"
    "mr_ref (mr (Release_msg m h) m) = mr_ref (mr h m) - 1"
    using len by (auto simp: eq pool_put_def release_buffer_def mr_upd)
qed

text \<open>A child dies: its hold on the parent becomes a handle, which is then released.\<close>

lemma ref_inv_free_child:
  assumes inv: "ref_inv h H B" and m: "m \<in># H" "mr_ref (mr h m) - 1 = 0" and par: "mr_parent (mr h m) = Some p"
  shows "ref_inv (upd m (\<lambda>r. r\<lparr>mr_ref := mr_ref r - 1\<rparr>) h) (H - {#m#} + {#p#}) B"
    (is "ref_inv ?g _ _")
proof -
  have c: "counts_ok h H" using inv by (simp add: ref_inv_def)
  note lh = last_handle [OF c m] and len = handle_alive(1) [OF c m(1)] and am = handle_alive(3) [OF c m(1)]
  have p: "p < length (rh_refs h)" "mr_parent (mr h p) = None"
    using inv am par by (auto simp: ref_inv_def parents_ok_def)
  then have "p \<noteq> m" using par by auto
  have g: "mr ?g x = (if x = m then (mr h m)\<lparr>mr_ref := 0\<rparr> else mr h x)" for x
    using lh(1) len by (simp add: mr_upd)
  have k: "kids ?g q + (if q = p then 1 else 0) = kids h q" for q
    using kids_upd [OF len, of "\<lambda>r. r\<lparr>mr_ref := mr_ref r - 1\<rparr>" q] lh(1) par by (auto simp: edge_def)
  have al: "alive ?g x \<longleftrightarrow> x \<noteq> m \<and> alive h x" for x by (auto simp: alive_def g)
  have ow: "owns ?g x b' \<longleftrightarrow> owns h x b'" for x b' using par by (auto simp: owns_def al g)
  have "counts_ok ?g (H - {#m#} + {#p#})"
  proof -
    have "unat (mr_ref (mr ?g x)) = count (H - {#m#} + {#p#}) x + kids ?g x" if "x < length (rh_refs h)" for x
      using that c lh k [of x] \<open>p \<noteq> m\<close> by (auto simp: counts_ok_def g split: if_splits)
    then show ?thesis using c p by (auto simp: counts_ok_def dest: in_diffD)
  qed
  moreover have "parents_ok ?g"
    using inv by (auto simp: ref_inv_def parents_ok_def al g split: if_splits)
  moreover have "pool_ok ?g"
    using inv by (auto simp: ref_inv_def pool_ok_def g)
  moreover have "owners_ok ?g B"
    using inv by (auto simp: ref_inv_def owners_ok_def al ow g)
  ultimately show ?thesis by (simp add: ref_inv_def)
qed

lemma Release_msg_inv:
  assumes inv: "ref_inv h H B" and m: "m \<in># H"
  shows "ref_inv (Release_msg m h) (H - {#m#}) B"
proof (cases "mr_parent (mr h m)")
  case None
  then show ?thesis by (rule Release_msg_root(1) [OF inv m])
next
  case (Some p)
  have c: "counts_ok h H" using inv by (simp add: ref_inv_def)
  note len = handle_alive(1) [OF c m] and am = handle_alive(3) [OF c m]
  let ?h1 = "upd m (\<lambda>r. r\<lparr>mr_ref := mr_ref r - 1\<rparr>) h"
  let ?f = "\<lambda>r. r\<lparr>mr_parent := None, mr_expiresAt := 0, mr_offset := 0\<rparr>"
  have eq: "Release_msg m h = (if mr_ref (mr h m) - 1 = 0
      then pool_put m (upd m ?f (Release_msg p ?h1)) else ?h1)"
    using Some len by (subst Release_msg.simps) (auto simp: Let_def)
  have p: "mr_parent (mr h p) = None" "p \<noteq> m"
    using inv am Some by (auto simp: ref_inv_def parents_ok_def)
  have pm: "m \<notin> set (rh_pool h)"
    using inv am by (auto simp: ref_inv_def pool_ok_def alive_def)
  show ?thesis
  proof (cases "mr_ref (mr h m) - 1 = 0")
    case True
    have i1: "ref_inv ?h1 (H - {#m#} + {#p#}) B"
      by (rule ref_inv_free_child [OF inv m True Some])
    have r1: "p \<in># H - {#m#} + {#p#}" "mr_parent (mr ?h1 p) = None"
      using p len by (simp_all add: mr_upd)
    note rp = Release_msg_root [OF i1 r1]
    have "mr (Release_msg p ?h1) m = mr ?h1 m" 
      by (rule rp(2)) (use p(2) in simp)
    then have d: "mr_ref (mr (Release_msg p ?h1) m) = 0" using len True by (simp add: mr_upd)
    have "ref_inv (Release_msg p ?h1) (H - {#m#}) B" using rp(1) by simp
    moreover have "m \<notin> set (rh_pool (Release_msg p ?h1))" using rp(4) pm p(2) by auto
    ultimately have "ref_inv (pool_put m (upd m ?f (Release_msg p ?h1))) (H - {#m#}) B"
      using len d rp(3) by (intro ref_inv_pool_put) simp_all
    then show ?thesis using eq True by simp
  next
    case False
    have "unat (mr_ref (mr h m) - 1) = unat (mr_ref (mr h m)) - 1"
      using am by (simp add: unat_minus_one alive_def)
    moreover have "unat (mr_ref (mr h m)) = count H m + kids h m" using c len by (simp add: counts_ok_def)
    moreover have "1 \<le> count H m" using m by (simp add: Suc_le_eq)
    moreover have "?h1 = upd m (\<lambda>r. r\<lparr>mr_ref := mr_ref (mr h m) - 1\<rparr>) h" by (simp add: upd_def)
    ultimately show ?thesis
      using ref_inv_count [OF inv am False, of "H - {#m#}"] eq False by (auto dest: in_diffD)
  qed
qed

text \<open>No counter grows when a message is released.\<close>

lemma unat_dec_le: "w \<noteq> 0 \<Longrightarrow> unat (w - 1 :: u32) \<le> unat w"
  by (simp add: unat_minus_one)

lemma Release_msg_ref_le:
  assumes inv: "ref_inv h H B" and m: "m \<in># H"
  shows "unat (mr_ref (mr (Release_msg m h) x)) \<le> unat (mr_ref (mr h x))"
proof -
  have c: "counts_ok h H" using inv by (simp add: ref_inv_def)
  note len = handle_alive(1) [OF c m] and am = handle_alive(3) [OF c m]
  show ?thesis
  proof (cases "mr_parent (mr h m)")
    case None
    then show ?thesis
      using Release_msg_root(2,5) [OF inv m None] am by (cases "x = m") (auto simp: alive_def intro: unat_dec_le)
  next
    case (Some p)
    let ?h1 = "upd m (\<lambda>r. r\<lparr>mr_ref := mr_ref r - 1\<rparr>) h"
    let ?f = "\<lambda>r. r\<lparr>mr_parent := None, mr_expiresAt := 0, mr_offset := 0\<rparr>"
    have eq: "Release_msg m h = (if mr_ref (mr h m) - 1 = 0
        then pool_put m (upd m ?f (Release_msg p ?h1)) else ?h1)"
      using Some len by (subst Release_msg.simps) (auto simp: Let_def)
    have le1: "unat (mr_ref (mr ?h1 x)) \<le> unat (mr_ref (mr h x))"
      using am len by (auto simp: mr_upd alive_def intro: unat_dec_le)
    show ?thesis
    proof (cases "mr_ref (mr h m) - 1 = 0")
      case True
      have i1: "ref_inv ?h1 (H - {#m#} + {#p#}) B" by (rule ref_inv_free_child [OF inv m True Some])
      then have ap: "alive ?h1 p" by (auto simp: ref_inv_def intro: handle_alive(3))
      have "p \<noteq> m" "mr_parent (mr h p) = None" using inv am Some by (auto simp: ref_inv_def parents_ok_def)
      then have pp: "mr_parent (mr ?h1 p) = None" using len by (simp add: mr_upd)
      note rp = Release_msg_root [OF i1 _ pp]
      have "unat (mr_ref (mr (Release_msg p ?h1) x)) \<le> unat (mr_ref (mr ?h1 x))"
        using rp(2,5) ap by (cases "x = p") (auto simp: alive_def intro: unat_dec_le)
      moreover have "mr_ref (mr (Release_msg m h) x) = mr_ref (mr (Release_msg p ?h1) x)"
        using eq True len rp(3) by (simp add: pool_put_def mr_upd)
      ultimately show ?thesis using le1 by simp
    qed (use eq le1 in simp)
  qed
qed

text \<open>A message that is still referenced keeps its content.\<close>

definition same_message :: "ref_heap \<Rightarrow> ref_heap \<Rightarrow> nat \<Rightarrow> bool" where
  "same_message h h' x \<longleftrightarrow> Buf (Some x) h' = Buf (Some x) h \<and> mr_expiresAt (mr h' x) = mr_expiresAt (mr h x) \<and>
     mr_offset (mr h' x) = mr_offset (mr h x)"

lemma same_message_trans: "same_message h h' x \<Longrightarrow> same_message h' h'' x \<Longrightarrow> same_message h h'' x"
  by (simp add: same_message_def)

lemma same_message_other: "m < length (rh_refs h) \<Longrightarrow> x \<noteq> m \<Longrightarrow> same_message h (pool_put m (upd m f h)) x"
  by (auto simp: same_message_def Buf_def pool_put_def mr_upd split: option.split)

lemma Release_msg_keeps:
  assumes inv: "ref_inv h H B" and m: "m \<in># H" and x: "x \<in># H - {#m#}"
  shows "same_message h (Release_msg m h) x"
proof -
  have c: "counts_ok h H" using inv by (simp add: ref_inv_def)
  note len = handle_alive(1) [OF c m] and am = handle_alive(3) [OF c m]
  let ?h1 = "upd m (\<lambda>r. r\<lparr>mr_ref := mr_ref r - 1\<rparr>) h"
  have s1: "same_message h ?h1 x" using len by (auto simp: same_message_def Buf_def mr_upd split: option.split)
  show ?thesis
  proof (cases "mr_ref (mr h m) - 1 = 0")
    case False
    then have "Release_msg m h = ?h1" using len by (subst Release_msg.simps) (simp add: Let_def)
    then show ?thesis using s1 by simp
  next
    case True
    have "x \<noteq> m" using last_handle(2) [OF c m True] x by (auto simp flip: count_greater_zero_iff)
    show ?thesis
    proof (cases "mr_parent (mr h m)")
      case None
      then show ?thesis using True len \<open>x \<noteq> m\<close>
        by (subst Release_msg.simps)
          (auto simp: Let_def same_message_def Buf_def mr_upd pool_put_def release_buffer_def split: option.split)
    next
      case (Some p)
      have i1: "ref_inv ?h1 (H - {#m#} + {#p#}) B" by (rule ref_inv_free_child [OF inv m True Some])
      then have c1: "counts_ok ?h1 (H - {#m#} + {#p#})" by (simp add: ref_inv_def)
      have "p \<noteq> m" "mr_parent (mr h p) = None" using inv am Some by (auto simp: ref_inv_def parents_ok_def)
      then have pp: "mr_parent (mr ?h1 p) = None" using len by (simp add: mr_upd)
      have lp: "p < length (rh_refs ?h1)" by (rule handle_alive(1) [OF c1]) simp
      have px: "mr_ref (mr ?h1 p) - 1 \<noteq> 0" if "x = p"
      proof
        assume "mr_ref (mr ?h1 p) - 1 = 0"
        then have "count (H - {#m#} + {#p#}) p = 1" by (intro last_handle(2) [OF c1]) simp_all
        then show False using x that by (simp only: count_union count_single) (simp flip: count_greater_zero_iff)
      qed
      have s2: "same_message ?h1 (Release_msg p ?h1) x"
        using lp pp px by (subst Release_msg.simps)
          (auto simp: Let_def same_message_def Buf_def mr_upd pool_put_def release_buffer_def split: option.split)
      have eq: "Release_msg m h = pool_put m (upd m (\<lambda>r. r\<lparr>mr_parent := None, mr_expiresAt := 0, mr_offset := 0\<rparr>)
          (Release_msg p ?h1))"
        using True Some len by (subst Release_msg.simps) (simp add: Let_def)
      have "m < length (rh_refs (Release_msg p ?h1))" using Release_msg_root(3) [OF i1 _ pp] len by simp
      then show ?thesis
        unfolding eq by (intro same_message_trans [OF same_message_trans [OF s1 s2]] same_message_other \<open>x \<noteq> m\<close>)
    qed
  qed
qed

subsection \<open>Acquiring and retaining\<close>

lemma remove_nth:
  assumes "distinct xs" "i < length xs"
  shows "distinct (take i xs @ drop (Suc i) xs)" "xs ! i \<notin> set (take i xs @ drop (Suc i) xs)"
    "set (take i xs @ drop (Suc i) xs) \<subseteq> set xs"
proof -
  have "distinct (take i xs @ xs ! i # drop (Suc i) xs)" using assms by (simp add: id_take_nth_drop [symmetric])
  then show "distinct (take i xs @ drop (Suc i) xs)" "xs ! i \<notin> set (take i xs @ drop (Suc i) xs)" by auto
qed (auto dest: in_set_takeD in_set_dropD)

lemma new_ref_inv:
  assumes inv: "ref_inv h H B" and h': "h' = h\<lparr>rh_refs := rh_refs h @ [zero_ref]\<rparr>"
  shows "ref_inv h' H B"
proof -
  have c: "counts_ok h H" and pl: "pool_ok h" and pr: "parents_ok h" and ow: "owners_ok h B"
    using inv by (simp_all add: ref_inv_def)
  define n where "n = length (rh_refs h)"
  have old: "mr h' x = mr h x" if "x < n" for x using that by (simp add: h' nth_append n_def)
  have new: "mr h' n = zero_ref" by (simp add: h' n_def)
  have len: "length (rh_refs h') = Suc n" by (simp add: h' n_def)
  have al: "alive h' x = alive h x" for x
  proof (cases "x < n")
    case False
    then show ?thesis using new by (cases "x = n") (simp_all add: alive_def len n_def [symmetric] zero_ref_def)
  qed (simp add: alive_def old len n_def [symmetric])
  have aln: "alive h x \<Longrightarrow> x < n" for x by (simp add: alive_def n_def)
  have k: "kids h' p = kids h p" for p by (simp add: kids_eq h' edge_def zero_ref_def)
  have "kids h n = 0"
  proof -
    have "edge r n = 0" if "r \<in> set (rh_refs h)" for r
      using that pr unfolding in_set_conv_nth by (auto simp: edge_def parents_ok_def alive_def n_def)
    then show ?thesis by (simp add: kids_eq sum_list_eq_0_iff)
  qed
  moreover have "count H n = 0" using c by (auto simp: counts_ok_def n_def count_eq_zero_iff)
  ultimately have "counts_ok h' H"
    using c by (auto simp: counts_ok_def len k less_Suc_eq old new n_def [symmetric]) (simp add: zero_ref_def)
  moreover have "parents_ok h'"
    using pr aln by (auto simp: parents_ok_def al len old n_def [symmetric])
  moreover have own: "owns h' x b = owns h x b" for x b
    using aln by (auto simp: owns_def al old)
  have rel: "rh_released h' = rh_released h" by (simp add: h')
  have "owners_ok h' B"
    using ow aln unfolding owners_ok_def al own rel by (auto simp: old)
  moreover have "pool_ok h'" using pl by (auto simp: pool_ok_def h' nth_append)
  ultimately show ?thesis by (simp add: ref_inv_def)
qed

lemma pool_get_inv:
  assumes inv: "ref_inv h H B" and get: "pool_get pick h = (m, h')"
  shows "ref_inv h' H B \<and> m < length (rh_refs h') \<and> mr_ref (mr h' m) = 0 \<and> m \<notin> set (rh_pool h') \<and>
    (alive h x \<longrightarrow> alive h' x \<and> mr h' x = mr h x)"
proof (cases "pick < length (rh_pool h)")
  case True
  have c: "counts_ok h H" and pl: "pool_ok h" and pr: "parents_ok h" and ow: "owners_ok h B"
    using inv by (simp_all add: ref_inv_def)
  have m: "m = rh_pool h ! pick" and h': "h' = h\<lparr>rh_pool := take pick (rh_pool h) @ drop (Suc pick) (rh_pool h)\<rparr>"
    using get True by (auto simp: pool_get_def)
  have r: "rh_refs h' = rh_refs h" "rh_released h' = rh_released h" by (simp_all add: h')
  have al: "alive h' x = alive h x" for x by (simp add: alive_def r)
  have "parents_ok h'" "owners_ok h' B"
    using pr ow by (auto simp: al r intro!: shape_cong [of h' h])
  moreover have "counts_ok h' H" using c by (simp add: counts_ok_def r kids_cong [OF r(1)])
  moreover have "pool_ok h'"
    using pl remove_nth [of "rh_pool h" pick] True by (auto simp: pool_ok_def h')
  moreover have "m \<in> set (rh_pool h)" using True m by simp
  ultimately show ?thesis
    using pl remove_nth [of "rh_pool h" pick] True by (auto simp: ref_inv_def pool_ok_def h' m alive_def)
next
  case False
  then have m: "m = length (rh_refs h)" and h': "h' = h\<lparr>rh_refs := rh_refs h @ [zero_ref]\<rparr>"
    using get by (auto simp: pool_get_def)
  have "m \<notin> set (rh_pool h')" using inv by (auto simp: ref_inv_def pool_ok_def h' m)
  then show ?thesis
    using new_ref_inv [OF inv h'] by (auto simp: h' m zero_ref_def nth_append alive_def)
qed

lemma AcquireMessageRef_inv:
  assumes inv: "ref_inv h H B" and b: "b \<notin> B" and acq: "AcquireMessageRef pick (Some b) h = (m, h')"
  shows "ref_inv h' (add_mset m H) (insert b B)"
proof -
  obtain h1 where get: "pool_get pick h = (m, h1)"
    using acq by (auto simp: AcquireMessageRef_def split: prod.splits)
  define f :: "MessageRef \<Rightarrow> MessageRef" where "f = (\<lambda>r. r\<lparr>mr_buf := Some b, mr_frame := None, mr_expiresAt := 0,
      mr_offset := 0, mr_parent := None, mr_ref := 1\<rparr>)"
  have h': "h' = upd m f h1" using acq get by (simp add: AcquireMessageRef_def f_def)
  have i1: "ref_inv h1 H B" and len: "m < length (rh_refs h1)" and dead: "mr_ref (mr h1 m) = 0"
    and pm: "m \<notin> set (rh_pool h1)"
    using pool_get_inv [OF inv get] by auto
  have c: "counts_ok h1 H" and ow: "owners_ok h1 B" using i1 by (simp_all add: ref_inv_def)
  have k: "kids h' p = kids h1 p" for p
    unfolding h' by (rule kids_same_edge [OF len]) (simp add: edge_def dead f_def)
  have z: "count H m = 0" "kids h1 m = 0" using c len dead by (auto simp: counts_ok_def)
  have al: "alive h' x \<longleftrightarrow> x = m \<or> alive h1 x" for x
    using len by (auto simp: h' alive_upd f_def)
  have own: "owns h' x b' \<longleftrightarrow> (if x = m then b' = b else owns h1 x b')" for x b'
    using len by (auto simp: h' owns_upd f_def)
  have m1: "\<not> alive h1 m" using dead by (simp add: alive_def)
  then have alm: "alive h1 x \<Longrightarrow> x \<noteq> m" for x by auto
  have "counts_ok h' (add_mset m H)"
    using c z len k by (auto simp: counts_ok_def h' mr_upd f_def)
  moreover have "parents_ok h'"
    using i1 len unfolding ref_inv_def parents_ok_def al by (auto simp: h' mr_upd f_def)
  moreover have "pool_ok h'"
    using i1 len pm by (auto simp: ref_inv_def pool_ok_def h' mr_upd)
  moreover have "owners_ok h' (insert b B)"
  proof -
    have nb: "\<not> owns h1 x b" for x using ow b by (auto simp: owners_ok_def)
    have "\<not> owns h1 m b'" for b' using m1 by (simp add: owns_def)
    then have "{b'. \<exists>x. owns h' x b'} = insert b {b'. \<exists>x. owns h1 x b'}"
      unfolding own by (auto split: if_splits) metis+
    moreover have "rh_released h' = rh_released h1" "b \<notin> set (rh_released h1)"
      using b ow by (auto simp: h' owners_ok_def)
    moreover have "mr h' x = mr h1 x" if "x \<noteq> m" for x using that len by (simp add: h' mr_upd)
    ultimately show ?thesis
      using ow nb alm unfolding owners_ok_def al own by auto
  qed
  ultimately show ?thesis by (simp add: ref_inv_def)
qed

lemma unat_succ: "unat x < 2 ^ 31 \<Longrightarrow> unat (x + 1 :: u32) = unat x + 1"
  by (simp add: unat_word_ariths)

lemma AcquireChildMessageRef_inv:
  assumes inv: "ref_inv h H B" and p: "p \<in># H" "mr_parent (mr h p) = None"
    and small: "unat (mr_ref (mr h p)) < 2 ^ 31"
    and acq: "AcquireChildMessageRef pick p frame off expiry h = (m, h')"
  shows "ref_inv h' (add_mset m H) B"
proof -
  obtain h1 where get: "pool_get pick h = (m, h1)"
    using acq by (auto simp: AcquireChildMessageRef_def split: prod.splits)
  define f :: "MessageRef \<Rightarrow> MessageRef" where "f = (\<lambda>r. r\<lparr>mr_buf := None, mr_frame := Some frame,
      mr_expiresAt := expiry, mr_offset := off, mr_parent := Some p, mr_ref := 1\<rparr>)"
  let ?g = "\<lambda>r :: MessageRef. r\<lparr>mr_ref := mr_ref r + 1\<rparr>"
  have h': "h' = upd p ?g (upd m f h1)"
    using acq get by (simp add: AcquireChildMessageRef_def f_def Let_def)
  have ap: "alive h p" using inv p handle_alive(3) by (auto simp: ref_inv_def)
  have i1: "ref_inv h1 H B" and len: "m < length (rh_refs h1)" and dead: "mr_ref (mr h1 m) = 0"
    and pm: "m \<notin> set (rh_pool h1)" and ap1: "alive h1 p" and mp: "mr h1 p = mr h p"
    using pool_get_inv [OF inv get, of p] ap by auto
  have c: "counts_ok h1 H" and ow: "owners_ok h1 B" using i1 by (simp_all add: ref_inv_def)
  have pl: "p < length (rh_refs h1)" "p \<noteq> m" "p \<notin> set (rh_pool h1)"
    using ap1 dead i1 by (auto simp: alive_def ref_inv_def pool_ok_def)
  have up: "unat (mr_ref (mr h1 p) + 1) = unat (mr_ref (mr h1 p)) + 1"
    using small mp by (simp add: unat_succ)
  then have up0: "mr_ref (mr h1 p) + 1 \<noteq> 0" by auto
  have mrs: "mr h' x = (if x = p then ?g (mr h1 p) else if x = m then f (mr h1 m) else mr h1 x)" for x
    using pl len by (simp add: h' mr_upd)
  have k: "kids h' q = kids h1 q + (if q = p then 1 else 0)" for q
  proof -
    have "kids (upd m f h1) q = kids h1 q + (if q = p then 1 else 0)"
      using kids_upd [OF len, of f q] dead by (auto simp: edge_def f_def)
    moreover have "kids h' q = kids (upd m f h1) q"
      unfolding h' by (rule kids_same_edge) (use pl mp p(2) in \<open>simp_all add: edge_def mr_upd len\<close>)
    ultimately show ?thesis by simp
  qed
  have z: "count H m = 0" "kids h1 m = 0" using c len dead by (auto simp: counts_ok_def)
  have al: "alive h' x \<longleftrightarrow> x = m \<or> alive h1 x" for x
    using ap1 len up0 by (auto simp: alive_def mrs) (auto simp: h' f_def)
  have alm: "alive h1 x \<Longrightarrow> x \<noteq> m" for x using dead by (auto simp: alive_def)
  have own: "owns h' x b = owns h1 x b" for x b
    using alm pl(2) ap1 by (auto simp: owns_def al mrs f_def)
  have fields: "length (rh_refs h') = length (rh_refs h1)" "rh_released h' = rh_released h1"
    "rh_pool h' = rh_pool h1" by (simp_all add: h')
  have "counts_ok h' (add_mset m H)"
    using c z len up pl by (auto simp: counts_ok_def fields k mrs f_def)
  moreover have "parents_ok h'"
  proof -
    have "mr_parent (mr h1 q) = None \<and> q < length (rh_refs h1)" if "alive h1 x" "mr_parent (mr h1 x) = Some q" for x q
      using i1 that by (auto simp: ref_inv_def parents_ok_def)
    then have "mr_parent (mr h' q) = None \<and> q < length (rh_refs h1)"
      if "alive h1 x" "mr_parent (mr h1 x) = Some q" for x q
      using that z(2) no_kids [of h1 m x] by (auto simp: mrs f_def)
    then show ?thesis
      using pl p(2) mp alm by (auto simp: parents_ok_def al fields mrs f_def)
  qed
  moreover have "pool_ok h'"
    using i1 pm pl by (auto simp: ref_inv_def pool_ok_def fields mrs)
  moreover have "owners_ok h' B"
    using ow alm pl unfolding owners_ok_def al own fields by (auto simp: mrs f_def)
  ultimately show ?thesis by (simp add: ref_inv_def)
qed

lemma Retain_inv:
  assumes inv: "ref_inv h H B" and m: "m \<in># H" and small: "unat (mr_ref (mr h m)) < 2 ^ 31"
  shows "ref_inv (Retain (Some m) h) (add_mset m H) B"
proof -
  have c: "counts_ok h H" using inv by (simp add: ref_inv_def)
  have u: "unat (mr_ref (mr h m) + 1) = unat (mr_ref (mr h m)) + 1"
    using small by (rule unat_succ)
  then have "mr_ref (mr h m) + 1 \<noteq> 0" by auto
  moreover have "unat (mr_ref (mr h m)) = count H m + kids h m"
    using c handle_alive(1) [OF c m] by (simp add: counts_ok_def)
  moreover have "Retain (Some m) h = upd m (\<lambda>r. r\<lparr>mr_ref := mr_ref (mr h m) + 1\<rparr>) h"
    by (simp add: Retain_def upd_def)
  ultimately show ?thesis
    using ref_inv_count [OF inv handle_alive(3) [OF c m], of _ "add_mset m H"] u by auto
qed

subsection \<open>Runs\<close>

text \<open>
  What the broker may do: acquire a message for a buffer that is not in use, open a child of a batch it
  holds, retain and release what it holds. Counters stay below their 31 bits.
\<close>

definition empty_heap :: "(nat \<Rightarrow> bytes) \<Rightarrow> ref_heap" where
  "empty_heap bs = \<lparr>rh_refs = [], rh_pool = [], rh_released = [], rh_bytes = bs\<rparr>"

inductive ref_reach :: "ref_heap \<Rightarrow> nat multiset \<Rightarrow> nat set \<Rightarrow> bool" where
  start: "ref_reach (empty_heap bs) {#} {}"
| acquire: "ref_reach h H B \<Longrightarrow> b \<notin> B \<Longrightarrow> AcquireMessageRef pick (Some b) h = (m, h') \<Longrightarrow>
    ref_reach h' (add_mset m H) (insert b B)"
| child: "ref_reach h H B \<Longrightarrow> p \<in># H \<Longrightarrow> mr_parent (mr h p) = None \<Longrightarrow> unat (mr_ref (mr h p)) < 2 ^ 31 \<Longrightarrow>
    AcquireChildMessageRef pick p frame off expiry h = (m, h') \<Longrightarrow> ref_reach h' (add_mset m H) B"
| retain: "ref_reach h H B \<Longrightarrow> m \<in># H \<Longrightarrow> unat (mr_ref (mr h m)) < 2 ^ 31 \<Longrightarrow>
    ref_reach (Retain (Some m) h) (add_mset m H) B"
| release: "ref_reach h H B \<Longrightarrow> m \<in># H \<Longrightarrow> ref_reach (Release (Some m) h) (H - {#m#}) B"

lemma ref_reach_inv: "ref_reach h H B \<Longrightarrow> ref_inv h H B"
proof (induction rule: ref_reach.induct)
  case (start bs)
  show ?case
    by (simp add: empty_heap_def ref_inv_def counts_ok_def parents_ok_def pool_ok_def owners_ok_def
        owns_def alive_def)
qed (auto simp: Release_def intro: AcquireMessageRef_inv AcquireChildMessageRef_inv Retain_inv Release_msg_inv)

definition root_of :: "ref_heap \<Rightarrow> nat \<Rightarrow> nat" where
  "root_of h m = (case mr_parent (mr h m) of None \<Rightarrow> m | Some p \<Rightarrow> p)"

lemma handle_root_owns:
  assumes inv: "ref_inv h H B" and m: "m \<in># H"
  shows "\<exists>b. owns h (root_of h m) b"
proof -
  have c: "counts_ok h H" using inv by (simp add: ref_inv_def)
  note am = handle_alive(3) [OF c m]
  have roots: "alive h x \<Longrightarrow> mr_parent (mr h x) = None \<Longrightarrow> \<exists>b. owns h x b" for x
    using inv by (auto simp: ref_inv_def owners_ok_def)
  show ?thesis
  proof (cases "mr_parent (mr h m)")
    case (Some p)
    then have "p < length (rh_refs h)" "mr_parent (mr h p) = None"
      using inv am by (auto simp: ref_inv_def parents_ok_def)
    moreover have "alive h p"
      using kids_ge_1 [OF am Some] c calculation(1) by (auto simp: counts_ok_def alive_def)
    ultimately show ?thesis using roots Some by (simp add: root_of_def)
  qed (use roots am in \<open>simp add: root_of_def\<close>)
qed

lemma kids_pos: "kids h p \<noteq> 0 \<Longrightarrow> \<exists>c. alive h c \<and> mr_parent (mr h c) = Some p"
  by (auto simp: kids_eq sum_list_eq_0_iff edge_def alive_def in_set_conv_nth split: if_splits)

lemma no_handles_all_dead:
  assumes "ref_inv h {#} B"
  shows "\<not> alive h m"
proof
  have k: "kids h x \<noteq> 0" if "alive h x" for x
  proof -
    have "unat (mr_ref (mr h x)) = kids h x" using assms that by (simp add: ref_inv_def counts_ok_def alive_def)
    moreover have "0 < unat (mr_ref (mr h x))" using that by (simp add: alive_def unat_gt_0)
    ultimately show ?thesis by simp
  qed
  assume "alive h m"
  then obtain c where c: "alive h c" "mr_parent (mr h c) = Some m" using k kids_pos by blast
  then obtain d where "alive h d" "mr_parent (mr h d) = Some c" using k kids_pos by blast
  moreover have "parents_ok h" using assms by (simp add: ref_inv_def)
  ultimately have "mr_parent (mr h c) = None" unfolding parents_ok_def by blast
  then show False using c by simp
qed

section \<open>Properties\<close>

text \<open>No buffer is returned while a message that reads from it is held. After any sequence of
  acquisitions, batch openings, retains and releases, the buffer behind every held message, its own or
  its batch's, has not been given back.\<close>

theorem message_buffer_not_released_early:
  assumes "ref_reach h H B" "m \<in># H"
  shows "\<exists>b. mr_buf (mr h (root_of h m)) = Some b \<and> b \<notin> set (rh_released h)"
proof -
  have inv: "ref_inv h H B" by (rule ref_reach_inv [OF assms(1)])
  obtain b where "owns h (root_of h m) b" using handle_root_owns [OF inv assms(2)] by blast
  then show ?thesis using inv by (auto simp: ref_inv_def owners_ok_def owns_def)
qed

lemma reach_example:
  obtains h where "ref_reach h {#1#} {7}" "mr_parent (mr h 1) = Some 0" "rh_released h = []"
    "mr_ref (mr h 1) = 1" "mr_ref (mr h 0) = 1" "length (rh_refs h) = 2" "mr_parent (mr h 0) = None"
    "mr_buf (mr h 0) = Some 7"
proof -
  obtain h1 where h1: "AcquireMessageRef 0 (Some 7) (empty_heap (\<lambda>_. [])) = (0, h1)"
    by (auto simp: AcquireMessageRef_def pool_get_def empty_heap_def)
  obtain h2 where h2: "AcquireChildMessageRef 0 0 [1] 0 0 h1 = (1, h2)"
    using h1 by (auto simp: AcquireMessageRef_def AcquireChildMessageRef_def pool_get_def empty_heap_def upd_def)
  have f1: "rh_refs h1 = [zero_ref\<lparr>mr_buf := Some 7, mr_ref := 1\<rparr>]" "rh_pool h1 = []" "rh_released h1 = []"
    using h1 by (auto simp: AcquireMessageRef_def pool_get_def empty_heap_def upd_def zero_ref_def)
  have f2: "rh_refs h2 = [zero_ref\<lparr>mr_buf := Some 7, mr_ref := 2\<rparr>,
      zero_ref\<lparr>mr_frame := Some [1], mr_parent := Some 0, mr_ref := 1\<rparr>]" "rh_released h2 = []"
    using h2 f1 by (auto simp: AcquireChildMessageRef_def pool_get_def upd_def zero_ref_def)
  have r1: "ref_reach h1 {#0#} {7}" using acquire [OF start _ h1] by simp
  have r2: "ref_reach h2 {#1, 0#} {7}"
    using child [OF r1 _ _ _ h2] f1 by (simp add: zero_ref_def)
  have r3: "ref_reach (Release (Some 0) h2) {#1#} {7}" using release [OF r2, of 0] by simp
  have "Release (Some 0) h2 = upd 0 (\<lambda>r. r\<lparr>mr_ref := 1\<rparr>) h2"
    using f2 by (simp add: Release_def Release_msg.simps upd_def)
  then show thesis using that [OF r3] f2 by (simp add: upd_def zero_ref_def)
qed

theorem message_buffer_not_released_early_witness:
  "\<exists>h b. ref_reach h {#1#} {7} \<and> mr_buf (mr h (root_of h 1)) = Some b \<and> b \<notin> set (rh_released h)"
proof -
  obtain h where h: "ref_reach h {#1#} {7}" using reach_example by blast
  then show ?thesis using message_buffer_not_released_early [OF h, of 1] by auto
qed

text \<open>Every buffer is returned exactly once. When no handle is left, the buffers given back are
  exactly the buffers that were wrapped, each of them once, whatever the order in which the messages of
  a batch and the batch itself were released.\<close>

theorem message_buffers_returned_once:
  assumes "ref_reach h {#} B"
  shows "set (rh_released h) = B \<and> distinct (rh_released h)"
proof -
  have inv: "ref_inv h {#} B" by (rule ref_reach_inv [OF assms])
  have "\<not> owns h m b" for m b using no_handles_all_dead [OF inv] by (simp add: owns_def)
  then show ?thesis using inv by (simp add: ref_inv_def owners_ok_def)
qed

theorem message_buffers_returned_once_witness:
  "\<exists>h. ref_reach h {#} {7} \<and> set (rh_released h) = {7} \<and> distinct (rh_released h)"
proof -
  obtain h where h: "ref_reach h {#1#} {7}" using reach_example by blast
  have "ref_reach (Release (Some 1) h) {#} {7}" using release [OF h, of 1] by simp
  then show ?thesis using message_buffers_returned_once by blast
qed

end
