(* ===== verification/Aal.thy ===== *)
theory Aal
  imports Aqueduct_Prelude
begin

text \<open>
  The append-only log, \<^verbatim>\<open>internal/aal/aal.go\<close>. Files are byte strings in a file system, a map from paths. The
  cipher is a pair of functions of a key, a nonce and a text; what is used of AES-GCM is \<open>aead_ok\<close>.
  A disk that writes only a prefix, the sizes of the reads and the random nonce prefix are arguments.
  The replay loop need not end, so it is a partial function whose value is \<open>None\<close> when it does not.
\<close>

section \<open>Opening and writing\<close>

datatype aal_error = ErrInvalidKeySize | ErrShortCiphertext | ErrOpenFile | ErrWrite | ErrAuth

record cipher =
  Seal :: "bytes \<Rightarrow> bytes \<Rightarrow> bytes \<Rightarrow> bytes"
  Open_aead :: "bytes \<Rightarrow> bytes \<Rightarrow> bytes \<Rightarrow> bytes option"

definition aead_ok :: "cipher \<Rightarrow> bool" where
  "aead_ok ci \<longleftrightarrow> (\<forall>k n p. Open_aead ci k n (Seal ci k n p) = Some p \<and> length (Seal ci k n p) = length p + 16)"

type_synonym fs = "bytes \<Rightarrow> bytes option"

record Log =
  l_file :: "bytes option"
  l_aead :: "bytes option"
  l_buf :: bytes
  l_prefix :: bytes
  l_nonce :: u64

definition poolBufLen :: nat where "poolBufLen = 16 + 65536"

definition OpenEncrypted :: "bool \<Rightarrow> bytes \<Rightarrow> fs \<Rightarrow> bytes \<Rightarrow> bytes \<Rightarrow> (aal_error, Log) res \<times> fs" where
  "OpenEncrypted openable rnd fs path key =
     (if \<not> openable then (Err ErrOpenFile, fs)
      else let fs = (case fs path of None \<Rightarrow> fs(path \<mapsto> []) | Some _ \<Rightarrow> fs);
               l = \<lparr>l_file = Some path, l_aead = None, l_buf = replicate poolBufLen 0,
                    l_prefix = replicate 4 0, l_nonce = 0\<rparr>
           in if length key > 0 then
                if length key \<noteq> 32 then (Err ErrInvalidKeySize, fs)
                else (Ok (l\<lparr>l_prefix := rnd, l_aead := Some key\<rparr>), fs)
              else (Ok l, fs))"

definition Open_log :: "bool \<Rightarrow> bytes \<Rightarrow> fs \<Rightarrow> bytes \<Rightarrow> (aal_error, Log) res \<times> fs" where
  "Open_log openable rnd fs path = OpenEncrypted openable rnd fs path []"

text \<open>\<open>short\<close> is the number of bytes a failing disk takes; \<open>None\<close> when the write succeeds.\<close>

definition file_write :: "nat option \<Rightarrow> fs \<Rightarrow> bytes \<Rightarrow> bytes \<Rightarrow> (aal_error, unit) res \<times> fs" where
  "file_write short fs path data =
     (let old = (case fs path of None \<Rightarrow> [] | Some c \<Rightarrow> c) in
      case short of
        None \<Rightarrow> (Ok (), fs(path \<mapsto> old @ data))
      | Some k \<Rightarrow> (Err ErrWrite, fs(path \<mapsto> old @ take k data)))"

text \<open>Sealing into the pool buffer at offset 16 stays in place when the result fits.\<close>

definition WriteFrame :: "cipher \<Rightarrow> nat option \<Rightarrow> Log option \<Rightarrow> fs \<Rightarrow> bytes \<Rightarrow> (aal_error, unit) res \<times> Log option \<times> fs" where
  "WriteFrame ci short ol fs frameBytes =
     (case ol of None \<Rightarrow> (Ok (), None, fs)
      | Some l \<Rightarrow>
        (case l_file l of None \<Rightarrow> (Ok (), Some l, fs)
         | Some path \<Rightarrow>
           (case l_aead l of
              Some key \<Rightarrow>
                (let nonceVal = l_nonce l + 1;
                     buf = write_at (l_buf l) 4 (take 4 (l_prefix l));
                     buf = write_at buf 8 (put_be_u64 nonceVal);
                     nonce = slice buf 4 16;
                     out = Seal ci key nonce frameBytes;
                     buf = (if length out \<le> length buf - 16 then write_at buf 16 out else buf);
                     cipherLen = (of_nat (12 + length out) :: u32);
                     buf = write_at buf 0 (put_u32 cipherLen);
                     fullLen = 4 + unat cipherLen;
                     l = l\<lparr>l_nonce := nonceVal\<rparr>
                 in case (go_slice buf 0 fullLen :: (aal_error, bytes) res) of
                      Ok data \<Rightarrow> (case file_write short fs path data of (r, fs) \<Rightarrow> (r, Some (l\<lparr>l_buf := buf\<rparr>), fs))
                    | _ \<Rightarrow> (Panic, Some l, fs))
            | None \<Rightarrow>
                (let frameLen = (of_nat (length frameBytes) :: u32);
                     buf = write_at (l_buf l) 0 (put_u32 frameLen)
                 in if 4 + length frameBytes > length buf then (Panic, Some l, fs)
                    else let buf = write_at buf 4 frameBytes;
                             fullLen = 4 + unat frameLen
                         in case (go_slice buf 0 fullLen :: (aal_error, bytes) res) of
                              Ok data \<Rightarrow> (case file_write short fs path data of (r, fs) \<Rightarrow> (r, Some (l\<lparr>l_buf := buf\<rparr>), fs))
                            | _ \<Rightarrow> (Panic, Some l, fs)))))"

section \<open>Replaying\<close>

definition maxRecLen :: nat where "maxRecLen = 10 * 1024 * 1024"

definition bad_len :: "nat \<Rightarrow> bool" where
  "bad_len recLen \<longleftrightarrow> recLen = 0 \<or> recLen > maxRecLen"

function resync_scan :: "bytes \<Rightarrow> nat \<Rightarrow> nat \<Rightarrow> nat" where
  "resync_scan buf i maxScan =
     (if i + 4 < maxScan then
        let recLen = unat (get_u32 (slice buf i (i + 4))) in
        if bad_len recLen then resync_scan buf (i + 1) maxScan
        else if i + 4 + recLen \<le> length buf \<and> buf ! (i + 4) = 0x1F then i
        else resync_scan buf (i + 1) maxScan
      else maxScan)"
  by pat_completeness auto
termination by (relation "measure (\<lambda>(b, i, m). m - i)") auto

declare resync_scan.simps [simp del]

definition resyncToNextRecord :: "bytes \<Rightarrow> nat \<Rightarrow> nat" where
  "resyncToNextRecord buf pos =
     (let maxScan = pos + 1024;
          maxScan = (if maxScan > length buf then length buf else maxScan)
      in resync_scan buf (pos + 1) maxScan)"

definition decryptReplayRecord :: "cipher \<Rightarrow> bytes option \<Rightarrow> bytes \<Rightarrow> bytes option" where
  "decryptReplayRecord ci gcm recBytes =
     (case gcm of None \<Rightarrow> Some recBytes
      | Some key \<Rightarrow>
          if length recBytes < 12 + 16 then None
          else Open_aead ci key (take 12 recBytes) (drop 12 recBytes))"

lemma resync_scan_bounds: "i \<le> maxScan \<Longrightarrow> i \<le> resync_scan buf i maxScan \<and> resync_scan buf i maxScan \<le> maxScan"
proof (induction "maxScan - i" arbitrary: i rule: less_induct)
  case less
  have "i + 4 < maxScan \<Longrightarrow> Suc i \<le> resync_scan buf (Suc i) maxScan \<and> resync_scan buf (Suc i) maxScan \<le> maxScan"
    by (rule less.hyps) simp_all
  then show ?case
    using less.prems by (subst (1 2) resync_scan.simps) (auto simp: Let_def)
qed

lemma resync_advances:
  assumes "pos < length buf"
  shows "pos < resyncToNextRecord buf pos" "resyncToNextRecord buf pos \<le> length buf"
proof -
  have "pos + 1 \<le> (if pos + 1024 > length buf then length buf else pos + 1024)" using assms by simp
  from resync_scan_bounds [OF this, of buf]
  show "pos < resyncToNextRecord buf pos" "resyncToNextRecord buf pos \<le> length buf"
    unfolding resyncToNextRecord_def Let_def by (auto split: if_splits)
qed

text \<open>The handler threads a state and may report an error. The result is the number of bytes consumed,
  the number of frames handled, the error and the state.\<close>

function decode_loop :: "cipher \<Rightarrow> bytes \<Rightarrow> bytes option \<Rightarrow> ('s \<Rightarrow> bytes \<Rightarrow> 's \<times> 'e option) \<Rightarrow> 's \<Rightarrow> nat \<Rightarrow> nat
    \<Rightarrow> nat \<times> nat \<times> 'e option \<times> 's" where
  "decode_loop ci buf gcm handler s count consumed =
     (if \<not> consumed < length buf then (consumed, count, None, s)
      else let remaining = length buf - consumed in
        if remaining < 4 then (consumed, count, None, s)
        else let recLen = unat (get_u32 (slice buf consumed (consumed + 4))) in
          if bad_len recLen then decode_loop ci buf gcm handler s count (resyncToNextRecord buf consumed)
          else if remaining < 4 + recLen then (consumed, count, None, s)
          else case decryptReplayRecord ci gcm (slice buf (consumed + 4) (consumed + 4 + recLen)) of
            None \<Rightarrow> decode_loop ci buf gcm handler s count (consumed + (4 + recLen))
          | Some plain \<Rightarrow>
              (case handler s plain of
                 (s', Some e) \<Rightarrow> (consumed, count, Some e, s')
               | (s', None) \<Rightarrow> decode_loop ci buf gcm handler s' (count + 1) (consumed + (4 + recLen))))"
  by pat_completeness auto
termination
  by (relation "measure (\<lambda>(ci, b, g, h, s, n, k). length b - k)") (auto simp: diff_less_mono2 resync_advances)

declare decode_loop.simps [simp del]

definition decodeReplayChunk ::
    "cipher \<Rightarrow> bytes \<Rightarrow> bytes option \<Rightarrow> ('s \<Rightarrow> bytes \<Rightarrow> 's \<times> 'e option) \<Rightarrow> 's \<Rightarrow> nat \<Rightarrow> nat \<times> nat \<times> 'e option \<times> 's" where
  "decodeReplayChunk ci buf gcm handler s count = decode_loop ci buf gcm handler s count 0"

definition newReplayCipher :: "bytes \<Rightarrow> (aal_error, bytes option) res" where
  "newReplayCipher key =
     (if length key = 0 then Ok None
      else if length key \<noteq> 32 then Err ErrInvalidKeySize
      else Ok (Some key))"

definition replayBufLen :: nat where "replayBufLen = 64 * 1024"

text \<open>
  One read into the space that is left: nothing, without an error, when there is no space; the end of
  the file when nothing is left to read; otherwise some bytes, as many as \<open>r\<close> says if that is possible.
\<close>

definition read_size :: "nat \<Rightarrow> nat \<Rightarrow> bytes \<Rightarrow> nat \<times> bool" where
  "read_size r space rest =
     (if space = 0 then (0, False)
      else if rest = [] then (0, True)
      else (min (max 1 r) (min space (length rest)), False))"

text \<open>\<open>buf\<close> is the part of the buffer that is in use; \<open>rest\<close> is what the file still has.\<close>

partial_function (option) replay_loop :: "cipher \<Rightarrow> bytes option \<Rightarrow> ('s \<Rightarrow> bytes \<Rightarrow> 's \<times> 'e option) \<Rightarrow>
    nat list \<Rightarrow> bytes \<Rightarrow> bytes \<Rightarrow> nat \<Rightarrow> 's \<Rightarrow> (nat \<times> 'e option \<times> 's) option" where
  "replay_loop ci gcm handler rs rest buf count s =
     (case read_size (case rs of [] \<Rightarrow> 0 | r # _ \<Rightarrow> r) (replayBufLen - length buf) rest of (n, eof) \<Rightarrow>
       let buf = buf @ take n rest; rest = drop n rest in
       case decodeReplayChunk ci buf gcm handler s count of (consumed, newCount, handlerErr, s) \<Rightarrow>
         (case handlerErr of
            Some e \<Rightarrow> Some (newCount, Some e, s)
          | None \<Rightarrow>
              if eof then Some (newCount, None, s)
              else replay_loop ci gcm handler (tl rs) rest (drop consumed buf) newCount s))"

definition Replay :: "cipher \<Rightarrow> bool \<Rightarrow> nat list \<Rightarrow> fs \<Rightarrow> bytes \<Rightarrow> bytes \<Rightarrow> ('s \<Rightarrow> bytes \<Rightarrow> 's \<times> 'e option) \<Rightarrow> 's \<Rightarrow>
    (aal_error, nat \<times> 'e option \<times> 's) res option" where
  "Replay ci openable rs fs path key handler s =
     (if path = [] then Some (Ok (0, None, s))
      else case fs path of None \<Rightarrow> Some (Ok (0, None, s))
      | Some content \<Rightarrow>
          if \<not> openable then Some (Err ErrOpenFile)
          else if length content = 0 then Some (Ok (0, None, s))
          else case newReplayCipher key of
            Err e \<Rightarrow> Some (Err e)
          | Panic \<Rightarrow> Some Panic
          | Ok gcm \<Rightarrow> map_option Ok (replay_loop ci gcm handler rs content [] 0 s))"

section \<open>Rotating, and decrypting one record\<close>

definition tmp_path :: "bytes \<Rightarrow> bytes" where
  "tmp_path path = path @ str ''.rotate.tmp''"

text \<open>The handler of the replay writes into the log of the temporary file.\<close>

definition rotate_handler ::
    "cipher \<Rightarrow> Log option \<times> fs \<Rightarrow> bytes \<Rightarrow> (Log option \<times> fs) \<times> (aal_error, unit) res option" where
  "rotate_handler ci st frame =
     (case st of (ol, fs) \<Rightarrow>
       case WriteFrame ci None ol fs frame of
         (Ok _, ol, fs) \<Rightarrow> ((ol, fs), None)
       | (r, ol, fs) \<Rightarrow> ((ol, fs), Some r))"

definition Rotate :: "cipher \<Rightarrow> bool \<Rightarrow> nat list \<Rightarrow> bytes \<Rightarrow> Log option \<Rightarrow> fs \<Rightarrow> nat \<Rightarrow> bytes \<Rightarrow>
    ((aal_error, unit) res \<times> Log option \<times> fs) option" where
  "Rotate ci openable rs rnd ol fs maxSize key =
     (case ol of None \<Rightarrow> Some (Ok (), None, fs)
      | Some l \<Rightarrow>
       (case l_file l of None \<Rightarrow> Some (Ok (), Some l, fs)
        | Some path \<Rightarrow>
          if maxSize = 0 then Some (Ok (), Some l, fs)
          else if length (case fs path of None \<Rightarrow> [] | Some c \<Rightarrow> c) < maxSize then Some (Ok (), Some l, fs)
          else case OpenEncrypted openable rnd fs (tmp_path path) key of
            (Err e, fs) \<Rightarrow> Some (Err e, Some l, fs)
          | (Panic, fs) \<Rightarrow> Some (Panic, Some l, fs)
          | (Ok tmpLog, fs) \<Rightarrow>
              (case Replay ci openable rs fs path key (rotate_handler ci) (Some tmpLog, fs) of
                 None \<Rightarrow> None
               | Some (Err e) \<Rightarrow> Some (Err e, Some l, fs(tmp_path path := None))
               | Some Panic \<Rightarrow> Some (Panic, Some l, fs)
               | Some (Ok (n, Some (Err e), (_, fs))) \<Rightarrow> Some (Err e, Some l, fs(tmp_path path := None))
               | Some (Ok (n, Some _, (_, fs))) \<Rightarrow> Some (Panic, Some l, fs)
               | Some (Ok (n, None, (_, fs))) \<Rightarrow>
                   Some (Ok (), Some l, fs(path := fs (tmp_path path), tmp_path path := None)))))"

definition DecryptFrame :: "cipher \<Rightarrow> bytes \<Rightarrow> bytes \<Rightarrow> (aal_error, bytes) res" where
  "DecryptFrame ci rec key =
     (if length key \<noteq> 32 then Err ErrInvalidKeySize
      else let rec = (if length rec \<ge> 4 + 12 + 16 \<and> unat (get_u32 (take 4 rec)) + 4 = length rec then drop 4 rec else rec)
           in if length rec < 12 + 16 then Err ErrShortCiphertext
              else case Open_aead ci key (take 12 rec) (drop 12 rec) of
                     None \<Rightarrow> Err ErrAuth | Some p \<Rightarrow> Ok p)"

section \<open>Records\<close>

definition rec_bytes :: "bytes \<Rightarrow> bytes" where
  "rec_bytes body = put_u32 (of_nat (length body)) @ body"

definition ok_body :: "bytes \<Rightarrow> bool" where
  "ok_body body \<longleftrightarrow> 0 < length body \<and> length body + 4 \<le> replayBufLen"

text \<open>What is left of a record that was only written in part.\<close>

definition torn :: "bytes \<Rightarrow> bool" where
  "torn t \<longleftrightarrow> (\<exists>body k. ok_body body \<and> k < length (rec_bytes body) \<and> t = take k (rec_bytes body))"

text \<open>What a replay does with one record: an undecryptable record is skipped, a handled one counted.\<close>

definition replay_step :: "cipher \<Rightarrow> bytes option \<Rightarrow> ('s \<Rightarrow> bytes \<Rightarrow> 's \<times> 'e option) \<Rightarrow> 's \<times> nat \<Rightarrow> bytes \<Rightarrow>
    ('s \<times> nat) \<times> 'e option" where
  "replay_step ci gcm handler st body =
     (case st of (s, n) \<Rightarrow>
        case decryptReplayRecord ci gcm body of None \<Rightarrow> ((s, n), None)
        | Some plain \<Rightarrow>
            (case handler s plain of (s', Some e) \<Rightarrow> ((s', n), Some e) | (s', None) \<Rightarrow> ((s', n + 1), None)))"

definition pos_step :: "cipher \<Rightarrow> bytes option \<Rightarrow> ('s \<Rightarrow> bytes \<Rightarrow> 's \<times> 'e option) \<Rightarrow> 's \<times> nat \<times> nat \<Rightarrow> bytes \<Rightarrow>
    ('s \<times> nat \<times> nat) \<times> 'e option" where
  "pos_step ci gcm handler st body =
     (case st of (s, n, k) \<Rightarrow>
        case replay_step ci gcm handler (s, n) body of
          ((s', n'), Some e) \<Rightarrow> ((s', n', k), Some e)
        | ((s', n'), None) \<Rightarrow> ((s', n', k + length (rec_bytes body)), None))"

definition decode_at :: "cipher \<Rightarrow> bytes option \<Rightarrow> ('s \<Rightarrow> bytes \<Rightarrow> 's \<times> 'e option) \<Rightarrow> 's \<times> nat \<times> nat \<Rightarrow> bytes \<Rightarrow>
    nat \<times> nat \<times> 'e option \<times> 's" where
  "decode_at ci gcm handler st b =
     (case st of (s, n, k) \<Rightarrow> case decode_loop ci b gcm handler s n 0 of (c, r) \<Rightarrow> (k + c, r))"

lemma length_rec_bytes [simp]: "length (rec_bytes b) = 4 + length b"
  by (simp add: rec_bytes_def)

lemma rec_bytes_not_Nil [simp]: "rec_bytes b \<noteq> []"
  using length_rec_bytes [of b] by (metis add_is_0 list.size(3) numeral_neq_zero)

lemma slice_shift [simp]: "slice (p @ b) (length p + i) (length p + j) = slice b i j"
  by (cases "i \<le> j") (simp_all add: slice_append_right slice_def)

lemma resync_scan_shift:
  "m \<le> length b \<Longrightarrow> resync_scan (p @ b) (length p + i) (length p + m) = length p + resync_scan b i m"
proof (induction b i m rule: resync_scan.induct)
  case (1 b i m)
  have s: "slice (p @ b) (length p + i) (length p + i + 4) = slice b i (i + 4)"
    using slice_shift [of p b i "i + 4"] by (simp add: add.assoc)
  have n: "(p @ b) ! (length p + i + 4) = b ! (i + 4)"
    by (simp add: nth_append add.assoc)
  show ?case
    using 1 by (subst (1 2) resync_scan.simps) (simp add: Let_def s n)
qed

lemma resync_shift: "resyncToNextRecord (p @ b) (length p + k) = length p + resyncToNextRecord b k"
  using resync_scan_shift [of "if k + 1024 > length b then length b else k + 1024" b p "k + 1"]
  by (cases "k + 1024 > length b") (simp_all add: resyncToNextRecord_def Let_def add.assoc)

lemma decode_loop_shift:
  "decode_loop ci (p @ b) g h s n (length p + k) = (case decode_loop ci b g h s n k of (c, r) \<Rightarrow> (length p + c, r))"
proof (induction ci b g h s n k rule: decode_loop.induct)
  case (1 ci b g h s n k)
  have s: "slice (p @ b) (length p + k) (length p + k + 4) = slice b k (k + 4)"
    "slice (p @ b) (length p + k + 4) (length p + k + 4 + l) = slice b (k + 4) (k + 4 + l)" for l
    using slice_shift [of p b k "k + 4"] slice_shift [of p b "k + 4" "k + 4 + l"] by (simp_all add: add.assoc)
  show ?case
    using 1 by (subst (1 2) decode_loop.simps)
      (simp add: Let_def s resync_shift add.assoc split: option.split prod.split)
qed

lemma decode_record:
  assumes "ok_body body"
  shows "decode_at ci g h st (rec_bytes body @ r) =
    (case pos_step ci g h st body of
       ((s', n', k'), Some e) \<Rightarrow> (k', n', Some e, s')
     | (st', None) \<Rightarrow> decode_at ci g h st' r)"
proof -
  obtain s n k where st: "st = (s, n, k)" by (cases st)
  have len: "unat (of_nat (length body) :: u32) = length body"
    using assms by (simp add: ok_body_def replayBufLen_def)
  have good: "\<not> bad_len (length body)"
    using assms by (simp add: ok_body_def bad_len_def maxRecLen_def replayBufLen_def)
  have hdr: "get_u32 (slice (rec_bytes body @ r) 0 4) = of_nat (length body)"
    by (simp add: rec_bytes_def slice_append_left)
  have bdy: "slice (rec_bytes body @ r) 4 (4 + length body) = body"
    using slice_append_right [of "put_u32 (of_nat (length body))" 4 "body @ r" "4 + length body"]
    by (simp add: rec_bytes_def slice_append_left)
  have cont: "decode_loop ci (rec_bytes body @ r) g h s' n' (4 + length body) =
      (case decode_loop ci r g h s' n' 0 of (c, x) \<Rightarrow> (4 + length body + c, x))" for s' n'
    using decode_loop_shift [of ci "rec_bytes body" r g h s' n' 0] by simp
  have "decode_loop ci (rec_bytes body @ r) g h s n 0 =
      (case decryptReplayRecord ci g body of
         None \<Rightarrow> decode_loop ci (rec_bytes body @ r) g h s n (4 + length body)
       | Some plain \<Rightarrow>
           (case h s plain of (s', Some e) \<Rightarrow> (0, n, Some e, s')
            | (s', None) \<Rightarrow> decode_loop ci (rec_bytes body @ r) g h s' (n + 1) (4 + length body)))"
    using hdr bdy len good
    by (subst decode_loop.simps) (simp add: Let_def split: option.split prod.split)
  then show ?thesis
    unfolding cont st
    by (auto simp: decode_at_def pos_step_def replay_step_def split: option.splits prod.splits)
qed

interpretation aal: record_loop rec_bytes ok_body "pos_step ci g h"
    "\<lambda>st e. case st of (s, n, k) \<Rightarrow> (k, n, Some e, s)" "decode_at ci g h" for ci g h
proof
  fix body st r assume "ok_body body"
  then show "decode_at ci g h st (rec_bytes body @ r) =
    (case pos_step ci g h st body of
       (s', Some e) \<Rightarrow> (case s' of (s, n, k) \<Rightarrow> (k, n, Some e, s))
     | (s', None) \<Rightarrow> decode_at ci g h s' r)"
    by (simp only: decode_record) (simp split: prod.split option.split)
qed

lemma iterate_pos_step:
  "iterate (replay_step ci g h) (s, n) bs = ((s', n'), e) \<Longrightarrow>
     \<exists>k'. iterate (pos_step ci g h) (s, n, k) bs = ((s', n', k'), e) \<and>
       (e = None \<longrightarrow> k' = k + length (concat (map rec_bytes bs)))"
proof (induction bs arbitrary: s n k)
  case (Cons b bs)
  obtain s1 n1 e1 where r: "replay_step ci g h (s, n) b = ((s1, n1), e1)"
    by (metis prod.exhaust)
  show ?case
  proof (cases e1)
    case None
    then show ?thesis
      using Cons.IH [of s1 n1 "k + length (rec_bytes b)"] Cons.prems r
      by (auto simp: pos_step_def add.assoc)
  qed (use Cons.prems r in \<open>auto simp: pos_step_def\<close>)
qed simp

lemma decode_records:
  assumes "list_all ok_body bs"
  shows "\<exists>k. decode_loop ci (concat (map rec_bytes bs) @ r) g h s n 0 =
    (case iterate (replay_step ci g h) (s, n) bs of
       ((s', n'), Some e) \<Rightarrow> (k, n', Some e, s')
     | ((s', n'), None) \<Rightarrow>
         (case decode_loop ci r g h s' n' 0 of (c, x) \<Rightarrow> (length (concat (map rec_bytes bs)) + c, x)))"
proof -
  have "decode_loop ci (concat (map rec_bytes bs) @ r) g h s n 0 =
      decode_at ci g h (s, n, 0) (concat (map rec_bytes bs) @ r)"
    by (simp add: decode_at_def split: prod.split)
  also have "\<dots> = (case iterate (pos_step ci g h) (s, n, 0) bs of
      (st, Some e) \<Rightarrow> (case st of (s, n, k) \<Rightarrow> (k, n, Some e, s)) | (st, None) \<Rightarrow> decode_at ci g h st r)"
    by (rule aal.loop_concat [OF assms])
  finally have eq: "decode_loop ci (concat (map rec_bytes bs) @ r) g h s n 0 = \<dots>" .
  obtain s' n' e where it: "iterate (replay_step ci g h) (s, n) bs = ((s', n'), e)"
    by (metis prod.exhaust)
  from iterate_pos_step [OF it, of 0] eq it show ?thesis
    by (cases e) (auto simp: decode_at_def)
qed

lemma torn_stops:
  assumes "torn t"
  shows "decode_loop ci t g h s n 0 = (0, n, None, s)" "length t < replayBufLen"
proof -
  obtain body k where b: "ok_body body" "k < 4 + length body" "t = take k (rec_bytes body)"
    using assms by (auto simp: torn_def)
  have len: "unat (of_nat (length body) :: u32) = length body"
    using b(1) by (simp add: ok_body_def replayBufLen_def)
  have good: "\<not> bad_len (length body)"
    using b(1) by (simp add: ok_body_def bad_len_def maxRecLen_def replayBufLen_def)
  have lt: "length t = k" using b by simp
  have hdr: "4 \<le> k \<Longrightarrow> get_u32 (slice t 0 4) = of_nat (length body)"
    using b(3) by (simp add: rec_bytes_def slice_zero min_def)
  show "decode_loop ci t g h s n 0 = (0, n, None, s)"
  proof (cases "k < 4")
    case False
    then have "unat (get_u32 (slice t 0 (0 + 4))) = length body" using hdr len by simp
    then show ?thesis using b(2) lt good False by (subst decode_loop.simps) (simp add: Let_def)
  qed (subst decode_loop.simps, simp add: lt Let_def)
  show "length t < replayBufLen" using b by (simp add: ok_body_def)
qed

lemma torn_no_record:
  assumes "torn t" "ok_body body"
  shows "t \<noteq> rec_bytes body @ r"
proof
  assume "t = rec_bytes body @ r"
  then have "decode_loop ci t None (\<lambda>s p. (s, Some ())) () 0 0 = (0, 0, Some (), ())" for ci
    using decode_record [OF assms(2), of ci None "\<lambda>s p. (s, Some ())" "((), 0, 0)" r]
    by (simp add: decode_at_def pos_step_def replay_step_def decryptReplayRecord_def split: prod.splits)
  from this [of undefined] torn_stops(1) [OF assms(1), of undefined None "\<lambda>s p. (s, Some ())" "()" 0]
  show False by simp
qed

lemma torn_split:
  assumes "list_all ok_body bs" "torn t" "u @ v = concat (map rec_bytes bs) @ t"
  shows "\<exists>bs1 bs2 u'. bs = bs1 @ bs2 \<and> u = concat (map rec_bytes bs1) @ u' \<and> torn u' \<and>
    u' @ v = concat (map rec_bytes bs2) @ t"
  using assms
proof (induction bs arbitrary: u)
  case Nil
  obtain body k where b: "ok_body body" "k < length (rec_bytes body)" "t = take k (rec_bytes body)"
    using Nil.prems(2) by (auto simp: torn_def)
  have "u = take (length u) t" using Nil.prems(3) by (metis append_Nil append_eq_conv_conj concat.simps(1) list.simps(8))
  then have "u = take (min (length u) k) (rec_bytes body)" using b(3) by (simp add: take_take)
  then have "torn u" using b by (auto simp: torn_def intro!: exI [of _ body] exI [of _ "min (length u) k"])
  then show ?case using Nil.prems(3) by auto
next
  case (Cons b bs)
  show ?case
  proof (cases "length u < length (rec_bytes b)")
    case True
    then have "u = take (length u) (rec_bytes b)"
      using Cons.prems(3) by (simp add: append_eq_append_conv_if)
    then have "torn u" using Cons.prems(1) True by (auto simp: torn_def)
    then show ?thesis using Cons.prems(3) by (intro exI [of _ "[]"] exI [of _ "b # bs"] exI [of _ u]) simp
  next
    case False
    define u2 where "u2 = drop (length (rec_bytes b)) u"
    have "take (length (rec_bytes b)) (u @ v) = take (length (rec_bytes b)) (rec_bytes b @ concat (map rec_bytes bs) @ t)"
      using Cons.prems(3) by simp
    then have "take (length (rec_bytes b)) u = rec_bytes b" using False by simp
    then have u: "u = rec_bytes b @ u2" unfolding u2_def by (metis append_take_drop_id)
    then have "u2 @ v = concat (map rec_bytes bs) @ t" using Cons.prems(3) by simp
    then obtain bs1 bs2 u' where "bs = bs1 @ bs2" "u2 = concat (map rec_bytes bs1) @ u'" "torn u'"
      "u' @ v = concat (map rec_bytes bs2) @ t"
      using Cons.IH [of u2] Cons.prems by auto
    then show ?thesis using u by (intro exI [of _ "b # bs1"] exI [of _ bs2] exI [of _ u']) simp
  qed
qed

section \<open>Replaying a file in chunks\<close>

lemma replay_loop_records:
  assumes "list_all ok_body bs" "torn t" "buf @ rest = concat (map rec_bytes bs) @ t" "torn buf"
  shows "replay_loop ci g h rs rest buf n s =
    (case iterate (replay_step ci g h) (s, n) bs of ((s', n'), e) \<Rightarrow> Some (n', e, s'))"
  using assms
proof (induction "length rest" arbitrary: rs rest buf n s bs rule: less_induct)
  case less
  have space: "replayBufLen - length buf > 0" using torn_stops(2) [OF less.prems(4)] by simp
  obtain m eof where rd: "read_size (case rs of [] \<Rightarrow> 0 | r # _ \<Rightarrow> r) (replayBufLen - length buf) rest = (m, eof)"
    by fastforce
  show ?case
  proof (cases "rest = []")
    case True
    then have "bs = []"
      using less.prems torn_no_record [OF less.prems(4)] by (cases bs) auto
    then show ?thesis
      using True space torn_stops(1) [OF less.prems(4), of ci g h s n]
      by (subst replay_loop.simps) (simp add: read_size_def decodeReplayChunk_def)
  next
    case False
    then have m: "0 < m" "\<not> eof" "m \<le> length rest" using rd space by (auto simp: read_size_def)
    have "(buf @ take m rest) @ drop m rest = concat (map rec_bytes bs) @ t" using less.prems(3) by simp
    then obtain bs1 bs2 u where sp: "bs = bs1 @ bs2" "buf @ take m rest = concat (map rec_bytes bs1) @ u" "torn u"
      "u @ drop m rest = concat (map rec_bytes bs2) @ t"
      using torn_split [OF less.prems(1,2)] by blast
    obtain s' n' e where it: "iterate (replay_step ci g h) (s, n) bs1 = ((s', n'), e)" by (metis prod.exhaust)
    have "list_all ok_body bs1" using less.prems(1) sp(1) by simp
    from decode_records [OF this, of ci u g h s n]
    obtain k where "decode_loop ci (concat (map rec_bytes bs1) @ u) g h s n 0 =
        (case iterate (replay_step ci g h) (s, n) bs1 of
           ((s', n'), Some e) \<Rightarrow> (k, n', Some e, s')
         | ((s', n'), None) \<Rightarrow>
             (case decode_loop ci u g h s' n' 0 of (c, x) \<Rightarrow> (length (concat (map rec_bytes bs1)) + c, x)))"
      by blast
    then have dec: "decode_loop ci (buf @ take m rest) g h s n 0 =
        (case e of Some e \<Rightarrow> (k, n', Some e, s') | None \<Rightarrow> (length (concat (map rec_bytes bs1)), n', None, s'))"
      unfolding it sp(2) torn_stops(1) [OF sp(3)] by (cases e) simp_all
    show ?thesis
    proof (cases e)
      case None
      have "replay_loop ci g h rs rest buf n s = replay_loop ci g h (tl rs) (drop m rest) u n' s'"
        using None dec sp(2) m(2) by (subst replay_loop.simps) (simp add: rd decodeReplayChunk_def)
      also have "\<dots> = (case iterate (replay_step ci g h) (s', n') bs2 of ((s', n'), e) \<Rightarrow> Some (n', e, s'))"
        by (rule less.hyps) (use m less.prems(1,2) sp in auto)
      finally show ?thesis using it None by (simp add: sp(1) iterate_append)
    next
      case (Some x)
      then have "replay_loop ci g h rs rest buf n s = Some (n', e, s')"
        using dec by (subst replay_loop.simps) (simp add: rd decodeReplayChunk_def)
      then show ?thesis using it Some by (simp add: sp(1) iterate_append)
    qed
  qed
qed

lemma torn_Nil [simp]: "torn []"
  by (auto simp: torn_def ok_body_def replayBufLen_def intro!: exI [of _ "[0]"] exI [of _ 0])

lemma Replay_records:
  assumes "list_all ok_body bs" "torn t" "path \<noteq> []" "fs path = Some (concat (map rec_bytes bs) @ t)"
    "newReplayCipher key = Ok gcm"
  shows "Replay ci True rs fs path key h s =
    Some (case iterate (replay_step ci gcm h) (s, 0) bs of ((s', n'), e) \<Rightarrow> Ok (n', e, s'))"
proof (cases "concat (map rec_bytes bs) @ t = []")
  case True
  then have "bs = []" by (cases bs) auto
  then show ?thesis using assms True by (simp add: Replay_def)
next
  case False
  then show ?thesis
    using assms replay_loop_records [OF assms(1,2), of "[]" "concat (map rec_bytes bs) @ t" ci gcm h rs 0 s]
    by (auto simp: Replay_def split: prod.split)
qed

section \<open>What is written\<close>

definition wf_log :: "Log \<Rightarrow> bool" where
  "wf_log l \<longleftrightarrow> length (l_buf l) = poolBufLen \<and> length (l_prefix l) = 4"

definition log_nonce :: "Log \<Rightarrow> bytes" where
  "log_nonce l = l_prefix l @ put_be_u64 (l_nonce l + 1)"

definition body_of :: "cipher \<Rightarrow> Log \<Rightarrow> bytes \<Rightarrow> bytes" where
  "body_of ci l frame =
     (case l_aead l of None \<Rightarrow> frame | Some key \<Rightarrow> log_nonce l @ Seal ci key (log_nonce l) frame)"

definition loggable :: "bytes \<Rightarrow> bool" where
  "loggable frame \<longleftrightarrow> 0 < length frame \<and> length frame \<le> 65504"

lemma length_put_be_u64 [simp]: "length (put_be_u64 x) = 8"
  by (simp add: put_be_u64_def)

lemma WriteFrame_eq:
  assumes ci: "aead_ok ci" and l: "wf_log l" and f: "loggable frame" and fl: "l_file l = Some path"
    and fs: "fs path = Some old"
  shows "\<exists>b. WriteFrame ci None (Some l) fs frame =
    (Ok (), Some (l\<lparr>l_nonce := l_nonce l + (if l_aead l = None then 0 else 1), l_buf := b\<rparr>),
     fs(path \<mapsto> old @ rec_bytes (body_of ci l frame))) \<and> length b = poolBufLen"
proof (cases "l_aead l")
  case None
  have "unat (of_nat (length frame) :: u32) = length frame" using f by (simp add: loggable_def)
  then show ?thesis
    using None assms
    by (auto simp: WriteFrame_def file_write_def wf_log_def poolBufLen_def loggable_def Let_def fill_simps
        go_slice_def slice_zero rec_bytes_def body_of_def write_at_def)
next
  case (Some key)
  define out where "out = Seal ci key (log_nonce l) frame"
  have lo: "length out = length frame + 16" using ci by (simp add: out_def aead_ok_def)
  have u: "unat (of_nat (12 + length out) :: u32) = 12 + length out"
    by (rule unat_of_nat_u32) (use f lo in \<open>simp add: loggable_def\<close>)
  define b1 where "b1 = write_at (write_at (l_buf l) 4 (take 4 (l_prefix l))) 8 (put_be_u64 (l_nonce l + 1))"
  have b1: "b1 = take 4 (l_buf l) @ log_nonce l @ drop 16 (l_buf l)"
    using l by (simp add: b1_def wf_log_def poolBufLen_def log_nonce_def write_at_def)
  have ln: "length (log_nonce l) = 12" using l by (simp add: wf_log_def log_nonce_def)
  have lb: "length b1 = 65552" "length (l_buf l) = 65552"
    using l by (simp_all add: b1 wf_log_def poolBufLen_def ln)
  have n: "slice b1 4 16 = log_nonce l"
    using ln lb by (simp add: b1 slice_def)
  define hdr where "hdr = put_u32 (of_nat (12 + length out))"
  have b3: "write_at (write_at b1 16 out) 0 hdr = hdr @ log_nonce l @ out @ drop (16 + length out) (l_buf l)"
    using lb ln by (simp add: b1 write_at_def hdr_def add.commute)
  have data: "go_slice (hdr @ log_nonce l @ out @ drop (16 + length out) (l_buf l)) 0 (16 + length out)
      = (Ok (hdr @ log_nonce l @ out) :: (aal_error, bytes) res)"
    using lb ln lo f by (simp add: go_slice_def slice_zero hdr_def loggable_def)
  have le: "length out \<le> 65536" using lo f by (simp add: loggable_def)
  have "WriteFrame ci None (Some l) fs frame =
      (Ok (), Some (l\<lparr>l_nonce := l_nonce l + 1, l_buf := hdr @ log_nonce l @ out @ drop (16 + length out) (l_buf l)\<rparr>),
       fs(path \<mapsto> old @ hdr @ log_nonce l @ out))"
    using Some fl fs le
    by (simp add: WriteFrame_def Let_def b1_def [symmetric] n out_def [symmetric] lb hdr_def [symmetric] b3 u data
        file_write_def del: of_nat_add)
  moreover have "rec_bytes (body_of ci l frame) = hdr @ log_nonce l @ out"
    by (simp add: rec_bytes_def body_of_def Some out_def hdr_def ln)
  ultimately show ?thesis
    using Some lb ln lo f by (auto simp: hdr_def poolBufLen_def loggable_def)
qed

lemma body_of_ok:
  assumes "aead_ok ci" "wf_log l" "loggable frame"
  shows "ok_body (body_of ci l frame)" "decryptReplayRecord ci (l_aead l) (body_of ci l frame) = Some frame"
proof -
  have "length (log_nonce l) = 12" using assms(2) by (simp add: wf_log_def log_nonce_def)
  moreover have "length (Seal ci k n frame) = length frame + 16" "Open_aead ci k n (Seal ci k n frame) = Some frame" for k n
    using assms(1) by (simp_all add: aead_ok_def)
  ultimately show "ok_body (body_of ci l frame)"
    "decryptReplayRecord ci (l_aead l) (body_of ci l frame) = Some frame"
    using assms(3)
    by (auto simp: ok_body_def body_of_def loggable_def replayBufLen_def decryptReplayRecord_def split: option.split)
qed

text \<open>Writing frames one after the other.\<close>

definition write_one :: "cipher \<Rightarrow> bytes \<Rightarrow> Log option \<times> fs \<Rightarrow> Log option \<times> fs" where
  "write_one ci frame st = (case st of (ol, fs) \<Rightarrow> snd (WriteFrame ci None ol fs frame))"

lemma write_frames_records:
  assumes "aead_ok ci" "wf_log l" "list_all loggable frames" "l_file l = Some path" "fs path = Some old"
  shows "\<exists>l' bs. fold (write_one ci) frames (Some l, fs) = (Some l', fs(path \<mapsto> old @ concat (map rec_bytes bs))) \<and>
    wf_log l' \<and> l_aead l' = l_aead l \<and> l_prefix l' = l_prefix l \<and> l_file l' = l_file l \<and>
    l_nonce l' = l_nonce l + (if l_aead l = None then 0 else of_nat (length frames)) \<and>
    list_all2 (\<lambda>b f. ok_body b \<and> decryptReplayRecord ci (l_aead l) b = Some f) bs frames"
  using assms
proof (induction frames arbitrary: l fs old)
  case Nil
  then show ?case by (intro exI [of _ l] exI [of _ "[]"]) (auto simp: fun_upd_idem)
next
  case (Cons f frames)
  have f: "loggable f" "list_all loggable frames" using Cons.prems(3) by auto
  obtain b where w: "WriteFrame ci None (Some l) fs f =
      (Ok (), Some (l\<lparr>l_nonce := l_nonce l + (if l_aead l = None then 0 else 1), l_buf := b\<rparr>),
       fs(path \<mapsto> old @ rec_bytes (body_of ci l f)))" "length b = poolBufLen"
    using WriteFrame_eq [where fs = fs and old = old, OF Cons.prems(1,2) f(1) Cons.prems(4,5)] by blast
  define l1 where "l1 = l\<lparr>l_nonce := l_nonce l + (if l_aead l = None then 0 else 1), l_buf := b\<rparr>"
  define fs1 where "fs1 = fs(path \<mapsto> old @ rec_bytes (body_of ci l f))"
  have w1: "write_one ci f (Some l, fs) = (Some l1, fs1)" using w by (simp add: write_one_def l1_def fs1_def)
  have up: "fs1(path \<mapsto> x) = fs(path \<mapsto> x)" for x by (simp add: fs1_def)
  have fs1: "fs1 path = Some (old @ rec_bytes (body_of ci l f))" by (simp add: fs1_def)
  have l1: "wf_log l1" "l_file l1 = Some path" using Cons.prems(2,4) w(2) by (simp_all add: l1_def wf_log_def)
  obtain l' bs where IH: "fold (write_one ci) frames (Some l1, fs1) =
      (Some l', fs1(path \<mapsto> (old @ rec_bytes (body_of ci l f)) @ concat (map rec_bytes bs)))"
    "wf_log l'" "l_aead l' = l_aead l1" "l_prefix l' = l_prefix l1" "l_file l' = l_file l1"
    "l_nonce l' = l_nonce l1 + (if l_aead l1 = None then 0 else of_nat (length frames))"
    "list_all2 (\<lambda>b f. ok_body b \<and> decryptReplayRecord ci (l_aead l1) b = Some f) bs frames"
    using Cons.IH [of l1 fs1 "old @ rec_bytes (body_of ci l f)"] Cons.prems(1) l1 f(2) fs1 by blast
  show ?case
    using IH body_of_ok [OF Cons.prems(1,2) f(1)]
    by (intro exI [of _ l'] exI [of _ "body_of ci l f # bs"]; cases "l_aead l")
      (simp_all add: w1 up, simp_all add: l1_def fun_eq_iff)
qed

text \<open>What the handler is to see of a list of frames.\<close>

definition count_step :: "('s \<Rightarrow> bytes \<Rightarrow> 's \<times> 'e option) \<Rightarrow> 's \<times> nat \<Rightarrow> bytes \<Rightarrow> ('s \<times> nat) \<times> 'e option" where
  "count_step handler st frame =
     (case st of (s, n) \<Rightarrow>
        case handler s frame of (s', Some e) \<Rightarrow> ((s', n), Some e) | (s', None) \<Rightarrow> ((s', n + 1), None))"

lemma replay_steps_frames:
  "list_all2 (\<lambda>b f. ok_body b \<and> decryptReplayRecord ci g b = Some f) bs frames \<Longrightarrow>
     iterate (replay_step ci g h) st bs = iterate (count_step h) st frames"
  by (induction arbitrary: st rule: list_all2_induct)
    (simp_all add: replay_step_def count_step_def split: prod.split option.split)

section \<open>Properties\<close>

lemma written_frames_replay:
  assumes "aead_ok ci" "length rnd = 4" "fs path = None" "path \<noteq> []" "list_all loggable frames" "torn t"
    and opn: "OpenEncrypted True rnd fs path key = (Ok l, fs1)"
    and wr: "fold (write_one ci) frames (Some l, fs1) = (ol, fs2)"
  shows "Replay ci True rs (fs2(path \<mapsto> the (fs2 path) @ t)) path key h s =
    Some (case iterate (count_step h) (s, 0) frames of ((s', n'), e) \<Rightarrow> Ok (n', e, s'))"
proof -
  have l: "wf_log l" "l_file l = Some path" "fs1 path = Some []" "newReplayCipher key = Ok (l_aead l)"
    using opn assms(2,3) by (auto simp: OpenEncrypted_def wf_log_def newReplayCipher_def Let_def split: if_splits)
  obtain bs where bs: "fs2 path = Some (concat (map rec_bytes bs))"
    "list_all2 (\<lambda>b f. ok_body b \<and> decryptReplayRecord ci (l_aead l) b = Some f) bs frames"
    using write_frames_records [where fs = fs1 and old = "[]", OF assms(1) l(1) assms(5) l(2,3)] wr by auto
  have "list_all ok_body bs" using bs(2) by (auto simp: list_all2_conv_all_nth list_all_length)
  then show ?thesis
    using Replay_records [OF _ assms(6,4) _ l(4), of bs "fs2(path \<mapsto> the (fs2 path) @ t)" ci rs h s]
      replay_steps_frames [OF bs(2), of h "(s, 0)"] bs(1) by simp
qed

text \<open>C10: The log is durable and complete: a new log, plain or encrypted, that had frames written to it is
  replayed, whatever the sizes of the reads, by running the handler on exactly those frames in order; a
  record that a crash left unfinished at the end of the file changes nothing. The frames are at most
  65504 bytes long, so that a record fits the replay buffer.\<close>

theorem aal_write_replay:
  assumes "aead_ok ci" "length rnd = 4" "fs path = None" "path \<noteq> []" "list_all loggable frames" "torn t"
    and opn: "OpenEncrypted True rnd fs path key = (Ok l, fs1)"
    and wr: "fold (write_one ci) frames (Some l, fs1) = (ol, fs2)"
  shows "Replay ci True rs (fs2(path \<mapsto> the (fs2 path) @ t)) path key h s =
    Some (case iterate (count_step h) (s, 0) frames of ((s', n'), e) \<Rightarrow> Ok (n', e, s'))"
  by (rule written_frames_replay [OF assms])

definition toy_cipher :: cipher where
  "toy_cipher = \<lparr>Seal = (\<lambda>k n p. p @ replicate 16 0), Open_aead = (\<lambda>k n c. Some (take (length c - 16) c))\<rparr>"

lemma toy_cipher_ok: "aead_ok toy_cipher"
  by (simp add: aead_ok_def toy_cipher_def)

theorem aal_write_replay_witness:
  "\<exists>l fs1 ol fs2. OpenEncrypted True [1, 2, 3, 4] (\<lambda>_. None) [9] (replicate 32 5) = (Ok l, fs1) \<and>
    fold (write_one toy_cipher) [[7, 8], [6]] (Some l, fs1) = (ol, fs2) \<and>
    Replay toy_cipher True [3] (fs2([9] \<mapsto> the (fs2 [9]) @ [])) [9] (replicate 32 5)
      (\<lambda>fs f. (fs @ [f], None :: unit option)) [] = Some (Ok (2, None, [[7, 8], [6]]))"
proof -
  obtain l fs1 where opn: "OpenEncrypted True [1, 2, 3, 4] (\<lambda>_. None) [9] (replicate 32 5) = (Ok l, fs1)"
    by (simp add: OpenEncrypted_def)
  obtain ol fs2 where wr: "fold (write_one toy_cipher) [[7, 8], [6]] (Some l, fs1) = (ol, fs2)"
    by fastforce
  have "list_all loggable [[7, 8], [6]]" by (simp add: loggable_def)
  from aal_write_replay [OF toy_cipher_ok _ _ _ this torn_Nil opn wr, of "[3]" "\<lambda>fs f. (fs @ [f], None :: unit option)" "[]"]
  show ?thesis using opn wr by (simp add: count_step_def)
qed

text \<open>A session never uses a nonce twice for its key: the nonces of any two of its first \<open>2^64\<close> writes
  are different.\<close>

theorem aal_nonces_distinct:
  assumes "aead_ok ci" "wf_log l" "l_aead l = Some key" "l_file l = Some path" "fs path = Some old"
    and "list_all loggable frames" "length frames \<le> 2 ^ 64" "i < j" "j < length frames"
    and "fold (write_one ci) (take i frames) (Some l, fs) = (Some li, fsi)"
    and "fold (write_one ci) (take j frames) (Some l, fs) = (Some lj, fsj)"
  shows "log_nonce li \<noteq> log_nonce lj"
proof -
  have sub: "list_all loggable (take n frames)" for n
    using assms(6) by (auto simp: list_all_iff dest: in_set_takeD)
  have n: "l_nonce li = l_nonce l + of_nat i" "l_nonce lj = l_nonce l + of_nat j"
    "length (l_prefix li) = 4" "length (l_prefix lj) = 4"
    using write_frames_records [where fs = fs and old = old, OF assms(1,2) sub assms(4,5), of i]
      write_frames_records [where fs = fs and old = old, OF assms(1,2) sub assms(4,5), of j]
      assms(3,8-11) by (auto simp: wf_log_def)
  have "(of_nat i :: u64) \<noteq> of_nat j"
  proof
    assume "(of_nat i :: u64) = of_nat j"
    then have "unat (of_nat i :: u64) = unat (of_nat j :: u64)" by (rule arg_cong)
    then show False using assms(7-9) by (simp add: unat_of_nat_u64)
  qed
  then show ?thesis
    using n by (simp add: log_nonce_def append_eq_append_conv put_be_u64_inject)
qed

theorem aal_nonces_distinct_witness:
  "\<exists>l lj fs fsj. fold (write_one toy_cipher) [[7]] (Some l, fs) = (Some lj, fsj) \<and> log_nonce l \<noteq> log_nonce lj"
proof -
  define l where "l = \<lparr>l_file = Some [9], l_aead = Some (replicate 32 5), l_buf = replicate poolBufLen 0,
      l_prefix = [1, 2, 3, 4], l_nonce = 0\<rparr>"
  define fs :: fs where "fs = [[9] \<mapsto> []]"
  have l: "wf_log l" "l_aead l = Some (replicate 32 5)" "l_file l = Some [9]" "fs [9] = Some []"
    "list_all loggable [[7], [8]]"
    by (simp_all add: l_def wf_log_def fs_def loggable_def)
  obtain lj fsj where w: "fold (write_one toy_cipher) [[7]] (Some l, fs) = (Some lj, fsj)"
    using write_frames_records [where fs = fs and old = "[]" and frames = "[[7]]", OF toy_cipher_ok l(1) _ l(3,4)]
    by (auto simp: loggable_def)
  have "log_nonce l \<noteq> log_nonce lj"
    by (rule aal_nonces_distinct [where fs = fs and old = "[]" and frames = "[[7], [8]]" and i = 0 and j = 1
          and path = "[9]" and l = l, OF toy_cipher_ok l]) (use w in simp_all)
  then show ?thesis using w by blast
qed

section \<open>Records that do not fit\<close>

text \<open>The replay keeps what its handler keeps.\<close>

lemma decode_loop_keeps:
  "(\<And>s x. I s \<Longrightarrow> I (fst (h s x))) \<Longrightarrow> I s \<Longrightarrow> I (snd (snd (snd (decode_loop ci buf gcm h s n consumed))))"
proof (induction ci buf gcm h s n consumed rule: decode_loop.induct)
  case (1 ci buf gcm h s n consumed)
  have h: "h s x = (s1, e) \<Longrightarrow> I s1" for x s1 e using "1.prems" by (metis fst_conv)
  have next_record: "I (snd (snd (snd (decode_loop ci buf gcm h s1 (n + 1) (consumed + (4 + unat (get_u32 (slice buf consumed (consumed + 4)))))))))"
    if "consumed < length buf" "\<not> length buf - consumed < 4" "\<not> bad_len (unat (get_u32 (slice buf consumed (consumed + 4))))"
      "\<not> length buf - consumed < 4 + unat (get_u32 (slice buf consumed (consumed + 4)))"
      "decryptReplayRecord ci gcm (slice buf (consumed + 4) (consumed + 4 + unat (get_u32 (slice buf consumed (consumed + 4))))) = Some x"
      "h s x = (s1, None)" for x s1
    using "1.IH"(3) [OF _ refl _ refl _ _ that(5) that(6) [symmetric] refl] that h [OF that(6)] "1.prems"(1) by simp
  show ?case
    using "1.IH"(1,2) "1.prems" next_record
    by (subst decode_loop.simps) (auto simp: Let_def split: option.split prod.split dest: h)
qed

lemma replay_loop_keeps:
  assumes "\<And>s x. I s \<Longrightarrow> I (fst (h s x))" "I s" "replay_loop ci gcm h rs rest buf n s = Some y"
  shows "I (snd (snd y))"
proof -
  have "(\<forall>s x. I s \<longrightarrow> I (fst (h s x))) \<and> I s \<longrightarrow> I (snd (snd y))"
  proof (rule replay_loop.raw_induct [where P = "\<lambda>_ _ h _ _ _ _ s y.
        (\<forall>s x. I s \<longrightarrow> I (fst (h s x))) \<and> I s \<longrightarrow> I (snd (snd y))", OF _ assms(3)], rule impI, elim conjE)
    fix loop ci g h rs rest buf n s y
    assume IH: "\<And>ci g h rs rest buf n s y. loop ci g h rs rest buf n s = Some y \<Longrightarrow>
        (\<forall>s x. I s \<longrightarrow> I (fst (h s x))) \<and> I s \<longrightarrow> I (snd (snd y))"
      and run: "(case read_size (case rs of [] \<Rightarrow> 0 | r # _ \<Rightarrow> r) (replayBufLen - length buf) rest of (n', eof) \<Rightarrow>
         let buf = buf @ take n' rest; rest = drop n' rest in
         case decodeReplayChunk ci buf g h s n of (consumed, newCount, handlerErr, s) \<Rightarrow>
           (case handlerErr of
              Some e \<Rightarrow> Some (newCount, Some e, s)
            | None \<Rightarrow>
                if eof then Some (newCount, None, s)
                else loop ci g h (tl rs) rest (drop consumed buf) newCount s)) = Some y"
      and h: "\<forall>s x. I s \<longrightarrow> I (fst (h s x))" and i: "I s"
    obtain m eof where rd: "read_size (case rs of [] \<Rightarrow> 0 | r # _ \<Rightarrow> r) (replayBufLen - length buf) rest = (m, eof)"
      by fastforce
    obtain consumed n' e s' where d: "decodeReplayChunk ci (buf @ take m rest) g h s n = (consumed, n', e, s')"
      by (cases "decodeReplayChunk ci (buf @ take m rest) g h s n")
    have "I s'" using decode_loop_keeps [of I h s ci "buf @ take m rest" g n 0] h i d by (simp add: decodeReplayChunk_def)
    then show "I (snd (snd y))"
      using run IH [of ci g h "tl rs" "drop m rest" "drop consumed (buf @ take m rest)" n' s' y] h
      by (auto simp: rd d Let_def split: option.splits if_splits)
  qed
  then show ?thesis using assms(1,2) by blast
qed

lemma Replay_keeps:
  assumes "\<And>s x. I s \<Longrightarrow> I (fst (h s x))" "I s"
    and "Replay ci openable rs fs path key h s = Some (Ok (n, e, s'))"
  shows "I s'"
  using assms(2,3) replay_loop_keeps [of I h, OF assms(1)]
  by (fastforce simp: Replay_def split: if_splits option.splits res.splits)

lemma oversized_waits:
  assumes big: "replayBufLen < 4 + length body" "length body \<le> maxRecLen"
    and b: "b @ r' = rec_bytes body @ r" "length b \<le> replayBufLen"
  shows "decode_loop ci b g h s n 0 = (0, n, None, s)"
proof (cases "length b < 4")
  case False
  have len: "unat (of_nat (length body) :: u32) = length body"
    using big(2) by (simp add: maxRecLen_def)
  have "slice b 0 4 = take 4 (b @ r')" using False by (simp add: slice_zero)
  then have "slice b 0 4 = put_u32 (of_nat (length body))" using b(1) by (simp add: rec_bytes_def)
  then have "unat (get_u32 (slice b 0 (0 + 4))) = length body" using len by simp
  moreover have "\<not> bad_len (length body)" using big by (auto simp: bad_len_def replayBufLen_def)
  ultimately show ?thesis using b(2) big(1) False by (subst decode_loop.simps) (simp add: Let_def)
qed (subst decode_loop.simps, simp add: Let_def)

lemma replay_loop_stuck:
  assumes big: "replayBufLen < 4 + length body" "length body \<le> maxRecLen"
    and res: "replay_loop ci g h rs rest buf n s = Some y"
  shows "buf @ rest = rec_bytes body @ r \<and> length buf \<le> replayBufLen \<longrightarrow> False"
proof (rule replay_loop.raw_induct [where P = "\<lambda>_ _ _ _ rest buf _ _ _.
      buf @ rest = rec_bytes body @ r \<and> length buf \<le> replayBufLen \<longrightarrow> False", OF _ res], rule impI, elim conjE)
  fix loop ci g h rs rest buf n s y
  assume IH: "\<And>ci g h rs rest buf n s y. loop ci g h rs rest buf n s = Some y \<Longrightarrow>
      buf @ rest = rec_bytes body @ r \<and> length buf \<le> replayBufLen \<longrightarrow> False"
    and run: "(case read_size (case rs of [] \<Rightarrow> 0 | r # _ \<Rightarrow> r) (replayBufLen - length buf) rest of (n', eof) \<Rightarrow>
       let buf = buf @ take n' rest; rest = drop n' rest in
       case decodeReplayChunk ci buf g h s n of (consumed, newCount, handlerErr, s) \<Rightarrow>
         (case handlerErr of
            Some e \<Rightarrow> Some (newCount, Some e, s)
          | None \<Rightarrow>
              if eof then Some (newCount, None, s)
              else loop ci g h (tl rs) rest (drop consumed buf) newCount s)) = Some y"
    and eq: "buf @ rest = rec_bytes body @ r" and lb: "length buf \<le> replayBufLen"
  obtain m eof where rd: "read_size (case rs of [] \<Rightarrow> 0 | r # _ \<Rightarrow> r) (replayBufLen - length buf) rest = (m, eof)"
    by fastforce
  have "rest \<noteq> []" using arg_cong [OF eq, of length] lb big(1) by auto
  then have m: "\<not> eof" "length buf + m \<le> replayBufLen"
    using rd lb by (auto simp: read_size_def split: if_splits)
  have b: "(buf @ take m rest) @ drop m rest = rec_bytes body @ r" "length (buf @ take m rest) \<le> replayBufLen"
    using eq m by simp_all
  have "loop ci g h (tl rs) (drop m rest) (buf @ take m rest) n s = Some y"
    using run m(1) oversized_waits [OF big b, of ci g h s n]
    by (simp add: rd decodeReplayChunk_def Let_def)
  then show False using IH b by blast
qed

text \<open>A record that the format allows but that does not fit the 64 KiB replay buffer stops the broker
  from starting: replay keeps reading with no room left in the buffer and never returns.\<close>

theorem aal_oversized_record_never_replayed:
  assumes "replayBufLen < 4 + length body" "length body \<le> maxRecLen" "path \<noteq> []"
    and "fs path = Some (rec_bytes body @ r)" "newReplayCipher key = Ok g"
  shows "Replay ci True rs fs path key h s = None"
proof -
  have "replay_loop ci g h rs (rec_bytes body @ r) [] 0 s \<noteq> Some y" for y
    using replay_loop_stuck [OF assms(1,2), of ci g h rs "rec_bytes body @ r" "[]" 0 s y r] by auto
  then have "replay_loop ci g h rs (rec_bytes body @ r) [] 0 s = None"
    by (cases "replay_loop ci g h rs (rec_bytes body @ r) [] 0 s") auto
  then show ?thesis using assms(3-5) by (simp add: Replay_def)
qed

theorem aal_oversized_record_never_replayed_witness:
  "Replay toy_cipher True [] [[9] \<mapsto> rec_bytes (replicate 70000 1)] [9] []
     (\<lambda>s f. (s, None :: unit option)) () = None"
  by (rule aal_oversized_record_never_replayed [of "replicate 70000 1" _ _ "[]"])
    (simp_all add: replayBufLen_def maxRecLen_def newReplayCipher_def)

text \<open>The encrypted writer panics on every frame longer than 65520 bytes, which the broker's default
  64 KiB receive buffer lets through: the sealed record no longer fits the pooled buffer.\<close>

lemma aal_encrypted_write_panics:
  assumes "aead_ok ci" "wf_log l" "l_aead l = Some key" "l_file l = Some path"
    and "65520 < length frame" "length frame < 2 ^ 31"
  shows "fst (WriteFrame ci short (Some l) fs frame) = Panic"
proof -
  have lo: "length (Seal ci key n frame) = length frame + 16" for n using assms(1) by (simp add: aead_ok_def)
  have u: "unat (of_nat (28 + length frame) :: u32) = 28 + length frame"
    by (rule unat_of_nat_u32) (use assms(6) in simp)
  show ?thesis
    using assms(2-5)
    by (simp add: WriteFrame_def Let_def lo u go_slice_def wf_log_def poolBufLen_def del: of_nat_add)
qed

end
