(* ===== verification/Authz.thy ===== *)
theory Authz
  imports Aqueduct_Prelude "HOL-Library.AList"
begin

text \<open>
  The access control engine, \<^verbatim>\<open>internal/authz/acl.go\<close>: the FNV-1a hash of a client and a topic, the rule map
  keyed by it, the engine with its lookup and its atomic reload, and the builder. A nil engine is
  \<open>None\<close>; the rule map is a finite map from 64-bit keys to permission bits.
\<close>

unbundle bit_operations_syntax

section \<open>Operations\<close>

type_synonym Permission = byte

definition PermNone :: Permission where [simp]: "PermNone = 0"
definition PermPublish :: Permission where [simp]: "PermPublish = 1"
definition PermSubscribe :: Permission where [simp]: "PermSubscribe = 2"
definition PermAll :: Permission where [simp]: "PermAll = PermPublish OR PermSubscribe"

definition offset64 :: u64 where "offset64 = 14695981039346656037"
definition prime64 :: u64 where "prime64 = 1099511628211"

fun hash_loop :: "u64 \<Rightarrow> bytes \<Rightarrow> u64" where
  "hash_loop hash [] = hash"
| "hash_loop hash (b # bs) = hash_loop ((hash XOR ucast b) * prime64) bs"

definition CombineHashes :: "bytes \<Rightarrow> bytes \<Rightarrow> u64" where
  "CombineHashes clientID topicBytes =
     (let hash = hash_loop offset64 clientID;
          hash = (hash XOR 58) * prime64
      in hash_loop hash topicBytes)"

definition CombineHashStrings :: "bytes \<Rightarrow> bytes \<Rightarrow> u64" where
  "CombineHashStrings clientID topic =
     (let hash = hash_loop offset64 clientID;
          hash = (hash XOR 58) * prime64
      in hash_loop hash topic)"

type_synonym rules = "(u64 \<times> Permission) list"

record Engine =
  rulesPtr :: "rules option"
  defaultPerm :: Permission

definition NewEngine :: "rules option \<Rightarrow> Permission \<Rightarrow> Engine" where
  "NewEngine rules defPerm =
     \<lparr>rulesPtr = Some (case rules of None \<Rightarrow> [] | Some r \<Rightarrow> r), defaultPerm = defPerm\<rparr>"

definition Allowed :: "Engine option \<Rightarrow> bytes \<Rightarrow> bytes \<Rightarrow> Permission \<Rightarrow> bool" where
  "Allowed e clientID topicBytes required =
     (case e of None \<Rightarrow> True
      | Some e \<Rightarrow>
          (case rulesPtr e of None \<Rightarrow> defaultPerm e AND required \<noteq> 0
           | Some rulesMap \<Rightarrow>
               (let key = CombineHashes clientID topicBytes in
                case map_of rulesMap key of
                  None \<Rightarrow> defaultPerm e AND required \<noteq> 0
                | Some perm \<Rightarrow> perm AND required \<noteq> 0)))"

definition Reload :: "Engine option \<Rightarrow> rules option \<Rightarrow> Engine option" where
  "Reload e newRules =
     (case e of None \<Rightarrow> None
      | Some e \<Rightarrow> Some (e\<lparr>rulesPtr := Some (case newRules of None \<Rightarrow> [] | Some r \<Rightarrow> r)\<rparr>))"

definition RulesCount :: "Engine option \<Rightarrow> nat" where
  "RulesCount e =
     (case e of None \<Rightarrow> 0
      | Some e \<Rightarrow> (case rulesPtr e of None \<Rightarrow> 0 | Some r \<Rightarrow> length r))"

record Builder =
  b_rules :: rules
  b_defaultPerm :: Permission

definition NewBuilder :: "Permission \<Rightarrow> Builder" where
  "NewBuilder defPerm = \<lparr>b_rules = [], b_defaultPerm = defPerm\<rparr>"

text \<open>\<open>b.rules[key] |= perm\<close>: a missing key reads as no permission.\<close>

definition Allow :: "Builder \<Rightarrow> bytes \<Rightarrow> bytes \<Rightarrow> Permission \<Rightarrow> Builder" where
  "Allow b clientID topic perm =
     (let key = CombineHashStrings clientID topic;
          old = (case map_of (b_rules b) key of None \<Rightarrow> 0 | Some p \<Rightarrow> p)
      in b\<lparr>b_rules := AList.update key (old OR perm) (b_rules b)\<rparr>)"

definition Build :: "Builder \<Rightarrow> Engine" where
  "Build b = NewEngine (Some (b_rules b)) (b_defaultPerm b)"

section \<open>The hash\<close>

lemma CombineHashStrings_eq: "CombineHashStrings c t = CombineHashes c t"
  by (simp add: CombineHashStrings_def CombineHashes_def)

lemma hash_loop_append: "hash_loop h (xs @ ys) = hash_loop (hash_loop h xs) ys"
  by (induction xs arbitrary: h) auto

lemma CombineHashes_concat: "CombineHashes c t = hash_loop offset64 (c @ 58 # t)"
  by (simp add: CombineHashes_def hash_loop_append Let_def)

text \<open>The prime is odd, so multiplication by it is invertible and a round of the hash loses nothing.\<close>

lemma prime64_cancel: "a * prime64 = b * prime64 \<longleftrightarrow> a = b"
proof
  assume "a * prime64 = b * prime64"
  then have "a * (prime64 * 14886173955864302971) = b * (prime64 * 14886173955864302971)"
    by (simp only: mult.assoc [symmetric])
  moreover have "prime64 * 14886173955864302971 = 1" by (simp add: prime64_def)
  ultimately show "a = b" by simp
qed simp

lemma xor_cancel: "h XOR x = h' XOR x \<longleftrightarrow> h = h'" "x XOR h = x XOR h' \<longleftrightarrow> h = h'" for h :: u64
  by (auto simp: bit_eq_iff bit_xor_iff)

lemma hash_loop_inject: "hash_loop h xs = hash_loop h' xs \<longleftrightarrow> h = h'"
  by (induction xs arbitrary: h h') (simp_all add: prime64_cancel xor_cancel)

lemma ucast_byte_inject: "(ucast a :: u64) = ucast b \<longleftrightarrow> a = (b :: byte)"
proof
  assume "(ucast a :: u64) = ucast b"
  then have e: "bit (ucast a :: u64) n = bit (ucast b :: u64) n" for n by simp
  have "bit a n = bit b n" if "n < 8" for n
    using e [of n] that by (simp add: bit_simps)
  then show "a = b" by (simp add: bit_eq_iff)
qed simp

lemma hash_loop_one_byte:
  "hash_loop h (xs @ a # ys) = hash_loop h (xs @ b # ys) \<longleftrightarrow> a = b"
  by (simp add: hash_loop_append hash_loop_inject prime64_cancel xor_cancel ucast_byte_inject)

section \<open>The rule map\<close>

text \<open>Abstractly, a list of grants is what was allowed; the permissions of a client on a topic are the
  union of the grants for that pair, or the default when there is none.\<close>

type_synonym grant = "bytes \<times> bytes \<times> Permission"

fun granted :: "grant list \<Rightarrow> (bytes \<times> bytes \<Rightarrow> bool) \<Rightarrow> Permission option" where
  "granted [] P = None"
| "granted ((c, t, p) # gs) P =
     (if P (c, t)
      then Some (p OR (case granted gs P of None \<Rightarrow> 0 | Some q \<Rightarrow> q)) else granted gs P)"

definition build_all :: "grant list \<Rightarrow> Permission \<Rightarrow> Builder" where
  "build_all gs defPerm = fold (\<lambda>(c, t, p) b. Allow b c t p) gs (NewBuilder defPerm)"

lemma granted_append:
  "granted (gs @ [(c, t, p)]) P =
     (if P (c, t) then Some ((case granted gs P of None \<Rightarrow> 0 | Some q \<Rightarrow> q) OR p) else granted gs P)"
proof (induction gs)
  case (Cons g gs)
  then show ?case by (cases g) (simp add: or.assoc split: option.split)
qed simp

lemma map_of_Allow:
  "map_of (b_rules (Allow b c t p)) k =
     (if k = CombineHashes c t
      then Some ((case map_of (b_rules b) k of None \<Rightarrow> 0 | Some q \<Rightarrow> q) OR p)
      else map_of (b_rules b) k)"
  by (simp add: Allow_def Let_def CombineHashStrings_eq update_conv)

lemma map_of_build_all:
  "map_of (b_rules (build_all gs d)) k = granted gs (\<lambda>(c, t). CombineHashes c t = k)"
proof (induction gs rule: rev_induct)
  case (snoc g gs)
  then show ?case
    by (cases g) (auto simp: build_all_def map_of_Allow granted_append split: option.split)
qed (simp add: build_all_def NewBuilder_def)

lemma b_defaultPerm_build_all: "b_defaultPerm (build_all gs d) = d"
proof (induction gs rule: rev_induct)
  case (snoc g gs)
  then show ?case by (cases g) (simp add: build_all_def Allow_def Let_def)
qed (simp add: build_all_def NewBuilder_def)

lemma granted_cong:
  "(\<And>c t p. (c, t, p) \<in> set gs \<Longrightarrow> P (c, t) = Q (c, t)) \<Longrightarrow> granted gs P = granted gs Q"
proof (induction gs)
  case (Cons g gs)
  then have "granted gs P = granted gs Q" by (metis list.set_intros(2))
  then show ?case using Cons.prems [of "fst g" "fst (snd g)" "snd (snd g)"] by (cases g) simp
qed simp

lemma map_of_pair:
  assumes "list_all (\<lambda>(c', t', p). CombineHashes c' t' = CombineHashes c t \<longrightarrow> c' = c \<and> t' = t) gs"
  shows "map_of (b_rules (build_all gs d)) (CombineHashes c t) = granted gs (\<lambda>x. x = (c, t))"
  unfolding map_of_build_all by (rule granted_cong) (use assms in \<open>auto simp: list_all_iff\<close>)

section \<open>Properties\<close>



text \<open>Two client and topic pairs whose strings agree in all but one byte, in either part, never have
  the same key: a round of the hash is a bijection of the 64-bit state.\<close>

theorem acl_hash_separates_one_byte:
  "(CombineHashes (u @ a # v) t = CombineHashes (u @ b # v) t \<longleftrightarrow> a = b) \<and>
   (CombineHashes c (u @ a # v) = CombineHashes c (u @ b # v) \<longleftrightarrow> a = b)"
  using hash_loop_one_byte [of offset64 u a "v @ 58 # t" b] hash_loop_one_byte [of offset64 "c @ 58 # u" a v b]
  by (simp add: CombineHashes_concat)

text \<open>The key does not separate the client from the topic: a colon may move from one to the other,
  so a rule for client \<open>c\<close> on a topic that starts with \<open>x:\<close> is also a rule for the client \<open>c:x\<close> on
  the rest.\<close>

theorem acl_separator_confusion:
  "CombineHashes c (x @ 58 # t) = CombineHashes (c @ 58 # x) t"
  by (simp add: CombineHashes_concat)

end
