(* ===== verification/Topics.thy ===== *)
theory Topics
  imports Authz
begin

text \<open>
  The payloads that name topics, from the end of \<^verbatim>\<open>internal/broker/router.go\<close>: what a subscribe payload
  asks for, and which topic and expiry a publish payload carries. The first section models what these
  functions use of the Go packages \<^verbatim>\<open>strings\<close>, \<^verbatim>\<open>bytes\<close> and \<^verbatim>\<open>strconv\<close>.
\<close>

section \<open>Strings\<close>

abbreviation colon :: byte where "colon \<equiv> 58"

definition HasPrefix :: "bytes \<Rightarrow> bytes \<Rightarrow> bool" where
  "HasPrefix s p \<longleftrightarrow> take (length p) s = p"

text \<open>\<^verbatim>\<open>strings.Index\<close> and \<^verbatim>\<open>IndexByte\<close>; a result of minus one is \<open>None\<close>.\<close>

fun Index :: "bytes \<Rightarrow> bytes \<Rightarrow> nat option" where
  "Index [] sub = (if sub = [] then Some 0 else None)"
| "Index (c # s) sub = (if HasPrefix (c # s) sub then Some 0 else map_option Suc (Index s sub))"

definition IndexByte :: "bytes \<Rightarrow> byte \<Rightarrow> nat option" where
  "IndexByte s c = Index s [c]"

text \<open>\<^verbatim>\<open>strings.Split\<close> for a separator that is not empty.\<close>

lemma Index_bound: "Index s sub = Some i \<Longrightarrow> i + length sub \<le> length s"
proof (induction s arbitrary: i)
  case (Cons c s)
  then show ?case
  proof (cases "HasPrefix (c # s) sub")
    case True
    then have "length sub = min (length (c # s)) (length sub)"
      by (metis HasPrefix_def length_take min.commute)
    then show ?thesis using Cons.prems True by simp
  qed auto
qed (auto split: if_splits)

function Split :: "bytes \<Rightarrow> bytes \<Rightarrow> bytes list" where
  "Split s sep =
     (case (if sep = [] then None else Index s sep) of
        None \<Rightarrow> [s]
      | Some i \<Rightarrow> take i s # Split (drop (i + length sep) s) sep)"
  by pat_completeness auto
termination
proof (relation "measure (\<lambda>(s, sep). length s)")
  fix s sep :: bytes and i
  assume "(if sep = [] then None else Index s sep) = Some i"
  then have "sep \<noteq> []" "i + length sep \<le> length s" by (auto split: if_splits dest: Index_bound)
  then have "length s - (i + length sep) < length s" by (cases sep) auto
  then show "((drop (i + length sep) s, sep), s, sep) \<in> measure (\<lambda>(s, sep). length s)" by simp
qed simp

declare Split.simps [simp del]

text \<open>
  \<^verbatim>\<open>strconv.ParseUint(s, 10, 64)\<close> and \<^verbatim>\<open>ParseInt\<close> return a value and an error. The value matters also when
  there is an error, because one caller ignores it: zero on a syntax error, the largest value on overflow.
  Overflow is noticed at the digit where it happens, before the rest of the text is looked at.
\<close>

datatype num_error = ErrSyntax | ErrRange

definition is_digit :: "byte \<Rightarrow> bool" where
  "is_digit c \<longleftrightarrow> 48 \<le> c \<and> c \<le> 57"

definition maxUint64 :: nat where "maxUint64 = 2 ^ 64 - 1"

fun parse_digits :: "nat \<Rightarrow> bytes \<Rightarrow> nat \<times> num_error option" where
  "parse_digits n [] = (n, None)"
| "parse_digits n (c # s) =
     (if \<not> is_digit c then (0, Some ErrSyntax)
      else let n' = 10 * n + unat (c - 48)
           in if n' > maxUint64 then (maxUint64, Some ErrRange) else parse_digits n' s)"

definition ParseUint :: "bytes \<Rightarrow> nat \<times> num_error option" where
  "ParseUint s = (if s = [] then (0, Some ErrSyntax) else parse_digits 0 s)"

definition ParseInt :: "bytes \<Rightarrow> int \<times> num_error option" where
  "ParseInt s =
     (if s = [] then (0, Some ErrSyntax)
      else let neg = (hd s = 45);
               digits = (if hd s = 43 \<or> hd s = 45 then tl s else s)
           in case ParseUint digits of (un, err) \<Rightarrow>
             if err = Some ErrSyntax then (0, err)
             else if \<not> neg \<and> un \<ge> 2 ^ 63 then (2 ^ 63 - 1, Some ErrRange)
             else if neg \<and> un > 2 ^ 63 then (- (2 ^ 63), Some ErrRange)
             else (if neg then - int un else int un, None))"

text \<open>
  \<^verbatim>\<open>strings.ToLower(strings.TrimSpace(s))\<close>. For text outside ASCII both consult the Unicode tables, and
  their result is given by the argument \<open>uni\<close>.
\<close>

definition is_space :: "byte \<Rightarrow> bool" where
  "is_space c \<longleftrightarrow> c \<in> {9, 10, 11, 12, 13, 32}"

definition TrimSpace :: "bytes \<Rightarrow> bytes" where
  "TrimSpace s = rev (dropWhile is_space (rev (dropWhile is_space s)))"

definition lower_byte :: "byte \<Rightarrow> byte" where
  "lower_byte c = (if 65 \<le> c \<and> c \<le> 90 then c + 32 else c)"

definition normalise :: "(bytes \<Rightarrow> bytes) \<Rightarrow> bytes \<Rightarrow> bytes" where
  "normalise uni s = (if \<forall>c\<in>set s. c < 128 then map lower_byte (TrimSpace s) else uni s)"

section \<open>Backpressure policies\<close>

type_synonym BackpressurePolicy = byte

definition PolicyDropOldest :: BackpressurePolicy where "PolicyDropOldest = 0"
definition PolicyDropNewest :: BackpressurePolicy where "PolicyDropNewest = 1"
definition PolicyDisconnect :: BackpressurePolicy where "PolicyDisconnect = 2"

definition ParseBackpressurePolicy :: "(bytes \<Rightarrow> bytes) \<Rightarrow> bytes \<Rightarrow> BackpressurePolicy" where
  "ParseBackpressurePolicy uni s =
     (let t = normalise uni s in
      if t = str ''drop_newest'' then PolicyDropNewest
      else if t = str ''disconnect'' then PolicyDisconnect
      else PolicyDropOldest)"

definition Policy_String :: "BackpressurePolicy \<Rightarrow> bytes" where
  "Policy_String p =
     (if p = PolicyDropNewest then str ''drop_newest''
      else if p = PolicyDisconnect then str ''disconnect''
      else str ''drop_oldest'')"

section \<open>Subscribe payloads\<close>

datatype topic_error = errTopicRequired | errTopicEmpty

record SubscriptionSpec =
  sp_Topic :: bytes
  sp_IsDurable :: bool
  sp_ConsumerID :: bytes
  sp_RequestedOffset :: u64
  sp_GroupID :: bytes

definition empty_spec :: SubscriptionSpec where
  "empty_spec = \<lparr>sp_Topic = [], sp_IsDurable = False, sp_ConsumerID = [], sp_RequestedOffset = 0,
     sp_GroupID = []\<rparr>"

text \<open>The group is cut out of the text first; the rest is split at the durable marker.\<close>

definition cut_group :: "bytes \<Rightarrow> bytes \<times> bytes" where
  "cut_group raw =
     (case Index raw (str '':group:'') of
        None \<Rightarrow> (raw, [])
      | Some idx \<Rightarrow>
          (let rest = drop (idx + 7) raw in
           case IndexByte rest colon of
             Some endIdx \<Rightarrow> (take idx raw @ drop endIdx rest, take endIdx rest)
           | None \<Rightarrow> (take idx raw, rest)))"

definition parseSubscriptionPayload :: "bytes \<Rightarrow> (topic_error, SubscriptionSpec) res" where
  "parseSubscriptionPayload payload =
     (if length payload < 6 \<or> take 6 payload \<noteq> str ''topic:'' then Err errTopicRequired
      else let raw = drop 6 payload in
        if raw = [] then Err errTopicEmpty
        else case cut_group raw of (raw, groupID) \<Rightarrow>
          let spec = empty_spec\<lparr>sp_GroupID := groupID\<rparr>;
              parts = Split raw (str '':durable:'')
          in if length parts = 1 then Ok (spec\<lparr>sp_Topic := parts ! 0\<rparr>)
             else let spec = spec\<lparr>sp_Topic := parts ! 0\<rparr>;
                      durParts = Split (parts ! 1) [colon]
                  in if length durParts < 2
                     then Ok (spec\<lparr>sp_IsDurable := True, sp_ConsumerID := parts ! 1\<rparr>)
                     else Ok (spec\<lparr>sp_ConsumerID := durParts ! 0, sp_IsDurable := True,
                                   sp_RequestedOffset := of_nat (fst (ParseUint (durParts ! 1)))\<rparr>))"

definition extractTopic :: "bytes \<Rightarrow> (topic_error, bytes) res" where
  "extractTopic payload = rbind (parseSubscriptionPayload payload) (\<lambda>spec. Ok (sp_Topic spec))"

section \<open>Publish payloads\<close>

text \<open>\<open>now\<close> is \<^verbatim>\<open>time.Now().UnixNano()\<close>; durations and times are signed 64-bit nanoseconds.\<close>

definition parseTTL :: "int \<Rightarrow> bytes \<Rightarrow> int \<times> bytes" where
  "parseTTL now payload =
     (if HasPrefix payload (str ''ttl:'') then
        (case IndexByte (drop 4 payload) colon of
           None \<Rightarrow> (0, payload)
         | Some idx \<Rightarrow>
             if idx > 0 then
               (case ParseInt (slice payload 4 (4 + idx)) of
                  (ms, None) \<Rightarrow> (i64 (now + i64 (ms * 1000000)), drop (4 + idx + 1) payload)
                | (_, Some _) \<Rightarrow> (0, payload))
             else (0, payload))
      else (0, payload))"

definition prefixTopic :: bytes where "prefixTopic = str ''topic:''"

definition parsePublishTopic :: "int \<Rightarrow> bytes \<Rightarrow> int \<times> bytes" where
  "parsePublishTopic now payload =
     (case parseTTL now payload of (expiresAt, cleanTopic) \<Rightarrow>
        if HasPrefix cleanTopic prefixTopic \<and> length cleanTopic > length prefixTopic
        then (expiresAt, drop (length prefixTopic) cleanTopic)
        else (expiresAt, cleanTopic))"

definition topicHashKey :: "bytes \<Rightarrow> u64" where
  "topicHashKey topic = CombineHashStrings (str ''topic'') topic"


section \<open>Rendering and reading back\<close>

lemma HasPrefix_append [simp]: "HasPrefix (p @ s) p"
  by (simp add: HasPrefix_def)

lemma HasPrefix_simps [simp]:
  "HasPrefix s []" "HasPrefix (a # s) (b # p) \<longleftrightarrow> a = b \<and> HasPrefix s p" "\<not> HasPrefix [] (b # p)"
  by (auto simp: HasPrefix_def)

lemma Index_here: "HasPrefix s p \<Longrightarrow> Index s p = Some 0"
  by (cases s) (auto simp: HasPrefix_def)

lemma Index_skip:
  "x \<notin> set a \<Longrightarrow> Index (a @ s) (x # p) = map_option (\<lambda>i. length a + i) (Index s (x # p))"
  by (induction a; cases "Index s (x # p)") auto

lemma Index_skip_None: "x \<notin> set a \<Longrightarrow> Index s (x # p) = None \<Longrightarrow> Index (a @ s) (x # p) = None"
  by (simp add: Index_skip)

lemma Index_absent: "x \<notin> set s \<Longrightarrow> Index s (x # p) = None"
  by (induction s) auto

lemma Split_absent: "x \<notin> set s \<Longrightarrow> Split s (x # p) = [s]"
  by (subst Split.simps) (simp add: Index_absent)

lemma Split_here:
  "x \<notin> set a \<Longrightarrow> Split (a @ (x # p) @ s) (x # p) = a # Split s (x # p)"
  by (subst Split.simps) (simp add: Index_skip Index_here)

text \<open>Decimal numerals as a client writes them.\<close>

fun decimal :: "nat \<Rightarrow> bytes" where
  "decimal n = (if n < 10 then [of_nat (48 + n)] else decimal (n div 10) @ [of_nat (48 + n mod 10)])"

declare decimal.simps [simp del]

lemma digit_byte:
  assumes "d < 10"
  shows "is_digit (of_nat (48 + d))" "unat (of_nat (48 + d) - 48 :: byte) = d" "of_nat (48 + d) \<noteq> colon"
proof -
  have u: "unat (of_nat (48 + d) :: byte) = 48 + d" using assms by (simp add: unat_of_nat del: of_nat_add)
  show "is_digit (of_nat (48 + d))"
    using u assms by (simp add: is_digit_def word_le_nat_alt del: of_nat_add)
  have "of_nat (48 + d) - (48 :: byte) = of_nat d" by simp
  then show "unat (of_nat (48 + d) - 48 :: byte) = d" using assms by (simp add: unat_of_nat del: of_nat_add)
  show "of_nat (48 + d) \<noteq> colon"
  proof
    assume "of_nat (48 + d) = colon"
    then have "unat (of_nat (48 + d) :: byte) = unat colon" by (rule arg_cong)
    then show False using u assms by simp
  qed
qed

lemma digit_not_letter: "is_digit c \<Longrightarrow> c \<noteq> 100" "is_digit c \<Longrightarrow> c \<noteq> 103" "is_digit c \<Longrightarrow> c \<noteq> colon"
    "is_digit c \<Longrightarrow> c \<noteq> 43" "is_digit c \<Longrightarrow> c \<noteq> 45"
  by (auto simp: is_digit_def)

lemma decimal_digits: "list_all is_digit (decimal n)"
proof (induction n rule: decimal.induct)
  case (1 n)
  then show ?case by (subst decimal.simps) (simp add: digit_byte(1) del: of_nat_add)
qed

lemma decimal_not_Nil [simp]: "decimal n \<noteq> []"
  by (subst decimal.simps) simp

lemma decimal_no_colon [simp]: "colon \<notin> set (decimal n)"
  using decimal_digits [of n] digit_not_letter(3) by (auto simp: list_all_iff)

lemma parse_decimal: "n \<le> maxUint64 \<Longrightarrow> parse_digits 0 (decimal n @ s) = parse_digits n s"
proof (induction n arbitrary: s rule: decimal.induct)
  case (1 n)
  show ?case
  proof (cases "n < 10")
    case True
    then show ?thesis
      using 1(2) digit_byte [OF True] by (subst decimal.simps) (simp add: Let_def del: of_nat_add)
  next
    case False
    have "n div 10 \<le> maxUint64" using 1(2) by linarith
    note ih = 1(1) [OF False this]
    have d: "n mod 10 < 10" by simp
    show ?thesis
      using ih 1(2) False digit_byte [OF d] by (subst decimal.simps) (simp add: Let_def del: of_nat_add)
  qed
qed

lemma ParseUint_decimal: "n \<le> maxUint64 \<Longrightarrow> ParseUint (decimal n) = (n, None)"
  using parse_decimal [of n "[]"] by (simp add: ParseUint_def)

lemma ParseInt_decimal: "n < 2 ^ 63 \<Longrightarrow> ParseInt (decimal n) = (int n, None)"
proof -
  assume n: "n < 2 ^ 63"
  then have "n \<le> maxUint64" by (simp add: maxUint64_def)
  moreover have "is_digit (hd (decimal n))"
    using decimal_digits [of n] by (cases "decimal n") auto
  ultimately show ?thesis
    using n digit_not_letter(4,5) [of "hd (decimal n)"] by (auto simp: ParseInt_def ParseUint_decimal Let_def)
qed

text \<open>A subscription as a client asks for it.\<close>

definition render_spec :: "SubscriptionSpec \<Rightarrow> bytes" where
  "render_spec spec = str ''topic:'' @ sp_Topic spec @
     (if sp_GroupID spec = [] then [] else str '':group:'' @ sp_GroupID spec) @
     (if sp_IsDurable spec
      then str '':durable:'' @ sp_ConsumerID spec @ [colon] @ decimal (unat (sp_RequestedOffset spec)) else [])"

definition wf_spec :: "SubscriptionSpec \<Rightarrow> bool" where
  "wf_spec spec \<longleftrightarrow> sp_Topic spec \<noteq> [] \<and>
     colon \<notin> set (sp_Topic spec) \<union> set (sp_GroupID spec) \<union> set (sp_ConsumerID spec) \<and>
     (if sp_IsDurable spec then sp_GroupID spec \<noteq> [] \<or> sp_ConsumerID spec \<noteq> str ''group''
      else sp_ConsumerID spec = [] \<and> sp_RequestedOffset spec = 0)"

lemma markers:
  "str '':group:'' = colon # str ''group:''" "str '':durable:'' = colon # str ''durable:''"
  "str ''durable:'' = str ''durable'' @ [colon]" "colon \<notin> set (str ''durable'')"
  "length (str ''group:'') = 6" "str ''durable:'' = 100 # str ''urable:''" "str ''group:'' = 103 # str ''roup:''"
  by (simp_all add: str_def of_char_def)

lemma durable_marker:
  "str '':durable:'' @ z = colon # str ''durable'' @ colon # z" "\<not> HasPrefix (str ''durable'' @ z) (str ''group:'')"
  by (simp_all add: str_def of_char_def)

lemma no_group_marker:
  assumes "c \<noteq> str ''group''" "colon \<notin> set c"
  shows "\<not> HasPrefix (c @ colon # d) (str ''group:'')"
proof
  assume p: "HasPrefix (c @ colon # d) (str ''group:'')"
  moreover have "str ''group:'' = str ''group'' @ [colon]" by (simp add: str_def of_char_def)
  ultimately have "take (length (str ''group:'')) (c @ colon # d) = str ''group'' @ [colon]"
    by (simp only: HasPrefix_def)
  then obtain r where "c @ colon # d = (str ''group'' @ [colon]) @ r"
    by (metis append_take_drop_id)
  moreover have "colon \<notin> set (str ''group'')" by (simp add: str_def of_char_def)
  ultimately show False using assms
    by (auto simp: append_eq_append_conv2 append_eq_Cons_conv Cons_eq_append_conv) (metis in_set_conv_decomp)
qed


lemma cut_group_durable:
  assumes "colon \<notin> set t" "colon \<notin> set c" "c \<noteq> str ''group''"
  shows "cut_group (t @ str '':durable:'' @ c @ colon # decimal n) = (t @ str '':durable:'' @ c @ colon # decimal n, [])"
proof -
  have d: "\<not> HasPrefix (decimal n) (str ''group:'')"
    using decimal_digits [of n] digit_not_letter(2) by (cases "decimal n") (auto simp: markers(7))
  have "Index (colon # decimal n) (str '':group:'') = None"
    using d by (simp add: markers(1) Index_absent)
  then have "Index (c @ colon # decimal n) (str '':group:'') = None"
    using assms(2) unfolding markers(1) by (blast intro: Index_skip_None)
  then have "Index (colon # c @ colon # decimal n) (str '':group:'') = None"
    using no_group_marker [OF assms(3,2)] by (simp add: markers(1))
  then have "Index (str ''durable'' @ colon # c @ colon # decimal n) (str '':group:'') = None"
    using markers(4) unfolding markers(1) by (blast intro: Index_skip_None)
  then have "Index (str '':durable:'' @ c @ colon # decimal n) (str '':group:'') = None"
    by (simp add: markers(1) durable_marker)
  then have "Index (t @ str '':durable:'' @ c @ colon # decimal n) (str '':group:'') = None"
    using assms(1) unfolding markers(1) by (blast intro: Index_skip_None)
  then show ?thesis by (simp add: cut_group_def)
qed

lemma cut_group_group:
  assumes "colon \<notin> set t" "colon \<notin> set g" "rest = [] \<or> hd rest = colon"
  shows "cut_group (t @ str '':group:'' @ g @ rest) = (t @ rest, g)"
proof -
  have "Index (t @ str '':group:'' @ g @ rest) (str '':group:'') = Some (length t)"
    using assms(1) Index_here [OF HasPrefix_append, of "str '':group:''" "g @ rest"]
    by (simp add: markers(1) Index_skip)
  moreover have "drop (length t + 7) (t @ str '':group:'' @ g @ rest) = g @ rest"
    by (simp add: markers(1,5))
  moreover have "IndexByte (g @ rest) colon = (if rest = [] then None else Some (length g))"
    using assms(2,3) by (cases rest) (simp_all add: IndexByte_def Index_skip Index_absent)
  ultimately show ?thesis by (simp add: cut_group_def Let_def)
qed

lemma cut_group_none: "colon \<notin> set t \<Longrightarrow> cut_group t = (t, [])"
  by (simp add: cut_group_def markers(1) Index_absent)

lemma Split_durable:
  assumes "colon \<notin> set t" "colon \<notin> set c"
  shows "Split (t @ str '':durable:'' @ c @ colon # decimal n) (str '':durable:'') = [t, c @ colon # decimal n]"
proof -
  have d: "\<not> HasPrefix (decimal n) (str ''durable:'')"
    using decimal_digits [of n] digit_not_letter(1) by (cases "decimal n") (auto simp: markers(6))
  have "Index (colon # decimal n) (str '':durable:'') = None"
    using d by (simp add: markers(2) Index_absent)
  then have "Index (c @ colon # decimal n) (str '':durable:'') = None"
    using assms(2) unfolding markers(2) by (blast intro: Index_skip_None)
  then have "Split (c @ colon # decimal n) (str '':durable:'') = [c @ colon # decimal n]"
    by (subst Split.simps) simp
  then show ?thesis using Split_here [OF assms(1), of "str ''durable:''"] by (simp add: markers(2))
qed

lemma Split_colon:
  assumes "colon \<notin> set c"
  shows "Split (c @ colon # decimal n) [colon] = [c, decimal n]"
  using Split_here [OF assms, of "[]" "decimal n"] by (simp add: Split_absent)

lemma parse_after_cut:
  assumes "raw \<noteq> []"
  shows "parseSubscriptionPayload (str ''topic:'' @ raw) =
    (case cut_group raw of (raw, groupID) \<Rightarrow>
       let spec = empty_spec\<lparr>sp_GroupID := groupID\<rparr>; parts = Split raw (str '':durable:'')
       in if length parts = 1 then Ok (spec\<lparr>sp_Topic := parts ! 0\<rparr>)
          else let spec = spec\<lparr>sp_Topic := parts ! 0\<rparr>; durParts = Split (parts ! 1) [colon]
               in if length durParts < 2
                  then Ok (spec\<lparr>sp_IsDurable := True, sp_ConsumerID := parts ! 1\<rparr>)
                  else Ok (spec\<lparr>sp_ConsumerID := durParts ! 0, sp_IsDurable := True,
                                sp_RequestedOffset := of_nat (fst (ParseUint (durParts ! 1)))\<rparr>))"
proof -
  have "length (str ''topic:'') = 6" by (simp add: str_def)
  then show ?thesis using assms by (simp add: parseSubscriptionPayload_def)
qed

section \<open>Properties\<close>

text \<open>C31: A subscription that a client writes out is the one the router registers: topic, consumer group,
  durable consumer and start offset are read back from the payload. Topics, groups and consumers must
  not contain a colon, and a durable consumer outside a group must not be called \<^verbatim>\<open>group\<close>, which the
  parser would take for the group marker.\<close>

theorem subscription_roundtrip:
  assumes "wf_spec spec"
  shows "parseSubscriptionPayload (render_spec spec) = Ok spec"
proof -
  let ?t = "sp_Topic spec" and ?g = "sp_GroupID spec" and ?c = "sp_ConsumerID spec"
  let ?n = "unat (sp_RequestedOffset spec)"
  let ?d = "if sp_IsDurable spec then str '':durable:'' @ ?c @ colon # decimal ?n else []"
  have wf: "?t \<noteq> []" "colon \<notin> set ?t" "colon \<notin> set ?g" "colon \<notin> set ?c"
    using assms by (auto simp: wf_spec_def)
  have "?n \<le> maxUint64" using unat_u64_less [of "sp_RequestedOffset spec"] by (simp add: maxUint64_def)
  note off = ParseUint_decimal [OF this]
  have "hd ?d = colon" if "?d \<noteq> []" using that by (auto simp: markers(2) split: if_splits)
  then have cut: "cut_group (?t @ (if ?g = [] then [] else str '':group:'' @ ?g) @ ?d) = (?t @ ?d, ?g)"
    using wf assms cut_group_durable [OF wf(2,4)] cut_group_group [OF wf(2,3), of ?d] cut_group_none [OF wf(2)]
    by (auto simp: wf_spec_def)
  have "parseSubscriptionPayload (render_spec spec) =
      parseSubscriptionPayload (str ''topic:'' @ (?t @ (if ?g = [] then [] else str '':group:'' @ ?g) @ ?d))"
    by (simp add: render_spec_def)
  also have "\<dots> = Ok spec"
  proof (cases "sp_IsDurable spec")
    case True
    then show ?thesis using wf off cut Split_durable [OF wf(2,4)] Split_colon [OF wf(4)]
      by (subst parse_after_cut) (simp_all add: Let_def empty_spec_def)
  next
    case False
    then have "?c = []" "sp_RequestedOffset spec = 0" using assms by (auto simp: wf_spec_def)
    then show ?thesis using wf cut False Split_absent [OF wf(2)]
      by (subst parse_after_cut) (simp_all add: Let_def empty_spec_def markers(2))
  qed
  finally show ?thesis .
qed

theorem subscription_roundtrip_witness:
  "parseSubscriptionPayload (render_spec \<lparr>sp_Topic = str ''orders'', sp_IsDurable = True,
     sp_ConsumerID = str ''billing'', sp_RequestedOffset = 42, sp_GroupID = str ''workers''\<rparr>) =
   Ok \<lparr>sp_Topic = str ''orders'', sp_IsDurable = True, sp_ConsumerID = str ''billing'',
     sp_RequestedOffset = 42, sp_GroupID = str ''workers''\<rparr>"
  by (rule subscription_roundtrip) (simp add: wf_spec_def str_def of_char_def)

lemma HasPrefix_set: "HasPrefix s p \<Longrightarrow> set p \<subseteq> set s"
  by (metis HasPrefix_def set_take_subset)

lemma parseTTL_plain: "\<not> HasPrefix p (str ''ttl:'') \<Longrightarrow> parseTTL now p = (0, p)"
  by (simp add: parseTTL_def)

lemma parseTTL_ttl:
  assumes "ms < 2 ^ 63"
  shows "parseTTL now (str ''ttl:'' @ decimal ms @ colon # t) = (i64 (now + i64 (int ms * 1000000)), t)"
proof -
  have l: "length (str ''ttl:'') = 4" by (simp add: str_def)
  let ?p = "str ''ttl:'' @ decimal ms @ colon # t"
  have d: "drop 4 ?p = decimal ms @ colon # t" using l by simp
  have i: "IndexByte (drop 4 ?p) colon = Some (length (decimal ms))"
    unfolding d by (simp add: IndexByte_def Index_skip)
  have s: "slice ?p 4 (4 + length (decimal ms)) = decimal ms"
    using l by (simp add: slice_def)
  have r: "drop (4 + length (decimal ms) + 1) ?p = t" using l by simp
  show ?thesis
    using i s r by (simp add: parseTTL_def ParseInt_decimal [OF assms] del: drop_append)
qed

lemma strip_topic_prefix:
  assumes "colon \<notin> set t" "t \<noteq> []"
  shows "HasPrefix t prefixTopic = False" "HasPrefix (str ''topic:'' @ t) prefixTopic"
    "drop (length prefixTopic) (str ''topic:'' @ t) = t" "length (str ''topic:'' @ t) > length prefixTopic"
    "HasPrefix t (str ''ttl:'') = False" "HasPrefix (str ''topic:'' @ t) (str ''ttl:'') = False"
  using assms HasPrefix_set [of t prefixTopic] HasPrefix_set [of t "str ''ttl:''"]
  by (auto simp: prefixTopic_def) (auto simp: str_def of_char_def)

lemma plain_subscription:
  assumes "t \<noteq> []" "colon \<notin> set t"
  shows "parseSubscriptionPayload (str ''topic:'' @ t) = Ok (empty_spec\<lparr>sp_Topic := t\<rparr>)"
  using assms by (simp add: parse_after_cut cut_group_none Split_absent markers(2) Let_def empty_spec_def)

lemma plain_publish:
  assumes "t \<noteq> []" "colon \<notin> set t"
  shows "parsePublishTopic now t = (0, t)"
  using strip_topic_prefix [OF assms(2,1)] by (simp add: parsePublishTopic_def parseTTL_plain)

text \<open>Publishers and subscribers agree on the identity of a topic. Whether a publisher sends the bare
  name, the name with the topic prefix, with a time to live or with both, the message is routed under the
  name, and hence under the key, that a subscription to that name is registered under. The time to live is counted
  in milliseconds from the moment of publication.\<close>

theorem publish_subscribe_same_topic:
  assumes "t \<noteq> []" "colon \<notin> set t" "ms < 2 ^ 63"
  shows "parsePublishTopic now t = (0, t) \<and>
    parsePublishTopic now (str ''topic:'' @ t) = (0, t) \<and>
    parsePublishTopic now (str ''ttl:'' @ decimal ms @ [colon] @ t) = (i64 (now + i64 (int ms * 1000000)), t) \<and>
    parsePublishTopic now (str ''ttl:'' @ decimal ms @ [colon] @ str ''topic:'' @ t) =
      (i64 (now + i64 (int ms * 1000000)), t) \<and>
    extractTopic (str ''topic:'' @ t) = Ok t"
proof -
  note strip = strip_topic_prefix [OF assms(2,1)]
  show ?thesis
    using strip plain_subscription [OF assms(1,2)] plain_publish [OF assms(1,2), of now]
    by (simp add: parsePublishTopic_def parseTTL_plain parseTTL_ttl [OF assms(3)] extractTopic_def)
qed

theorem publish_subscribe_same_topic_witness:
  "parsePublishTopic 5 (str ''ttl:'' @ decimal 20 @ [colon] @ str ''topic:'' @ str ''orders'') =
     (i64 (5 + i64 (int 20 * 1000000)), str ''orders'') \<and>
   extractTopic (str ''topic:'' @ str ''orders'') = Ok (str ''orders'')"
  using publish_subscribe_same_topic [of "str ''orders''" 20 5] by (simp add: str_def of_char_def)

end
