(* ===== verification/Router.thy ===== *)
theory Router
  imports Frame Wildcard Quotas Msg_Ref Aal Topics
begin

text \<open>
  The in-memory router, \<^verbatim>\<open>internal/broker/router.go\<close>. A subscriber is a slot of parallel lists, as in the
  source; its four priority queues are bounded channels, held as lists of message handles, oldest first, with \<open>None\<close>
  for a queue that has not been taken from the pool. The writer goroutine of a slot is the record \<open>Writer\<close>
  of its local variables. Every method of the router and every round of a writer is one atomic step.

  The environment of a call is a record: the slab allocator, a recycled buffer, the choice of the
  message pool, and the clock. Everything a call does outside the router (peers, streams, metrics) is
  appended to a log. Metrics are logged with the topic they are about, before it is sanitised.
\<close>

section \<open>State\<close>

definition defaultQueueSize :: nat where "defaultQueueSize = 1024"
definition maxPayloadSize :: nat where "maxPayloadSize = 2 ^ 20"
definition defaultMaxRetries :: int where "defaultMaxRetries = 3"
definition defaultNackCacheSize :: nat where "defaultNackCacheSize = 256"
definition defaultBatchSize :: nat where "defaultBatchSize = 64 * 1024"
definition defaultFlushInterval :: int where "defaultFlushInterval = 50 * 1000"

record env =
  e_acq :: "nat \<Rightarrow> bytes option"
  e_raw :: "bytes option"
  e_pick :: nat
  e_now :: int

datatype effect =
    Forward bytes bool
  | OnPublish bytes
  | OnDeliver bytes
  | SetActiveSubscribers nat
  | OnRateLimited bytes
  | ConsumerOffset bytes bytes u64
  | DurableSubscriberAdded
  | MessageDropped bytes bytes
  | SlowConsumerDisconnected
  | MessageExpired bytes byte
  | MessageNacked bytes
  | MessageDeadLettered bytes
  | FrameReceivedFromPeer
  | BackfillFrame
  | StartBackfill bytes bytes u64 u64 nat
  | StreamClosed nat
  | StreamWrite nat bytes

record WildcardSub =
  ws_pattern :: bytes
  ws_idx :: nat

record nackKey =
  nk_topicHash :: u64
  nk_offset :: u64

record ConsumerGroup =
  cg_groupID :: bytes
  cg_topic :: bytes
  cg_counter :: u64
  cg_members :: "nat list option"

record Writer =
  w_buf :: bytes
  w_refs :: "nat list"
  w_timer :: bool
  w_cache :: "u64 \<Rightarrow> bytes option"
  w_keys :: "u64 list"
  w_running :: bool

type_synonym queues = "nat list option list"

record Router =
  r_streamIDs :: "u32 list"
  r_streams :: "nat list"
  r_topics :: "bytes list"
  r_active :: "bool list"
  r_queues :: "queues list"
  r_notify :: "bool list"
  r_nackChs :: "u64 list list"
  r_cancelled :: "bool list"
  r_writers :: "Writer list"
  r_topicIndex :: "u64 \<Rightarrow> nat list"
  r_subGroups :: "bytes list"
  r_groups :: "u64 \<Rightarrow> ConsumerGroup list"
  r_wildcardSubs :: "WildcardSub list"
  r_topicOffsets :: "u64 \<Rightarrow> u64 option"
  r_durableOffsets :: "u64 \<Rightarrow> u64"
  r_nackCounters :: "nackKey \<Rightarrow> 8 word"
  r_maxRetries :: int
  r_quotaManager :: "Manager option"
  r_aalPath :: bytes
  r_aalKey :: bytes
  r_peers :: "nat option"
  r_metrics :: bool
  r_queueSize :: nat
  r_policy :: BackpressurePolicy
  r_batchSize :: nat
  r_flushInterval :: int
  r_priorityTTLs :: "int list"
  r_compression :: "(bytes \<Rightarrow> bytes option) option"
  r_compressionMinSize :: int
  r_heap :: ref_heap
  r_nextBuf :: nat
  r_log :: "effect list"

datatype router_error = errNilStream | errSubscribe topic_error | errPayloadTooLarge

definition emit :: "effect \<Rightarrow> Router \<Rightarrow> Router" where
  "emit e r = r\<lparr>r_log := r_log r @ [e]\<rparr>"

definition retain_ref :: "nat \<Rightarrow> Router \<Rightarrow> Router" where
  "retain_ref m r = r\<lparr>r_heap := Retain (Some m) (r_heap r)\<rparr>"

definition release_ref :: "nat \<Rightarrow> Router \<Rightarrow> Router" where
  "release_ref m r = r\<lparr>r_heap := Release (Some m) (r_heap r)\<rparr>"

text \<open>A serialised buffer gets a name of its own; the message that wraps it is taken from the pool.\<close>

definition acquire_ref :: "env \<Rightarrow> bytes \<Rightarrow> int \<Rightarrow> u64 \<Rightarrow> Router \<Rightarrow> nat \<times> Router" where
  "acquire_ref env buf expiresAt off r =
     (let b = r_nextBuf r;
          h = (r_heap r)\<lparr>rh_bytes := (rh_bytes (r_heap r))(b := buf)\<rparr>
      in case AcquireMessageRef (e_pick env) (Some b) h of (m, h) \<Rightarrow>
        (m, r\<lparr>r_heap := SetOffset (Some m) off (SetExpiresAt (Some m) expiresAt h), r_nextBuf := Suc b\<rparr>))"

section \<open>Construction\<close>

definition WithQueueSize :: "int \<Rightarrow> Router \<Rightarrow> Router" where
  "WithQueueSize n r = (if n > 0 then r\<lparr>r_queueSize := nat n\<rparr> else r)"

definition WithBackpressurePolicy :: "BackpressurePolicy \<Rightarrow> Router \<Rightarrow> Router" where
  "WithBackpressurePolicy p r = r\<lparr>r_policy := p\<rparr>"

definition WithAALPath :: "bytes \<Rightarrow> bytes \<Rightarrow> Router \<Rightarrow> Router" where
  "WithAALPath path key r = r\<lparr>r_aalPath := path, r_aalKey := key\<rparr>"

definition WithPeerForwarder :: "nat option \<Rightarrow> Router \<Rightarrow> Router" where
  "WithPeerForwarder f r = r\<lparr>r_peers := f\<rparr>"

definition WithBatchSize :: "int \<Rightarrow> Router \<Rightarrow> Router" where
  "WithBatchSize n r = (if n > 0 then r\<lparr>r_batchSize := nat n\<rparr> else r)"

definition WithFlushInterval :: "int \<Rightarrow> Router \<Rightarrow> Router" where
  "WithFlushInterval d r = (if d > 0 then r\<lparr>r_flushInterval := d\<rparr> else r)"

definition WithCompression :: "(bytes \<Rightarrow> bytes option) option \<Rightarrow> int \<Rightarrow> Router \<Rightarrow> Router" where
  "WithCompression engine minBatchSize r = r\<lparr>r_compression := engine, r_compressionMinSize := minBatchSize\<rparr>"

definition WithPriorityTTLs :: "int \<times> int \<times> int \<times> int \<Rightarrow> Router \<Rightarrow> Router" where
  "WithPriorityTTLs ttls r = (case ttls of (a, b, c, d) \<Rightarrow> r\<lparr>r_priorityTTLs := [a, b, c, d]\<rparr>)"

definition WithMaxRetries :: "int \<Rightarrow> Router \<Rightarrow> Router" where
  "WithMaxRetries n r = (if n > 0 then r\<lparr>r_maxRetries := n\<rparr> else r)"

definition WithQuotas :: "Manager option \<Rightarrow> Router \<Rightarrow> Router" where
  "WithQuotas qm r = r\<lparr>r_quotaManager := qm\<rparr>"

definition empty_router :: "bool \<Rightarrow> Router" where
  "empty_router m =
     \<lparr>r_streamIDs = [], r_streams = [], r_topics = [], r_active = [], r_queues = [], r_notify = [],
      r_nackChs = [], r_cancelled = [], r_writers = [], r_topicIndex = (\<lambda>_. []), r_subGroups = [],
      r_groups = (\<lambda>_. []), r_wildcardSubs = [], r_topicOffsets = (\<lambda>_. None), r_durableOffsets = (\<lambda>_. 0),
      r_nackCounters = (\<lambda>_. 0), r_maxRetries = defaultMaxRetries, r_quotaManager = None, r_aalPath = [],
      r_aalKey = [], r_peers = None, r_metrics = m, r_queueSize = defaultQueueSize,
      r_policy = PolicyDropOldest, r_batchSize = defaultBatchSize, r_flushInterval = defaultFlushInterval,
      r_priorityTTLs = [0, 0, 0, 0], r_compression = None, r_compressionMinSize = 0,
      r_heap = empty_heap (\<lambda>_. []), r_nextBuf = 0, r_log = []\<rparr>"

datatype router_option =
    OptQueueSize int
  | OptPolicy BackpressurePolicy
  | OptAALPath bytes bytes
  | OptPeers "nat option"
  | OptBatchSize int
  | OptFlushInterval int
  | OptCompression "(bytes \<Rightarrow> bytes option) option" int
  | OptPriorityTTLs "int \<times> int \<times> int \<times> int"
  | OptMaxRetries int
  | OptQuotas "Manager option"

fun apply_option :: "router_option \<Rightarrow> Router \<Rightarrow> Router" where
  "apply_option (OptQueueSize n) = WithQueueSize n"
| "apply_option (OptPolicy p) = WithBackpressurePolicy p"
| "apply_option (OptAALPath p k) = WithAALPath p k"
| "apply_option (OptPeers f) = WithPeerForwarder f"
| "apply_option (OptBatchSize n) = WithBatchSize n"
| "apply_option (OptFlushInterval d) = WithFlushInterval d"
| "apply_option (OptCompression e n) = WithCompression e n"
| "apply_option (OptPriorityTTLs t) = WithPriorityTTLs t"
| "apply_option (OptMaxRetries n) = WithMaxRetries n"
| "apply_option (OptQuotas q) = WithQuotas q"

definition NewRouter :: "bool \<Rightarrow> router_option list \<Rightarrow> Router" where
  "NewRouter m opts = fold apply_option opts (empty_router m)"

section \<open>Queues\<close>

abbreviation queue :: "Router \<Rightarrow> nat \<Rightarrow> nat \<Rightarrow> nat list option" where
  "queue r i p \<equiv> r_queues r ! i ! p"

definition set_queue :: "nat \<Rightarrow> nat \<Rightarrow> nat list option \<Rightarrow> Router \<Rightarrow> Router" where
  "set_queue i p q r = r\<lparr>r_queues := (r_queues r)[i := (r_queues r ! i)[p := q]]\<rparr>"

text \<open>A channel that goes back to the pool is drained first; the pool hands out empty channels.\<close>

definition returnQueueToPool :: "nat list \<Rightarrow> Router \<Rightarrow> Router" where
  "returnQueueToPool ms r = fold release_ref ms r"

definition getQueueFromPool :: "nat list" where
  "getQueueFromPool = []"

text \<open>
  \<open>handleOverflow\<close> returns the slot to disconnect, the content of the channel afterwards, and the router.
\<close>

definition send_or_release :: "nat \<Rightarrow> nat list \<Rightarrow> Router \<Rightarrow> nat list \<times> Router" where
  "send_or_release m q r = (if length q < r_queueSize r then (q @ [m], r) else (q, release_ref m r))"

definition handleOverflow ::
    "nat \<Rightarrow> bytes \<Rightarrow> nat list \<Rightarrow> nat \<Rightarrow> Router \<Rightarrow> nat option \<times> nat list \<times> Router" where
  "handleOverflow idx topic q m r =
     (if r_policy r = PolicyDropOldest then
        (case q of
           oldest # rest \<Rightarrow>
             (None, send_or_release m rest (emit (MessageDropped topic (str ''drop_oldest'')) (release_ref oldest r)))
         | [] \<Rightarrow> (None, send_or_release m q r))
      else if r_policy r = PolicyDropNewest then
        (None, q, emit (MessageDropped topic (str ''drop_newest'')) (release_ref m r))
      else if r_policy r = PolicyDisconnect then
        (Some idx, q, emit SlowConsumerDisconnected (release_ref m r))
      else (None, q, release_ref m r))"

definition enqueueToSubscriber :: "nat \<Rightarrow> nat \<Rightarrow> byte \<Rightarrow> Router \<Rightarrow> nat option \<times> Router" where
  "enqueueToSubscriber idx m p r =
     (let p = unat (if p > PriorityLow then DefaultPriority else p) in
      if idx \<ge> length (r_queues r) \<or> \<not> r_active r ! idx then (None, r)
      else
        let q = (case queue r idx p of None \<Rightarrow> getQueueFromPool | Some q \<Rightarrow> q);
            (dc, q, r) =
              (if length q < r_queueSize r then (None, q @ [m], r)
               else handleOverflow idx (r_topics r ! idx) q m r);
            r = set_queue idx p (Some q) r
        in (dc, r\<lparr>r_notify := (r_notify r)[idx := True]\<rparr>))"

text \<open>A queue that becomes empty is taken away from the slot.\<close>

definition cleanupEmptyQueue :: "nat \<Rightarrow> nat \<Rightarrow> Router \<Rightarrow> Router" where
  "cleanupEmptyQueue i p r =
     (case queue r i p of
        Some [] \<Rightarrow> returnQueueToPool [] (set_queue i p None r)
      | _ \<Rightarrow> r)"

fun fetch_from :: "nat list \<Rightarrow> nat \<Rightarrow> Router \<Rightarrow> (nat \<times> byte) option \<times> Router" where
  "fetch_from [] i r = (None, r)"
| "fetch_from (p # ps) i r =
     (case queue r i p of
        Some (m # q) \<Rightarrow> (Some (m, of_nat p), cleanupEmptyQueue i p (set_queue i p (Some q) r))
      | _ \<Rightarrow> fetch_from ps i r)"

definition fetchNextMessage :: "nat \<Rightarrow> Router \<Rightarrow> (nat \<times> byte) option \<times> Router" where
  "fetchNextMessage i r = fetch_from [0, 1, 2, 3] i r"

definition drain_queue :: "nat \<Rightarrow> nat \<Rightarrow> Router \<Rightarrow> Router" where
  "drain_queue i p r =
     (case queue r i p of None \<Rightarrow> r | Some q \<Rightarrow> returnQueueToPool q (set_queue i p None r))"

definition drainSubscriberQueues :: "nat \<Rightarrow> Router \<Rightarrow> Router" where
  "drainSubscriberQueues i r = fold (drain_queue i) [0, 1, 2, 3] r"


section \<open>Subscribers\<close>

definition countActiveLocked :: "Router \<Rightarrow> nat" where
  "countActiveLocked r = length (filter id (r_active r))"

definition report_active :: "Router \<Rightarrow> Router" where
  "report_active r = (if r_metrics r then emit (SetActiveSubscribers (countActiveLocked r)) r else r)"

definition rebuildGroupMembersLocked :: "Router \<Rightarrow> ConsumerGroup \<Rightarrow> ConsumerGroup" where
  "rebuildGroupMembersLocked r cg =
     cg\<lparr>cg_members := Some (filter (\<lambda>i. r_subGroups r ! i = cg_groupID cg \<and> i < length (r_active r) \<and>
        r_active r ! i \<and> r_topics r ! i = cg_topic cg) [0..<length (r_subGroups r)])\<rparr>"

text \<open>In a subscription only the first group with the name is used, and one is made if there is none.\<close>

fun join_group :: "Router \<Rightarrow> bytes \<Rightarrow> bytes \<Rightarrow> ConsumerGroup list \<Rightarrow> ConsumerGroup list" where
  "join_group r groupID topic [] =
     [rebuildGroupMembersLocked r \<lparr>cg_groupID = groupID, cg_topic = topic, cg_counter = 0, cg_members = None\<rparr>]"
| "join_group r groupID topic (g # gs) =
     (if cg_groupID g = groupID then rebuildGroupMembersLocked r g # gs
      else g # join_group r groupID topic gs)"

text \<open>When a member leaves, every group with its name is rebuilt.\<close>

definition leave_group :: "nat \<Rightarrow> Router \<Rightarrow> Router" where
  "leave_group i r =
     (if i < length (r_subGroups r) \<and> r_subGroups r ! i \<noteq> [] then
        let h = CombineHashStrings (str ''topic'') (r_topics r ! i) in
        r\<lparr>r_groups := (r_groups r)(h := map (\<lambda>cg. if cg_groupID cg = r_subGroups r ! i
             then rebuildGroupMembersLocked r cg else cg) (r_groups r h))\<rparr>
      else r)"

definition new_writer :: Writer where
  "new_writer = \<lparr>w_buf = [], w_refs = [], w_timer = False, w_cache = (\<lambda>_. None), w_keys = [], w_running = True\<rparr>"

definition append_slot :: "u32 \<Rightarrow> nat \<Rightarrow> SubscriptionSpec \<Rightarrow> Router \<Rightarrow> Router" where
  "append_slot streamID stream spec r =
     r\<lparr>r_streamIDs := r_streamIDs r @ [streamID], r_streams := r_streams r @ [stream],
       r_topics := r_topics r @ [sp_Topic spec], r_active := r_active r @ [True],
       r_queues := r_queues r @ [[None, None, None, None]], r_notify := r_notify r @ [False],
       r_nackChs := r_nackChs r @ [[]], r_cancelled := r_cancelled r @ [False],
       r_writers := r_writers r @ [new_writer], r_subGroups := r_subGroups r @ [sp_GroupID spec]\<rparr>"

definition GetTopicOffset :: "bytes \<Rightarrow> Router \<Rightarrow> u64" where
  "GetTopicOffset topic r =
     (case r_topicOffsets r (CombineHashStrings (str ''topic'') topic) of None \<Rightarrow> 0 | Some n \<Rightarrow> n)"

text \<open>A group or the topic index gets the slot. The start offset of a group may be replaced by the stored one.\<close>

definition register_group :: "u64 \<Rightarrow> SubscriptionSpec \<Rightarrow> Router \<Rightarrow> u64 \<times> Router" where
  "register_group topicHash spec r =
     (let r = r\<lparr>r_groups := (r_groups r)(topicHash :=
            join_group r (sp_GroupID spec) (sp_Topic spec) (r_groups r topicHash))\<rparr>;
          key = CombineHashStrings (sp_GroupID spec) (sp_Topic spec)
      in if sp_IsDurable spec \<or> sp_RequestedOffset spec > 0 then
           let (off, r) =
             (if sp_RequestedOffset spec = 0 then (r_durableOffsets r key, r)
              else (sp_RequestedOffset spec,
                    r\<lparr>r_durableOffsets := (r_durableOffsets r)(key := sp_RequestedOffset spec)\<rparr>))
           in (off, emit (ConsumerOffset (sp_GroupID spec) (sp_Topic spec) (r_durableOffsets r key)) r)
         else (sp_RequestedOffset spec, r))"

definition Subscribe :: "nat option \<Rightarrow> Frame \<Rightarrow> Router \<Rightarrow> router_error option \<times> Router" where
  "Subscribe stream frame r =
     (case stream of None \<Rightarrow> (Some errNilStream, r)
      | Some s \<Rightarrow>
          (case parseSubscriptionPayload (f_Payload frame) of
             Err e \<Rightarrow> (Some (errSubscribe e), r)
           | Panic \<Rightarrow> (None, r)
           | Ok spec \<Rightarrow>
               let topicHash = topicHashKey (sp_Topic spec);
                   idx = length (r_streamIDs r);
                   r = append_slot (f_StreamID frame) s spec r;
                   (off, r) =
                     (if sp_GroupID spec \<noteq> [] then register_group topicHash spec r
                      else (sp_RequestedOffset spec,
                            r\<lparr>r_topicIndex := (r_topicIndex r)(topicHash := r_topicIndex r topicHash @ [idx])\<rparr>));
                   r = (if IsWildcardTopic (sp_Topic spec)
                        then r\<lparr>r_wildcardSubs := r_wildcardSubs r @ [\<lparr>ws_pattern = sp_Topic spec, ws_idx = idx\<rparr>]\<rparr>
                        else r);
                   r = (if sp_IsDurable spec \<and> sp_GroupID spec = []
                        then emit (ConsumerOffset (sp_ConsumerID spec) (sp_Topic spec) off)
                               (emit DurableSubscriberAdded
                                 (r\<lparr>r_durableOffsets := (r_durableOffsets r)
                                     (CombineHashStrings (sp_ConsumerID spec) (sp_Topic spec) := off)\<rparr>))
                        else r);
                   r = report_active r;
                   latestOffset = GetTopicOffset (sp_Topic spec) r;
                   r = (if sp_IsDurable spec \<and> off < latestOffset \<and> r_aalPath r \<noteq> []
                        then emit (StartBackfill (sp_Topic spec) (sp_ConsumerID spec) off latestOffset idx) r else r)
               in (None, r)))"

fun find_slot :: "u32 \<Rightarrow> Router \<Rightarrow> nat list \<Rightarrow> nat option" where
  "find_slot sid r [] = None"
| "find_slot sid r (i # is) = (if r_streamIDs r ! i = sid \<and> r_active r ! i then Some i else find_slot sid r is)"

definition TopicOfStream :: "u32 \<Rightarrow> Router \<Rightarrow> bytes option" where
  "TopicOfStream streamID r = map_option (\<lambda>i. r_topics r ! i) (find_slot streamID r [0..<length (r_streamIDs r)])"

definition NackByStream :: "u32 \<Rightarrow> u64 \<Rightarrow> Router \<Rightarrow> Router" where
  "NackByStream streamID off r =
     (case find_slot streamID r (filter (\<lambda>i. i < length (r_nackChs r)) [0..<length (r_streamIDs r)]) of
        None \<Rightarrow> r
      | Some i \<Rightarrow>
          if length (r_nackChs r ! i) < 8
          then r\<lparr>r_nackChs := (r_nackChs r)[i := r_nackChs r ! i @ [off]]\<rparr> else r)"

definition ack_slot :: "bytes \<Rightarrow> bytes \<Rightarrow> u64 \<Rightarrow> nat \<Rightarrow> Router \<Rightarrow> Router" where
  "ack_slot consumerID topic off i r =
     (let groupID = r_subGroups r ! i in
      if groupID \<noteq> [] \<and> r_topics r ! i = topic then
        let groupKey = CombineHashStrings groupID topic in
        if groupID = consumerID \<or> (r_active r ! i \<and> r_subGroups r ! i = consumerID)
        then emit (ConsumerOffset groupID topic off) (r\<lparr>r_durableOffsets := (r_durableOffsets r)(groupKey := off)\<rparr>)
        else r
      else r)"

definition AckOffset :: "bytes \<Rightarrow> bytes \<Rightarrow> u64 \<Rightarrow> Router \<Rightarrow> Router" where
  "AckOffset consumerID topic off r =
     (let durableKey = CombineHashStrings consumerID topic;
          r = r\<lparr>r_durableOffsets := (r_durableOffsets r)(durableKey := off)\<rparr>;
          r = fold (ack_slot consumerID topic off) [0..<length (r_subGroups r)] r
      in emit (ConsumerOffset consumerID topic off) r)"

definition GetConsumerOffset :: "bytes \<Rightarrow> bytes \<Rightarrow> Router \<Rightarrow> u64" where
  "GetConsumerOffset consumerID topic r = r_durableOffsets r (CombineHashStrings consumerID topic)"

definition GetGroupOffset :: "bytes \<Rightarrow> bytes \<Rightarrow> Router \<Rightarrow> u64" where
  "GetGroupOffset groupID topic r = GetConsumerOffset groupID topic r"

definition SetGroupOffset :: "bytes \<Rightarrow> bytes \<Rightarrow> u64 \<Rightarrow> Router \<Rightarrow> Router" where
  "SetGroupOffset groupID topic off r = AckOffset groupID topic off r"

definition disconnectSubscriber :: "nat \<Rightarrow> Router \<Rightarrow> Router" where
  "disconnectSubscriber idx r =
     (if idx < length (r_active r) \<and> r_active r ! idx then
        let r = r\<lparr>r_active := (r_active r)[idx := False], r_cancelled := (r_cancelled r)[idx := True]\<rparr>;
            r = emit (StreamClosed (r_streams r ! idx)) r;
            r = leave_group idx r
        in report_active r
      else r)"

definition unsubscribe_slot :: "u32 \<Rightarrow> nat \<Rightarrow> Router \<Rightarrow> Router" where
  "unsubscribe_slot streamID i r =
     (if r_streamIDs r ! i = streamID \<and> r_active r ! i then
        leave_group i (r\<lparr>r_active := (r_active r)[i := False], r_cancelled := (r_cancelled r)[i := True]\<rparr>)
      else r)"

definition Unsubscribe :: "u32 \<Rightarrow> Router \<Rightarrow> Router" where
  "Unsubscribe streamID r =
     report_active (fold (unsubscribe_slot streamID) [0..<length (r_streamIDs r)] r)"

definition close_slot :: "nat \<Rightarrow> Router \<Rightarrow> Router" where
  "close_slot i r =
     (if r_active r ! i
      then r\<lparr>r_active := (r_active r)[i := False], r_cancelled := (r_cancelled r)[i := True]\<rparr> else r)"

text \<open>\<^verbatim>\<open>Close\<close> then waits until every writer has stopped.\<close>

definition Close_begin :: "Router \<Rightarrow> Router" where
  "Close_begin r = fold close_slot [0..<length (r_active r)] r"

definition Close_returns :: "Router \<Rightarrow> bool" where
  "Close_returns r \<longleftrightarrow> (\<forall>w\<in>set (r_writers r). \<not> w_running w)"

section \<open>Publishing\<close>

definition nextTopicOffset :: "u64 \<Rightarrow> Router \<Rightarrow> u64 \<times> Router" where
  "nextTopicOffset topicHash r =
     (let n = (case r_topicOffsets r topicHash of None \<Rightarrow> 0 | Some n \<Rightarrow> n) + 1
      in (n, r\<lparr>r_topicOffsets := (r_topicOffsets r)(topicHash := Some n)\<rparr>))"

definition dispatch_one :: "nat \<Rightarrow> byte \<Rightarrow> nat \<Rightarrow> nat list \<times> Router \<Rightarrow> nat list \<times> Router" where
  "dispatch_one m pLevel idx st =
     (case st of (dcs, r) \<Rightarrow>
        if idx < length (r_active r) \<and> r_active r ! idx then
          (case enqueueToSubscriber idx m pLevel (retain_ref m r) of
             (Some dc, r) \<Rightarrow> (dcs @ [dc], r)
           | (None, r) \<Rightarrow> (dcs, r))
        else (dcs, r))"

definition dispatch_exact :: "nat \<Rightarrow> byte \<Rightarrow> nat list \<Rightarrow> nat list \<times> Router \<Rightarrow> nat list \<times> Router" where
  "dispatch_exact m pLevel indices st = fold (dispatch_one m pLevel) indices st"

definition dispatch_wildcards ::
    "nat \<Rightarrow> byte \<Rightarrow> bytes \<Rightarrow> WildcardSub list \<Rightarrow> nat list \<times> Router \<Rightarrow> nat list \<times> Router" where
  "dispatch_wildcards m pLevel topic subs st =
     fold (\<lambda>w st. if MatchWildcard (ws_pattern w) topic then dispatch_one m pLevel (ws_idx w) st else st) subs st"

definition dispatch_group :: "nat \<Rightarrow> byte \<Rightarrow> u64 \<Rightarrow> nat \<Rightarrow> nat list \<times> Router \<Rightarrow> nat list \<times> Router" where
  "dispatch_group m pLevel topicHash j st =
     (case st of (dcs, r) \<Rightarrow>
        let g = r_groups r topicHash ! j in
        case cg_members g of
          None \<Rightarrow> (dcs, r)
        | Some members \<Rightarrow>
            if members = [] then (dcs, r)
            else let val = cg_counter g + 1;
                     r = r\<lparr>r_groups := (r_groups r)(topicHash :=
                           (r_groups r topicHash)[j := g\<lparr>cg_counter := val\<rparr>])\<rparr>;
                     chosenIdx = members ! unat ((val - 1) mod of_nat (length members))
                 in dispatch_one m pLevel chosenIdx (dcs, r))"

definition dispatch_groups :: "nat \<Rightarrow> byte \<Rightarrow> u64 \<Rightarrow> nat list \<times> Router \<Rightarrow> nat list \<times> Router" where
  "dispatch_groups m pLevel topicHash st =
     fold (dispatch_group m pLevel topicHash) [0..<length (r_groups (snd st) topicHash)] st"

definition priority_of :: "Frame \<Rightarrow> byte" where
  "priority_of frame =
     (if HasExtensions frame then
        (case (ExtractPriority (f_Extensions frame) :: (unit, byte \<times> bool) res) of
           Ok (p, True) \<Rightarrow> p | _ \<Rightarrow> DefaultPriority)
      else DefaultPriority)"

definition expiry_and_topic :: "env \<Rightarrow> byte \<Rightarrow> bytes \<Rightarrow> Router \<Rightarrow> int \<times> bytes" where
  "expiry_and_topic env pLevel payload r =
     (let ttl = r_priorityTTLs r ! unat pLevel in
      if ttl > 0 then (i64 (e_now env + ttl), snd (parsePublishTopic (e_now env) payload))
      else parsePublishTopic (e_now env) payload)"

definition publish_buf :: "env \<Rightarrow> Frame \<Rightarrow> bytes \<Rightarrow> bytes" where
  "publish_buf env frame cleanTopic =
     (if HasExtensions frame
      then SerializeFrameWithExtensions (e_acq env) CmdPublish 0 (f_Extensions frame) cleanTopic
      else SerializeFrame (e_acq env) (e_raw env) CmdPublish 0 cleanTopic)"

definition has_peers :: "Router \<Rightarrow> bool" where
  "has_peers r = (case r_peers r of None \<Rightarrow> False | Some n \<Rightarrow> n > 0)"

definition publishWithClientID :: "env \<Rightarrow> Frame \<Rightarrow> bytes \<Rightarrow> Router \<Rightarrow> router_error option \<times> Router" where
  "publishWithClientID env frame clientID r =
     (if unat (f_PayloadLen frame) > maxPayloadSize then (Some errPayloadTooLarge, r)
      else case Manager_TryAcquire (r_quotaManager r) clientID of (ok, qm) \<Rightarrow>
        let r = r\<lparr>r_quotaManager := qm\<rparr> in
        if \<not> ok then (None, if r_metrics r then emit (OnRateLimited clientID) r else r)
        else
          let pLevel = priority_of frame;
              (expiresAt, cleanTopic) = expiry_and_topic env pLevel (f_Payload frame) r;
              topicHash = topicHashKey cleanTopic;
              (msgOffset, r) = nextTopicOffset topicHash r;
              indices = r_topicIndex r topicHash;
              hasWildcards = r_wildcardSubs r \<noteq> [];
              hasPeers = has_peers r;
              hasGroups = r_groups r topicHash \<noteq> []
          in if indices = [] \<and> \<not> hasWildcards \<and> \<not> hasPeers \<and> \<not> hasGroups then (None, r)
             else
               let r = (if r_metrics r then emit (OnPublish cleanTopic) r else r);
                   buf = publish_buf env frame cleanTopic;
                   (m, r) = acquire_ref env buf expiresAt msgOffset r;
                   r = (if hasPeers then emit (Forward buf True) r else r);
                   st = dispatch_exact m pLevel indices ([], r);
                   st = (if hasWildcards then dispatch_wildcards m pLevel cleanTopic (r_wildcardSubs r) st else st);
                   (dcs, r) = (if hasGroups then dispatch_groups m pLevel topicHash st else st);
                   r = release_ref m r
               in (None, fold disconnectSubscriber dcs r))"

definition Publish :: "env \<Rightarrow> Frame \<Rightarrow> Router \<Rightarrow> router_error option \<times> Router" where
  "Publish env frame r = publishWithClientID env frame [] r"

definition PublishWithClientID :: "env \<Rightarrow> Frame \<Rightarrow> bytes \<Rightarrow> Router \<Rightarrow> router_error option \<times> Router" where
  "PublishWithClientID env frame clientID r = publishWithClientID env frame clientID r"

text \<open>The same without the quota and without the peers.\<close>

definition publishLocal :: "env \<Rightarrow> Frame \<Rightarrow> Router \<Rightarrow> router_error option \<times> Router" where
  "publishLocal env frame r =
     (if unat (f_PayloadLen frame) > maxPayloadSize then (Some errPayloadTooLarge, r)
      else
        let pLevel = priority_of frame;
            (expiresAt, cleanTopic) = expiry_and_topic env pLevel (f_Payload frame) r;
            topicHash = topicHashKey cleanTopic;
            (msgOffset, r) = nextTopicOffset topicHash r;
            indices = r_topicIndex r topicHash;
            hasWildcards = r_wildcardSubs r \<noteq> [];
            hasGroups = r_groups r topicHash \<noteq> []
        in if indices = [] \<and> \<not> hasWildcards \<and> \<not> hasGroups then (None, r)
           else
             let r = (if r_metrics r then emit (OnPublish cleanTopic) r else r);
                 buf = publish_buf env frame cleanTopic;
                 (m, r) = acquire_ref env buf expiresAt msgOffset r;
                 st = dispatch_exact m pLevel indices ([], r);
                 st = (if hasWildcards then dispatch_wildcards m pLevel cleanTopic (r_wildcardSubs r) st else st);
                 (dcs, r) = (if hasGroups then dispatch_groups m pLevel topicHash st else st);
                 r = release_ref m r
             in (None, fold disconnectSubscriber dcs r))"

definition PublishFromPeer :: "env \<Rightarrow> Frame \<Rightarrow> Router \<Rightarrow> router_error option \<times> Router" where
  "PublishFromPeer env frame r =
     publishLocal env (frame\<lparr>f_Command := OpcodeOf (f_Command frame)\<rparr>) (emit FrameReceivedFromPeer r)"


text \<open>One frame of a batch: a child of the batch is delivered, and nothing is done for a frame without receivers.\<close>

definition publish_sub ::
    "env \<Rightarrow> nat \<Rightarrow> nat list \<times> Router \<Rightarrow> bytes \<Rightarrow> (nat list \<times> Router) \<times> unit option" where
  "publish_sub env batchRef st subFrame =
     (case st of (dcs, r) \<Rightarrow>
        case ParseFrame subFrame of
          Ok sub \<Rightarrow>
            let subTopic = snd (parsePublishTopic (e_now env) (f_Payload sub));
                subTopicHash = topicHashKey subTopic;
                (msgOffset, r) = nextTopicOffset subTopicHash r;
                subIndices = r_topicIndex r subTopicHash;
                subHasWildcards = list_ex (\<lambda>w. MatchWildcard (ws_pattern w) subTopic) (r_wildcardSubs r);
                subHasGroups = r_groups r subTopicHash \<noteq> []
            in if subIndices = [] \<and> \<not> subHasWildcards \<and> \<not> subHasGroups then ((dcs, r), None)
               else
                 let pLevel = priority_of sub;
                     (child, h) = AcquireChildMessageRef (e_pick env) batchRef subFrame msgOffset 0 (r_heap r);
                     r = r\<lparr>r_heap := h\<rparr>;
                     st = dispatch_exact child pLevel subIndices (dcs, r);
                     st = dispatch_wildcards child pLevel subTopic (r_wildcardSubs r) st;
                     (dcs, r) = (if subHasGroups then dispatch_groups child pLevel subTopicHash st else st)
                 in ((dcs, release_ref child r), None)
        | _ \<Rightarrow> ((dcs, r), None))"

definition batch_buf :: "env \<Rightarrow> Frame \<Rightarrow> bytes" where
  "batch_buf env frame =
     (if HasExtensions frame
      then SerializeFrameWithExtensions (e_acq env) CmdPublishBatch 0 (f_Extensions frame) (f_Payload frame)
      else SerializeFrame (e_acq env) (e_raw env) CmdPublishBatch 0 (f_Payload frame))"

definition compressed_batch :: "env \<Rightarrow> Frame \<Rightarrow> Router \<Rightarrow> bytes option" where
  "compressed_batch env frame r =
     (case r_compression r of
        None \<Rightarrow> None
      | Some compress \<Rightarrow>
          if int (unat (f_PayloadLen frame)) \<ge> r_compressionMinSize r then
            map_option (\<lambda>compressed. SerializeFrameWithExtensions (e_acq env) CmdPublishBatch 0
                (BuildMergedExtensionsWithCompression (e_acq env) (f_Extensions frame) (f_PayloadLen frame)) compressed)
              (compress (f_Payload frame))
          else None)"

definition PublishBatch :: "env \<Rightarrow> Frame \<Rightarrow> Router \<Rightarrow> router_error option \<times> Router" where
  "PublishBatch env frame r =
     (if unat (f_PayloadLen frame) > maxPayloadSize then (Some errPayloadTooLarge, r)
      else
        let batchBuf = batch_buf env frame;
            (batchMsgRef, r) = acquire_ref env batchBuf 0 0 r;
            hasPeers = has_peers r;
            ((dcs, r), _) = ParseBatch (f_Payload frame) (publish_sub env batchMsgRef) ([], r);
            r = fold disconnectSubscriber dcs r;
            r = (if hasPeers then
                   (case compressed_batch env frame r of
                      Some forwardBuf \<Rightarrow> emit (Forward forwardBuf True) r
                    | None \<Rightarrow> emit (Forward batchBuf True) r)
                 else r)
        in (None, release_ref batchMsgRef r))"

section \<open>Replaying the log for a durable subscriber\<close>

definition backfill_frame ::
    "env \<Rightarrow> bytes \<Rightarrow> u64 \<Rightarrow> u64 \<Rightarrow> nat \<Rightarrow> u64 \<times> Router \<Rightarrow> bytes \<Rightarrow> (u64 \<times> Router) \<times> unit option" where
  "backfill_frame env topic startOffset endOffset idx st frameBytes =
     (case st of (currentMsgOffset, r) \<Rightarrow>
        if r_cancelled r ! idx then (st, Some ())
        else case ParseFrame frameBytes of
          Ok frame \<Rightarrow>
            if f_Command frame = CmdPublish then
              (case parsePublishTopic (e_now env) (f_Payload frame) of (tExp, cleanTopic) \<Rightarrow>
                 if cleanTopic = topic then
                   let currentMsgOffset = currentMsgOffset + 1 in
                   if currentMsgOffset > startOffset \<and> currentMsgOffset \<le> endOffset then
                     let buf = SerializeFrame (e_acq env) (e_raw env) CmdPublish 0 cleanTopic;
                         (m, r) = acquire_ref env buf tExp currentMsgOffset r;
                         r = retain_ref m r;
                         (dc, r) = enqueueToSubscriber idx m PriorityNormal r;
                         r = (case dc of Some i \<Rightarrow> disconnectSubscriber i r | None \<Rightarrow> r)
                     in ((currentMsgOffset, emit BackfillFrame r), None)
                   else ((currentMsgOffset, r), None)
                 else (st, None))
            else (st, None)
        | _ \<Rightarrow> (st, None))"

definition runBackfillWorker ::
    "env \<Rightarrow> cipher \<Rightarrow> bool \<Rightarrow> nat list \<Rightarrow> fs \<Rightarrow> bytes \<Rightarrow> u64 \<Rightarrow> u64 \<Rightarrow> nat \<Rightarrow> Router \<Rightarrow> Router option" where
  "runBackfillWorker env ci openable rs fs topic startOffset endOffset idx r =
     (if r_aalPath r = [] then Some r
      else case Replay ci openable rs fs (r_aalPath r) (r_aalKey r)
                  (backfill_frame env topic startOffset endOffset idx) (0, r) of
        None \<Rightarrow> None
      | Some (Ok (n, e, (off, r))) \<Rightarrow> Some r
      | Some _ \<Rightarrow> Some r)"

section \<open>The writer of a subscriber\<close>

definition set_writer :: "nat \<Rightarrow> Writer \<Rightarrow> Router \<Rightarrow> Router" where
  "set_writer i w r = r\<lparr>r_writers := (r_writers r)[i := w]\<rparr>"

text \<open>\<open>ok\<close> says whether the stream takes the write; a message may cause two writes, with a result each.\<close>

definition flush :: "bool \<Rightarrow> nat \<Rightarrow> Router \<Rightarrow> bool \<times> Router" where
  "flush ok i r =
     (let w = r_writers r ! i in
      if w_buf w = [] then (True, r)
      else
        let r = set_writer i (w\<lparr>w_buf := [], w_refs := []\<rparr>) r;
            r = (if ok then emit (StreamWrite (r_streams r ! i) (w_buf w)) r else r)
        in (ok, fold release_ref (w_refs w) r))"

definition storeFrame :: "u64 \<Rightarrow> bytes \<Rightarrow> Writer \<Rightarrow> Writer" where
  "storeFrame off topicName w =
     (if w_cache w off \<noteq> None then w
      else
        let w = (if length (w_keys w) \<ge> defaultNackCacheSize
                 then w\<lparr>w_cache := (w_cache w)(hd (w_keys w) := None), w_keys := tl (w_keys w)\<rparr> else w)
        in w\<lparr>w_cache := (w_cache w)(off \<mapsto> topicName), w_keys := w_keys w @ [off]\<rparr>)"

definition retry_ext :: "u64 \<Rightarrow> bytes" where
  "retry_ext nackOffset =
     (let b = replicate (ExtHeaderLen + ExtEntryHeader + 8) 0;
          b = SetExtTotalLen b 0 (ExtEntryHeader + 8);
          b = b[ExtHeaderLen := ExtRetryOffset];
          b = b[ExtHeaderLen + 1 := 8]
      in write_at b (ExtHeaderLen + 2) (put_u64 nackOffset))"

definition topic_frame :: "bytes \<Rightarrow> bytes \<Rightarrow> Frame" where
  "topic_frame topicName ext =
     \<lparr>f_Command = CmdPublish, f_StreamID = 0, f_PayloadLen = of_nat (length topicName),
      f_Payload = topicName, f_Extensions = ext\<rparr>"

definition handleNack :: "env \<Rightarrow> nat \<Rightarrow> u64 \<Rightarrow> Router \<Rightarrow> Router" where
  "handleNack env i nackOffset r =
     (case w_cache (r_writers r ! i) nackOffset of
        None \<Rightarrow> r
      | Some topicName \<Rightarrow>
          let key = \<lparr>nk_topicHash = CombineHashStrings (str ''topic'') topicName, nk_offset = nackOffset\<rparr>;
              count = r_nackCounters r key + 1;
              r = r\<lparr>r_nackCounters := (r_nackCounters r)(key := count)\<rparr>;
              r = emit (MessageNacked topicName) r
          in if sint count < r_maxRetries r
             then snd (Publish env (topic_frame topicName (retry_ext nackOffset)) r)
             else
               let r = emit (MessageDeadLettered topicName) r;
                   r = r\<lparr>r_nackCounters := (r_nackCounters r)(key := 0)\<rparr>
               in snd (Publish env (topic_frame (str ''__dlq__'' @ topicName) []) r))"

definition delivery_offset :: "bytes \<Rightarrow> u64 \<Rightarrow> u64" where
  "delivery_offset buf off =
     (if length buf \<ge> HeaderSize \<and> buf ! 1 AND HasExtensionsBit \<noteq> 0 then
        (case (FindExtension (drop HeaderSize buf) ExtRetryOffset :: (unit, bytes option) res) of
           Ok (Some v) \<Rightarrow> if length v \<ge> 8 then get_u64 v else off
         | _ \<Rightarrow> off)
      else off)"

definition append_offset :: "bytes \<Rightarrow> bytes \<Rightarrow> u64 \<Rightarrow> bytes" where
  "append_offset groupID buf off =
     (if groupID \<noteq> [] \<and> length buf \<ge> HeaderSize then
        let dataLen = get_u32 (slice buf 6 10);
            oldTotal = HeaderSize + unat dataLen
        in if length buf \<ge> oldTotal
           then write_at (take oldTotal buf) 6 (put_u32 (dataLen + 8)) @ put_u64 off else buf
      else buf)"

text \<open>The goroutine returns: the deferred function flushes and drains.\<close>

definition writer_exit :: "bool \<Rightarrow> nat \<Rightarrow> Router \<Rightarrow> Router" where
  "writer_exit ok i r =
     (case flush ok i r of (_, r) \<Rightarrow>
        let r = set_writer i ((r_writers r ! i)\<lparr>w_running := False, w_timer := False\<rparr>) r
        in drainSubscriberQueues i r)"

definition append_message :: "nat \<Rightarrow> nat \<Rightarrow> bytes \<Rightarrow> Router \<Rightarrow> Router" where
  "append_message i m buf r =
     (let w = r_writers r ! i;
          firstMsg = (w_buf w = [])
      in set_writer i (w\<lparr>w_buf := w_buf w @ buf, w_refs := w_refs w @ [m], w_timer := firstMsg \<or> w_timer w\<rparr>) r)"

definition deliver :: "bool \<times> bool \<Rightarrow> nat \<Rightarrow> nat \<Rightarrow> bytes \<Rightarrow> Router \<Rightarrow> Router" where
  "deliver oks i m buf r =
     (let w = r_writers r ! i;
          (fine, r) = (if w_buf w \<noteq> [] \<and> length (w_buf w) + length buf > r_batchSize r then flush (fst oks) i r else (True, r))
      in if \<not> fine then writer_exit (fst oks) i (release_ref m r)
         else
           let r = append_message i m buf r;
               (fine, r) = (if length (w_buf (r_writers r ! i)) \<ge> r_batchSize r then flush (snd oks) i r else (True, r))
           in if \<not> fine then writer_exit (snd oks) i r
              else if r_metrics r then emit (OnDeliver (r_topics r ! i)) r else r)"

definition writer_message :: "env \<Rightarrow> bool \<times> bool \<Rightarrow> nat \<Rightarrow> nat \<Rightarrow> byte \<Rightarrow> Router \<Rightarrow> Router" where
  "writer_message env oks i m pLevel r =
     (if IsExpired (Some m) (e_now env) (r_heap r)
      then emit (MessageExpired (r_topics r ! i) pLevel) (release_ref m r)
      else case Buf (Some m) (r_heap r) of
        None \<Rightarrow> release_ref m r
      | Some buf \<Rightarrow>
          if buf = [] then release_ref m r
          else
            let off = delivery_offset buf (Offset (Some m) (r_heap r));
                r = set_writer i (storeFrame off (r_topics r ! i) (r_writers r ! i)) r
            in deliver oks i m (append_offset (r_subGroups r ! i) buf off) r)"

text \<open>One round of the loop. When no message is queued, the select takes one of the ready cases.\<close>

datatype writer_event = CtxDone | TimerFired | NackReady | Notified

fun writer_select :: "env \<Rightarrow> bool \<Rightarrow> writer_event \<Rightarrow> nat \<Rightarrow> Router \<Rightarrow> Router" where
  "writer_select env ok CtxDone i r = (if r_cancelled r ! i then writer_exit ok i r else r)"
| "writer_select env ok TimerFired i r =
     (if w_timer (r_writers r ! i) then
        case flush ok i (set_writer i ((r_writers r ! i)\<lparr>w_timer := False\<rparr>) r) of (fine, r) \<Rightarrow>
          if fine then r else writer_exit ok i r
      else r)"
| "writer_select env ok NackReady i r =
     (case r_nackChs r ! i of
        [] \<Rightarrow> r
      | nackOffset # rest \<Rightarrow> handleNack env i nackOffset (r\<lparr>r_nackChs := (r_nackChs r)[i := rest]\<rparr>))"
| "writer_select env ok Notified i r = r\<lparr>r_notify := (r_notify r)[i := False]\<rparr>"

definition writer_round :: "env \<Rightarrow> bool \<times> bool \<Rightarrow> writer_event \<Rightarrow> nat \<Rightarrow> Router \<Rightarrow> Router" where
  "writer_round env oks ev i r =
     (if i < length (r_writers r) \<and> w_running (r_writers r ! i) then
        (case fetchNextMessage i r of
           (Some (m, pLevel), r) \<Rightarrow> writer_message env oks i m pLevel r
         | (None, r) \<Rightarrow> writer_select env (fst oks) ev i r)
      else r)"

end
