(* ===== verification/Router_Inv.thy ===== *)
theory Router_Inv
  imports Router
begin

text \<open>
  The invariant of the router and its preservation by every operation: the parallel lists agree in length,
  queues respect their capacity, the topic index, the wildcard list and the consumer groups describe the
  slots, and the reference counters match the handles in queues and writers.
\<close>

named_theorems router_simps
  \<open>how the small state changes of the router act on its fields\<close>

section \<open>Handles held by queues and writers\<close>

definition content :: "nat list option \<Rightarrow> nat list" where
  "content q = (case q of None \<Rightarrow> [] | Some q \<Rightarrow> q)"

definition slot_handles :: "queues \<Rightarrow> nat multiset" where
  "slot_handles qs = sum_list (map (\<lambda>q. mset (content q)) qs)"

definition handles :: "Router \<Rightarrow> nat multiset" where
  "handles r = sum_list (map slot_handles (r_queues r)) + sum_list (map (\<lambda>w. mset (w_refs w)) (r_writers r))"

lemma content_simps [simp]: "content None = []" "content (Some q) = q"
  by (simp_all add: content_def)

lemma sum_list_update_add:
  "k < length xs \<Longrightarrow> sum_list (map f (xs[k := x])) + f (xs ! k) = sum_list (map f xs) + f x"
  for f :: "'a \<Rightarrow> 'b multiset"
proof (induction xs arbitrary: k)
  case (Cons y ys)
  then show ?case by (cases k) (auto simp: ac_simps)
qed simp

lemma mset_move:
  assumes "S' + B = S + A" "A + a = B + b"
  shows "S' + a = S + (b :: 'a multiset)"
proof -
  have "S' + a + B = (S' + B) + a" by (simp add: ac_simps)
  also have "\<dots> = S + (A + a)" unfolding assms(1) by (simp add: ac_simps)
  also have "\<dots> = S + b + B" unfolding assms(2) by (simp add: ac_simps)
  finally show ?thesis by simp
qed

lemma mset_move2:
  assumes "H' + a = H + b" "X + a = Y + b"
  shows "H' + Y = H + (X :: 'a multiset)"
proof -
  have "H' + Y + (a + b) = (H' + a) + (Y + b)" by (simp add: ac_simps)
  also have "\<dots> = H + X + (a + b)" unfolding assms(1) assms(2) [symmetric] by (simp add: ac_simps)
  finally show ?thesis by simp
qed

lemma handles_set_queue:
  assumes "i < length (r_queues r)" "p < length (r_queues r ! i)"
  shows "handles (set_queue i p q r) + mset (content (queue r i p)) = handles r + mset (content q)"
proof -
  have e1: "slot_handles ((r_queues r ! i)[p := q]) + mset (content (queue r i p)) =
      slot_handles (r_queues r ! i) + mset (content q)"
    using sum_list_update_add [OF assms(2), of "\<lambda>q. mset (content q)" q] by (simp add: slot_handles_def)
  have e2: "sum_list (map slot_handles ((r_queues r)[i := (r_queues r ! i)[p := q]])) + slot_handles (r_queues r ! i) =
      sum_list (map slot_handles (r_queues r)) + slot_handles ((r_queues r ! i)[p := q])"
    by (rule sum_list_update_add [OF assms(1)])
  show ?thesis using mset_move [OF e2 e1] by (simp add: handles_def set_queue_def ac_simps)
qed

lemma handles_set_writer:
  assumes "i < length (r_writers r)"
  shows "handles (set_writer i w r) + mset (w_refs (r_writers r ! i)) = handles r + mset (w_refs w)"
  using sum_list_update_add [OF assms, of "\<lambda>w. mset (w_refs w)" w]
  by (simp add: handles_def set_writer_def ac_simps)

definition refs_ok :: "Router \<Rightarrow> nat multiset \<Rightarrow> bool" where
  "refs_ok r X \<longleftrightarrow> ref_inv (r_heap r) (handles r + X) {..<r_nextBuf r}"

definition cnt :: "Router \<Rightarrow> nat \<Rightarrow> nat" where
  "cnt r m = unat (mr_ref (mr (r_heap r) m))"

lemma handles_cong: "r_queues r' = r_queues r \<Longrightarrow> r_writers r' = r_writers r \<Longrightarrow> handles r' = handles r"
  by (simp add: handles_def)

lemma refs_ok_cong:
  "r_queues r' = r_queues r \<Longrightarrow> r_writers r' = r_writers r \<Longrightarrow> r_heap r' = r_heap r \<Longrightarrow>
     r_nextBuf r' = r_nextBuf r \<Longrightarrow> refs_ok r' X \<longleftrightarrow> refs_ok r X"
  by (simp add: refs_ok_def handles_def)

section \<open>Releasing and retaining\<close>

lemma release_ref_simps [simp]:
  "r_queues (release_ref m r) = r_queues r" "r_writers (release_ref m r) = r_writers r"
  "r_nextBuf (release_ref m r) = r_nextBuf r" "handles (release_ref m r) = handles r"
  by (simp_all add: release_ref_def handles_def)

lemma refs_ok_release: "refs_ok r (add_mset m X) \<Longrightarrow> refs_ok (release_ref m r) X"
  using Release_msg_inv [of "r_heap r" "handles r + add_mset m X" "{..<r_nextBuf r}" m]
  by (simp add: refs_ok_def release_ref_def Release_def handles_def)

lemma cnt_release: "refs_ok r X \<Longrightarrow> m \<in># X \<Longrightarrow> cnt (release_ref m r) x \<le> cnt r x"
  using Release_msg_ref_le [of "r_heap r" "handles r + X" "{..<r_nextBuf r}" m x]
  by (simp add: refs_ok_def release_ref_def Release_def cnt_def)

lemma refs_ok_retain:
  assumes "refs_ok r X" "m \<in># X" "cnt r m < 2 ^ 31"
  shows "refs_ok (retain_ref m r) (add_mset m X)" "cnt (retain_ref m r) m = Suc (cnt r m)"
    "x \<noteq> m \<Longrightarrow> cnt (retain_ref m r) x = cnt r x"
proof -
  have "handles (retain_ref m r) = handles r" by (simp add: retain_ref_def handles_def)
  then show "refs_ok (retain_ref m r) (add_mset m X)"
    using Retain_inv [of "r_heap r" "handles r + X" "{..<r_nextBuf r}" m] assms
    by (simp add: refs_ok_def retain_ref_def cnt_def)
  have "m < length (rh_refs (r_heap r))"
    using assms handle_alive(1) [of "r_heap r" "handles r + X" m] by (simp add: refs_ok_def ref_inv_def)
  then show "cnt (retain_ref m r) m = Suc (cnt r m)" "x \<noteq> m \<Longrightarrow> cnt (retain_ref m r) x = cnt r x"
    using assms(3) unat_succ [of "mr_ref (mr (r_heap r) m)"]
    by (simp_all add: retain_ref_def cnt_def Retain_def mr_upd)
qed

lemma refs_ok_release_all:
  "refs_ok r (mset ms + X) \<Longrightarrow> refs_ok (fold release_ref ms r) X"
  by (induction ms arbitrary: r) (simp_all add: refs_ok_release)

lemma handles_move_queue:
  assumes "refs_ok r X" "i < length (r_queues r)" "p < length (r_queues r ! i)"
    and "X + mset (content (queue r i p)) = Y + mset (content q)"
  shows "refs_ok (set_queue i p q r) Y"
  using mset_move2 [OF handles_set_queue [OF assms(2,3)] assms(4)] assms(1)
  by (simp add: refs_ok_def set_queue_def)

lemma handles_move_writer:
  assumes "refs_ok r X" "i < length (r_writers r)"
    and "X + mset (w_refs (r_writers r ! i)) = Y + mset (w_refs w)"
  shows "refs_ok (set_writer i w r) Y"
  using mset_move2 [OF handles_set_writer [OF assms(2)] assms(3)] assms(1)
  by (simp add: refs_ok_def set_writer_def)


section \<open>The parallel lists\<close>

abbreviation slots :: "Router \<Rightarrow> nat" where "slots r \<equiv> length (r_streamIDs r)"

definition lengths_ok :: "Router \<Rightarrow> bool" where
  "lengths_ok r \<longleftrightarrow>
     length (r_streams r) = slots r \<and> length (r_topics r) = slots r \<and> length (r_active r) = slots r \<and>
     length (r_queues r) = slots r \<and> length (r_notify r) = slots r \<and> length (r_nackChs r) = slots r \<and>
     length (r_cancelled r) = slots r \<and> length (r_writers r) = slots r \<and> length (r_subGroups r) = slots r \<and>
     length (r_priorityTTLs r) = 4 \<and> (\<forall>i < slots r. r_active r ! i \<or> r_cancelled r ! i)"

lemma nth_update_any: "k < length xs \<Longrightarrow> xs[i := x] ! k = (if i = k then x else xs ! k)"
  by (cases "i = k") simp_all

definition queues_ok :: "Router \<Rightarrow> bool" where
  "queues_ok r \<longleftrightarrow> 0 < r_queueSize r \<and>
     (\<forall>qs\<in>set (r_queues r). length qs = 4 \<and> (\<forall>q\<in>set qs. length (content q) \<le> r_queueSize r)) \<and>
     (\<forall>ch\<in>set (r_nackChs r). length ch \<le> 8)"

text \<open>What the delivery of messages leaves alone.\<close>

definition static :: "Router \<Rightarrow> Router \<Rightarrow> bool" where
  "static r r' \<longleftrightarrow>
     r_streamIDs r' = r_streamIDs r \<and> r_streams r' = r_streams r \<and> r_topics r' = r_topics r \<and>
     r_active r' = r_active r \<and> r_nackChs r' = r_nackChs r \<and> r_cancelled r' = r_cancelled r \<and>
     r_writers r' = r_writers r \<and> r_topicIndex r' = r_topicIndex r \<and> r_subGroups r' = r_subGroups r \<and>
     r_wildcardSubs r' = r_wildcardSubs r \<and> r_topicOffsets r' = r_topicOffsets r \<and>
     r_durableOffsets r' = r_durableOffsets r \<and> r_nackCounters r' = r_nackCounters r \<and>
     r_maxRetries r' = r_maxRetries r \<and> r_quotaManager r' = r_quotaManager r \<and>
     r_aalPath r' = r_aalPath r \<and> r_aalKey r' = r_aalKey r \<and> r_peers r' = r_peers r \<and>
     r_metrics r' = r_metrics r \<and> r_queueSize r' = r_queueSize r \<and> r_policy r' = r_policy r \<and>
     r_batchSize r' = r_batchSize r \<and> r_priorityTTLs r' = r_priorityTTLs r \<and>
     r_compression r' = r_compression r \<and> r_compressionMinSize r' = r_compressionMinSize r \<and>
     length (r_queues r') = length (r_queues r) \<and> length (r_notify r') = length (r_notify r)"

lemma static_refl [simp]: "static r r"
  by (simp add: static_def)

lemma static_trans: "static r r' \<Longrightarrow> static r' r'' \<Longrightarrow> static r r''"
  by (simp add: static_def)

lemma static_small [simp]:
  "static r (emit e r)" "static r (release_ref m r)" "static r (retain_ref m r)"
  "static r (set_queue i p q r)" "static r (r\<lparr>r_notify := (r_notify r)[k := b]\<rparr>)"
  "static r (r\<lparr>r_heap := h\<rparr>)"
  by (simp_all add: static_def emit_def release_ref_def retain_ref_def set_queue_def)

text \<open>The other fields that the small changes leave alone.\<close>

lemma small_fields [simp]:
  "r_queues (emit e r) = r_queues r" "r_groups (emit e r) = r_groups r" "r_heap (emit e r) = r_heap r"
  "r_nextBuf (emit e r) = r_nextBuf r" "handles (emit e r) = handles r"
  "r_groups (release_ref m r) = r_groups r" "r_groups (retain_ref m r) = r_groups r"
  "r_queues (retain_ref m r) = r_queues r" "r_log (release_ref m r) = r_log r" "r_log (retain_ref m r) = r_log r"
  "r_heap (set_queue i p q r) = r_heap r" "r_groups (set_queue i p q r) = r_groups r"
  "r_log (set_queue i p q r) = r_log r" "r_nextBuf (retain_ref m r) = r_nextBuf r"
  "r_nextBuf (set_queue i p q r) = r_nextBuf r" "r_log (emit e r) = r_log r @ [e]"
  by (simp_all add: emit_def release_ref_def retain_ref_def set_queue_def handles_def)

lemma refs_ok_emit [simp]: "refs_ok (emit e r) X = refs_ok r X"
  by (simp add: refs_ok_def)

lemma cnt_small [simp]: "cnt (emit e r) m = cnt r m" "cnt (set_queue i p q r) m = cnt r m"
  by (simp_all add: cnt_def)

lemma lengths_ok_static: "static r r' \<Longrightarrow> lengths_ok r \<Longrightarrow> lengths_ok r'"
  by (simp add: static_def lengths_ok_def)

lemma queues_ok_set_queue:
  assumes "queues_ok r" "length (content q) \<le> r_queueSize r"
  shows "queues_ok (set_queue i p q r)"
proof (cases "i < length (r_queues r)")
  case True
  then have "\<forall>x\<in>set ((r_queues r ! i)[p := q]). length (content x) \<le> r_queueSize r"
    using assms set_update_subset_insert [of "r_queues r ! i" p q] by (fastforce simp: queues_ok_def)
  moreover have "set ((r_queues r)[i := (r_queues r ! i)[p := q]]) \<subseteq> insert ((r_queues r ! i)[p := q]) (set (r_queues r))"
    by (rule set_update_subset_insert)
  moreover have "length ((r_queues r ! i)[p := q]) = 4" using True assms(1) by (simp add: queues_ok_def)
  ultimately show ?thesis using assms(1) by (auto simp: queues_ok_def set_queue_def)
qed (use assms in \<open>simp add: set_queue_def queues_ok_def list_update_beyond\<close>)

lemma queue_bound:
  assumes "queues_ok r" "i < length (r_queues r)" "p < 4"
  shows "length (r_queues r ! i) = 4" "length (content (queue r i p)) \<le> r_queueSize r"
proof -
  have "r_queues r ! i \<in> set (r_queues r)" using assms(2) by simp
  then show l: "length (r_queues r ! i) = 4" using assms(1) by (auto simp: queues_ok_def)
  then have "queue r i p \<in> set (r_queues r ! i)" using assms(3) by simp
  then show "length (content (queue r i p)) \<le> r_queueSize r"
    using assms(1) \<open>r_queues r ! i \<in> set (r_queues r)\<close> by (auto simp: queues_ok_def)
qed

lemma queues_ok_cong:
  "r_queues r' = r_queues r \<Longrightarrow> r_nackChs r' = r_nackChs r \<Longrightarrow> r_queueSize r' = r_queueSize r \<Longrightarrow>
     queues_ok r' = queues_ok r"
  by (simp add: queues_ok_def)

section \<open>Queueing one message\<close>

lemma send_or_release_room: "length q < r_queueSize r \<Longrightarrow> send_or_release m q r = (q @ [m], r)"
  by (simp add: send_or_release_def)

text \<open>What overflow does to a full queue: at most one of its messages, the oldest, is replaced.\<close>

lemma heap_release_ref: "r_heap (release_ref m r) = Release_msg m (r_heap r)"
  by (simp add: release_ref_def Release_def)

lemma handleOverflow_facts:
  assumes ov: "handleOverflow idx topic q m r = (dc, q', r')" and full: "length q = r_queueSize r" "0 < r_queueSize r"
    and refs: "ref_inv (r_heap r) (add_mset m (Y + mset q)) B"
  shows "static r r'" "r_queues r' = r_queues r" "r_groups r' = r_groups r" "length q' = length q"
    "ref_inv (r_heap r') (Y + mset q') B" "cnt r' x \<le> cnt r x" "dc = None \<or> dc = Some idx"
    "r_nextBuf r' = r_nextBuf r"
proof -
  obtain a q1 where q: "q = a # q1" using full by (cases q) auto
  have room: "length q1 < r_queueSize r" using full q by simp
  have r1: "ref_inv (Release_msg m (r_heap r)) (Y + mset q) B"
    using Release_msg_inv [OF refs, of m] by simp
  have r2: "ref_inv (Release_msg a (r_heap r)) (Y + mset (q1 @ [m])) B"
    using Release_msg_inv [OF refs, of a] q by (simp add: add_mset_commute)
  have c: "cnt (release_ref m r) x \<le> cnt r x" "cnt (release_ref a r) x \<le> cnt r x"
    using Release_msg_ref_le [OF refs] q by (simp_all add: cnt_def heap_release_ref)
  have cases: "(\<exists>e. r' = emit e (release_ref a r)) \<and> q' = q1 @ [m] \<and> dc = None \<or>
      ((\<exists>e. r' = emit e (release_ref m r)) \<or> r' = release_ref m r) \<and> q' = q \<and> (dc = None \<or> dc = Some idx)"
    using ov q room by (auto simp: handleOverflow_def send_or_release_def release_ref_def emit_def split: if_splits)
  then show "static r r'" by (auto simp: static_def emit_def release_ref_def)
  show "r_queues r' = r_queues r" "r_groups r' = r_groups r" "length q' = length q"
    "ref_inv (r_heap r') (Y + mset q') B" "cnt r' x \<le> cnt r x" "dc = None \<or> dc = Some idx" "r_nextBuf r' = r_nextBuf r"
    using cases q r1 r2 c by (auto simp: heap_release_ref)
qed

definition level :: "byte \<Rightarrow> nat" where
  "level p = unat (if p > PriorityLow then DefaultPriority else p)"

lemma level_less: "level p < 4"
  by (auto simp: level_def word_less_nat_alt)

lemma content_queue_subset:
  assumes "i < length (r_queues r)" "p < length (r_queues r ! i)"
  shows "\<exists>Y. handles r = Y + mset (content (queue r i p))"
proof -
  have "handles r = handles (set_queue i p None r) + mset (content (queue r i p))"
    using handles_set_queue [OF assms, of None] by simp
  then show ?thesis by blast
qed

lemma enqueue_eq:
  assumes "idx < length (r_queues r)" "r_active r ! idx"
    and "r_queues r ! idx ! level p = oq"
  shows "enqueueToSubscriber idx m p r =
     (case (if length (content oq) < r_queueSize r then (None, content oq @ [m], r)
            else handleOverflow idx (r_topics r ! idx) (content oq) m r) of
        (dc, q, r) \<Rightarrow> (dc, (set_queue idx (level p) (Some q) r)\<lparr>r_notify := (r_notify r)[idx := True]\<rparr>))"
proof -
  have "(case queue r idx (level p) of None \<Rightarrow> getQueueFromPool | Some q \<Rightarrow> q) = content oq"
    using assms(3) by (cases oq) (simp_all add: getQueueFromPool_def)
  then show ?thesis
    using assms(1,2) unfolding enqueueToSubscriber_def level_def [symmetric]
    by (simp add: Let_def set_queue_def split: prod.split)
qed

lemma enqueue_facts:
  assumes wf: "lengths_ok r" "queues_ok r" and refs: "refs_ok r (add_mset m X)"
    and i: "idx < slots r" "r_active r ! idx" and eq: "enqueueToSubscriber idx m p r = (dc, r')"
  shows "static r r'" "queues_ok r'" "refs_ok r' X" "cnt r' x \<le> cnt r x" "r_groups r' = r_groups r"
    "dc = None \<or> dc = Some idx" "r_nextBuf r' = r_nextBuf r"
proof -
  let ?q = "content (queue r idx (level p))"
  have len: "idx < length (r_queues r)" "level p < length (r_queues r ! idx)" "length ?q \<le> r_queueSize r" "0 < r_queueSize r"
    using wf i level_less [of p] queue_bound [OF wf(2), of idx "level p"] by (auto simp: lengths_ok_def queues_ok_def)
  obtain Y where Y: "handles r = Y + mset ?q" using content_queue_subset [OF len(1,2)] by blast
  have inv: "ref_inv (r_heap r) (add_mset m (Y + X + mset ?q)) {..<r_nextBuf r}"
    using refs Y by (simp add: refs_ok_def ac_simps)
  obtain q r1 where r1: "(if length ?q < r_queueSize r then (None, ?q @ [m], r)
      else handleOverflow idx (r_topics r ! idx) ?q m r) = (dc, q, r1)"
    and r': "r' = (set_queue idx (level p) (Some q) r1)\<lparr>r_notify := (r_notify r1)[idx := True]\<rparr>"
    using eq enqueue_eq [OF len(1) i(2) refl, of m p] by (auto split: prod.splits)
  have f: "static r r1 \<and> r_queues r1 = r_queues r \<and> r_groups r1 = r_groups r \<and> length q \<le> r_queueSize r \<and>
      ref_inv (r_heap r1) (Y + X + mset q) {..<r_nextBuf r} \<and> cnt r1 x \<le> cnt r x \<and> (dc = None \<or> dc = Some idx) \<and>
      r_nextBuf r1 = r_nextBuf r"
  proof (cases "length ?q < r_queueSize r")
    case True
    then show ?thesis using r1 inv by auto
  next
    case False
    then have full: "length ?q = r_queueSize r" using len by simp
    show ?thesis using handleOverflow_facts [OF _ full len(4) inv, of idx "r_topics r ! idx" dc q r1] r1 False full by simp
  qed
  let ?r2 = "set_queue idx (level p) (Some q) r1"
  have w1: "r_writers r1 = r_writers r" "r_queueSize r1 = r_queueSize r" using f by (simp_all add: static_def)
  have "handles ?r2 + mset ?q = handles r1 + mset q"
    using handles_set_queue [of idx r1 "level p" "Some q"] len f by simp
  also have "\<dots> = Y + mset q + mset ?q" using Y f w1 by (simp add: handles_def ac_simps)
  finally have h: "handles ?r2 = Y + mset q" by simp
  have n: "handles r' = handles ?r2" "r_heap r' = r_heap r1" "r_nextBuf r' = r_nextBuf r1"
    by (simp_all add: r' handles_def)
  show "refs_ok r' X" using f h n by (simp add: refs_ok_def ac_simps)
  have "static r1 r'" by (simp add: r' static_def set_queue_def)
  then show "static r r'" using f static_trans by blast
  have "queues_ok r1" using wf(2) f by (subst queues_ok_cong [of r1 r]) (simp_all add: static_def)
  then have "queues_ok ?r2" using f w1 by (intro queues_ok_set_queue) simp_all
  then show "queues_ok r'" by (subst queues_ok_cong [of r' ?r2]) (simp_all add: r' set_queue_def)
  show "cnt r' x \<le> cnt r x" "r_groups r' = r_groups r" "dc = None \<or> dc = Some idx" "r_nextBuf r' = r_nextBuf r"
    using f by (simp_all add: r' cnt_def)
qed


text \<open>A message that is not a child stays one.\<close>

definition is_root :: "Router \<Rightarrow> nat \<Rightarrow> bool" where
  "is_root r x \<longleftrightarrow> mr_parent (mr (r_heap r) x) = None"

lemma mr_upd_any: "mr (upd m f h) x = (if x = m \<and> m < length (rh_refs h) then f (mr h m) else mr h x)"
  by (auto simp: upd_def list_update_beyond)

lemma Release_msg_keeps_root: "mr_parent (mr h x) = None \<Longrightarrow> mr_parent (mr (Release_msg m h) x) = None"
proof (induction m h rule: Release_msg.induct)
  case (1 m h)
  show ?case
  proof (cases "m < length (rh_refs h) \<and> mr_ref (mr h m) - 1 = 0")
    case True
    then show ?thesis
    proof (cases "mr_parent (mr h m)")
      case (Some p)
      have "mr_parent (mr (Release_msg p (upd m (\<lambda>r. r\<lparr>mr_ref := mr_ref r - 1\<rparr>) h)) x) = None"
        by (rule "1.IH") (use True Some "1.prems" in \<open>auto simp: mr_upd_any\<close>)
      then show ?thesis
        using True Some by (subst Release_msg.simps) (simp add: Let_def pool_put_def mr_upd_any)
    qed (use "1.prems" in \<open>subst Release_msg.simps, auto simp: Let_def pool_put_def release_buffer_def mr_upd_any split: option.split\<close>)
  qed (use "1.prems" in \<open>subst Release_msg.simps, auto simp: Let_def mr_upd_any\<close>)
qed

lemma is_root_small [simp]:
  "is_root (emit e r) x = is_root r x" "is_root (set_queue i p q r) x = is_root r x"
  "is_root (retain_ref m r) x = is_root r x" "is_root (r\<lparr>r_notify := n\<rparr>) x = is_root r x"
  by (auto simp: is_root_def emit_def set_queue_def retain_ref_def Retain_def mr_upd_any)

lemma is_root_release: "is_root r x \<Longrightarrow> is_root (release_ref m r) x"
  by (simp add: is_root_def heap_release_ref Release_msg_keeps_root)

lemma handleOverflow_root: "handleOverflow idx t q m r = (dc, q', r') \<Longrightarrow> is_root r x \<Longrightarrow> is_root r' x"
  by (auto simp: handleOverflow_def send_or_release_def is_root_release split: if_splits list.splits)

lemma enqueue_root: "enqueueToSubscriber idx m p r = (dc, r') \<Longrightarrow> is_root r x \<Longrightarrow> is_root r' x"
  by (auto simp: enqueueToSubscriber_def Let_def dest: handleOverflow_root split: if_splits prod.splits)

section \<open>Dispatching one message\<close>

text \<open>While message \<open>m\<close> is dispatched, the publisher holds it, and \<open>k\<close> bounds its counter.\<close>

definition delivering :: "nat \<Rightarrow> nat \<Rightarrow> nat multiset \<Rightarrow> Router \<Rightarrow> bool" where
  "delivering k m X r \<longleftrightarrow> lengths_ok r \<and> queues_ok r \<and> refs_ok r (add_mset m X) \<and> cnt r m \<le> k"

definition group_shape :: "ConsumerGroup \<Rightarrow> ConsumerGroup" where
  "group_shape g = g\<lparr>cg_counter := 0\<rparr>"

definition quiet :: "Router \<Rightarrow> Router \<Rightarrow> bool" where
  "quiet r r' \<longleftrightarrow> static r r' \<and> (\<forall>h. map group_shape (r_groups r' h) = map group_shape (r_groups r h)) \<and>
     r_nextBuf r' = r_nextBuf r \<and> (\<forall>x. is_root r x \<longrightarrow> is_root r' x)"

definition reaches :: "nat \<Rightarrow> nat \<Rightarrow> nat multiset \<Rightarrow> Router \<Rightarrow> Router \<Rightarrow> bool" where
  "reaches k m X r r' \<longleftrightarrow> delivering k m X r' \<and> quiet r r' \<and> (\<forall>x. x \<noteq> m \<longrightarrow> cnt r' x \<le> cnt r x)"

lemma quiet_refl [simp]: "quiet r r"
  by (simp add: quiet_def)

lemma quiet_trans: "quiet r r' \<Longrightarrow> quiet r' r'' \<Longrightarrow> quiet r r''"
  using static_trans by (auto simp: quiet_def)

lemma reaches_refl: "delivering k m X r \<Longrightarrow> reaches k m X r r"
  by (simp add: reaches_def)

lemma reaches_trans: "reaches k m X r r' \<Longrightarrow> reaches k' m X r' r'' \<Longrightarrow> reaches k' m X r r''"
  unfolding reaches_def using quiet_trans le_trans by blast

lemma reaches_mono: "reaches k m X r r' \<Longrightarrow> k \<le> k' \<Longrightarrow> reaches k' m X r r'"
  by (auto simp: reaches_def delivering_def)

lemma quiet_groups_length: "quiet r r' \<Longrightarrow> length (r_groups r' h) = length (r_groups r h)"
  by (auto simp: quiet_def dest: map_eq_imp_length_eq)

lemma dispatch_one_reaches:
  assumes d: "delivering k m X (snd st)" and k: "k < 2 ^ 31"
  shows "reaches (Suc k) m X (snd st) (snd (dispatch_one m p idx st))"
proof -
  obtain dcs r where st: "st = (dcs, r)" by (cases st)
  show ?thesis
  proof (cases "idx < length (r_active r) \<and> r_active r ! idx")
    case True
    obtain dc r' where enq: "enqueueToSubscriber idx m p (retain_ref m r) = (dc, r')" by fastforce
    have wf: "lengths_ok (retain_ref m r)" "queues_ok (retain_ref m r)"
      using d by (auto simp: st delivering_def lengths_ok_def queues_ok_def retain_ref_def)
    have refs: "refs_ok (retain_ref m r) (add_mset m (add_mset m X))" "cnt (retain_ref m r) m = Suc (cnt r m)"
      "x \<noteq> m \<Longrightarrow> cnt (retain_ref m r) x = cnt r x" for x
      using refs_ok_retain [of r "add_mset m X" m] d k by (simp_all add: st delivering_def)
    have i: "idx < slots (retain_ref m r)" "r_active (retain_ref m r) ! idx"
      using True d by (auto simp: st delivering_def lengths_ok_def retain_ref_def)
    note f = enqueue_facts [OF wf refs(1) i enq]
    have "static r r'" using static_small(3) f(1) by (rule static_trans)
    then have q: "quiet r r'" using f enqueue_root [OF enq] by (simp add: quiet_def)
    have "delivering (Suc k) m X r'"
      using f(2,3) f(4) [of m] refs(2) d lengths_ok_static [OF f(1) wf(1)] by (simp add: st delivering_def)
    moreover have "cnt r' x \<le> cnt r x" if "x \<noteq> m" for x using f(4) [of x] refs(3) [OF that] by simp
    ultimately show ?thesis
      using q True enq by (auto simp: st dispatch_one_def reaches_def split: option.splits)
  next
    case False
    then show ?thesis using reaches_mono [OF reaches_refl [OF d]] by (auto simp: st dispatch_one_def)
  qed
qed

lemma fold_reaches:
  assumes step: "\<And>x st k. x \<in> set xs \<Longrightarrow> quiet r0 (snd st) \<Longrightarrow> delivering k m X (snd st) \<Longrightarrow> k < 2 ^ 31 \<Longrightarrow>
      reaches (Suc k) m X (snd st) (snd (f x st))"
    and "quiet r0 (snd st)" "delivering k m X (snd st)" "k + length xs \<le> 2 ^ 31"
  shows "reaches (k + length xs) m X (snd st) (snd (fold f xs st))"
  using assms
proof (induction xs arbitrary: k st)
  case Nil
  then show ?case by (simp add: reaches_refl)
next
  case (Cons x xs)
  have s: "reaches (Suc k) m X (snd st) (snd (f x st))" using Cons.prems by simp
  then have "quiet r0 (snd (f x st))" using Cons.prems(2) quiet_trans by (auto simp: reaches_def)
  then have "reaches (Suc k + length xs) m X (snd (f x st)) (snd (fold f xs (f x st)))"
    using Cons.prems s by (intro Cons.IH) (auto simp: reaches_def)
  then show ?case using s reaches_trans by fastforce
qed

lemma dispatch_exact_reaches:
  "delivering k m X (snd st) \<Longrightarrow> k + length indices \<le> 2 ^ 31 \<Longrightarrow>
     reaches (k + length indices) m X (snd st) (snd (dispatch_exact m p indices st))"
  unfolding dispatch_exact_def by (rule fold_reaches [OF _ quiet_refl]) (auto intro: dispatch_one_reaches)

lemma dispatch_wildcards_reaches:
  "delivering k m X (snd st) \<Longrightarrow> k + length subs \<le> 2 ^ 31 \<Longrightarrow>
     reaches (k + length subs) m X (snd st) (snd (dispatch_wildcards m p topic subs st))"
  unfolding dispatch_wildcards_def
  by (rule fold_reaches [OF _ quiet_refl]) (auto intro: dispatch_one_reaches reaches_mono [OF reaches_refl])

lemma set_counter_quiet:
  assumes "j < length (r_groups r h)"
  shows "quiet r (r\<lparr>r_groups := (r_groups r)(h := (r_groups r h)[j := (r_groups r h ! j)\<lparr>cg_counter := c\<rparr>])\<rparr>)"
proof -
  have "map group_shape ((r_groups r h)[j := (r_groups r h ! j)\<lparr>cg_counter := c\<rparr>]) = map group_shape (r_groups r h)"
    using assms by (simp add: map_update group_shape_def list_update_same_conv)
  then show ?thesis by (simp add: quiet_def static_def is_root_def)
qed

lemma dispatch_group_reaches:
  assumes d: "delivering k m X (snd st)" and k: "k < 2 ^ 31" and j: "j < length (r_groups (snd st) h)"
  shows "reaches (Suc k) m X (snd st) (snd (dispatch_group m p h j st))"
proof -
  obtain dcs r where st: "st = (dcs, r)" by (cases st)
  let ?g = "r_groups r h ! j"
  show ?thesis
  proof (cases "cg_members ?g = None \<or> cg_members ?g = Some []")
    case True
    then show ?thesis
      using reaches_mono [OF reaches_refl [OF d]] by (auto simp: st dispatch_group_def Let_def)
  next
    case False
    let ?r = "r\<lparr>r_groups := (r_groups r)(h := (r_groups r h)[j := ?g\<lparr>cg_counter := cg_counter ?g + 1\<rparr>])\<rparr>"
    have "reaches k m X r ?r"
      using d set_counter_quiet [of j r h] j
      by (simp add: st reaches_def delivering_def lengths_ok_def queues_ok_def refs_ok_def handles_def cnt_def)
    moreover from this have "reaches (Suc k) m X ?r (snd (dispatch_one m p i (dcs, ?r)))" for i
      using dispatch_one_reaches [of k m X "(dcs, ?r)" p i] k by (simp add: reaches_def)
    ultimately have "reaches (Suc k) m X r (snd (dispatch_one m p i (dcs, ?r)))" for i
      using reaches_trans by blast
    then show ?thesis using False by (auto simp: st dispatch_group_def Let_def split: option.splits)
  qed
qed


lemma dispatch_groups_reaches:
  assumes d: "delivering k m X (snd st)" "k + length (r_groups (snd st) h) \<le> 2 ^ 31"
  shows "reaches (k + length (r_groups (snd st) h)) m X (snd st) (snd (dispatch_groups m p h st))"
proof -
  have "reaches (k + length [0..<length (r_groups (snd st) h)]) m X (snd st)
      (snd (fold (dispatch_group m p h) [0..<length (r_groups (snd st) h)] st))"
    using d by (intro fold_reaches [of _ "snd st"] dispatch_group_reaches) (auto simp: quiet_groups_length)
  then show ?thesis by (simp add: dispatch_groups_def)
qed

section \<open>The invariant\<close>

definition index_ok :: "Router \<Rightarrow> bool" where
  "index_ok r \<longleftrightarrow>
     (\<forall>h. r_topicIndex r h =
        filter (\<lambda>i. r_subGroups r ! i = [] \<and> topicHashKey (r_topics r ! i) = h) [0..<slots r]) \<and>
     r_wildcardSubs r =
       map (\<lambda>i. \<lparr>ws_pattern = r_topics r ! i, ws_idx = i\<rparr>) (filter (\<lambda>i. IsWildcardTopic (r_topics r ! i)) [0..<slots r])"

definition member_of :: "Router \<Rightarrow> ConsumerGroup \<Rightarrow> nat \<Rightarrow> bool" where
  "member_of r g i \<longleftrightarrow> i < slots r \<and> r_subGroups r ! i = cg_groupID g \<and> r_topics r ! i = cg_topic g"

definition group_ok :: "Router \<Rightarrow> u64 \<Rightarrow> ConsumerGroup \<Rightarrow> bool" where
  "group_ok r h g \<longleftrightarrow> cg_groupID g \<noteq> [] \<and> topicHashKey (cg_topic g) = h \<and>
     (\<exists>ms. cg_members g = Some ms \<and> distinct ms \<and> (\<forall>i\<in>set ms. member_of r g i) \<and>
        (\<forall>i. member_of r g i \<longrightarrow> r_active r ! i \<longrightarrow> i \<in> set ms))"

definition groups_at :: "Router \<Rightarrow> u64 \<Rightarrow> ConsumerGroup list \<Rightarrow> bool" where
  "groups_at r h gs \<longleftrightarrow> (\<forall>g\<in>set gs. group_ok r h g) \<and> distinct (map cg_groupID gs) \<and> length gs \<le> slots r \<and>
     (\<forall>i < slots r. r_subGroups r ! i \<noteq> [] \<longrightarrow> topicHashKey (r_topics r ! i) = h \<longrightarrow>
        r_subGroups r ! i \<in> cg_groupID ` set gs)"

definition groups_ok :: "Router \<Rightarrow> bool" where
  "groups_ok r \<longleftrightarrow> (\<forall>h. groups_at r h (r_groups r h))"

definition rinv :: "nat multiset \<Rightarrow> Router \<Rightarrow> bool" where
  "rinv X r \<longleftrightarrow> lengths_ok r \<and> queues_ok r \<and> index_ok r \<and> groups_ok r \<and> refs_ok r X \<and> slots r \<le> 2 ^ 29"

lemma groups_at_shape: "groups_at r h (map group_shape gs) = groups_at r h gs"
  by (simp add: groups_at_def group_ok_def member_of_def group_shape_def comp_def image_image)

lemma groups_at_static: "static r r' \<Longrightarrow> groups_at r' h gs = groups_at r h gs"
  by (simp add: static_def groups_at_def group_ok_def member_of_def)

lemma quiet_index:
  assumes "quiet r r'"
  shows "index_ok r \<Longrightarrow> index_ok r'" "groups_ok r \<Longrightarrow> groups_ok r'" "slots r' = slots r"
proof -
  have st: "static r r'" and gr: "map group_shape (r_groups r' h) = map group_shape (r_groups r h)" for h
    using assms by (auto simp: quiet_def)
  show "index_ok r \<Longrightarrow> index_ok r'" "slots r' = slots r" using st by (simp_all add: static_def index_ok_def)
  show "groups_ok r \<Longrightarrow> groups_ok r'"
    unfolding groups_ok_def groups_at_static [OF st]
    using gr groups_at_shape by metis
qed

lemma index_sizes:
  assumes "index_ok r" "groups_ok r"
  shows "length (r_topicIndex r h) \<le> slots r" "length (r_wildcardSubs r) \<le> slots r" "length (r_groups r h) \<le> slots r"
proof -
  have *: "length (filter P [0..<slots r]) \<le> slots r" for P
    using length_filter_le [of P "[0..<slots r]"] by simp
  show "length (r_topicIndex r h) \<le> slots r" "length (r_wildcardSubs r) \<le> slots r"
    using assms(1) by (simp_all add: index_ok_def *)
  show "length (r_groups r h) \<le> slots r" using assms(2) by (simp add: groups_ok_def groups_at_def)
qed

lemma rinv_cong:
  assumes "quiet r r'" "r_queues r' = r_queues r" "r_heap r' = r_heap r"
  shows "rinv X r \<Longrightarrow> rinv X r'"
proof -
  have st: "static r r'" "r_nextBuf r' = r_nextBuf r" using assms(1) by (simp_all add: quiet_def)
  assume inv: "rinv X r"
  have "queues_ok r'" using inv assms(2) st by (subst queues_ok_cong [of r' r]) (simp_all add: rinv_def static_def)
  moreover have "refs_ok r' X"
    using inv assms st by (subst refs_ok_cong [of r' r]) (simp_all add: rinv_def static_def)
  ultimately show "rinv X r'"
    using inv quiet_index [OF assms(1)] lengths_ok_static [OF st(1)] by (simp add: rinv_def)
qed

lemma quiet_emit: "quiet r (emit e r)"
  by (simp add: quiet_def)

lemma rinv_emit [simp]: "rinv X r \<Longrightarrow> rinv X (emit e r)"
  by (rule rinv_cong [OF quiet_emit]) simp_all

text \<open>The three dispatch loops together, started with a message that only the publisher holds.\<close>

definition dispatch_all ::
    "nat \<Rightarrow> byte \<Rightarrow> bytes \<Rightarrow> bool \<Rightarrow> bool \<Rightarrow> nat list \<times> Router \<Rightarrow> nat list \<times> Router" where
  "dispatch_all m p topic wild grps st =
     (let r = snd st;
          st = dispatch_exact m p (r_topicIndex r (topicHashKey topic)) st;
          st = (if wild then dispatch_wildcards m p topic (r_wildcardSubs r) st else st)
      in if grps then dispatch_groups m p (topicHashKey topic) st else st)"

lemma dispatch_all_reaches:
  assumes inv: "rinv (add_mset m X) (snd st)" and c: "cnt (snd st) m \<le> 1"
  shows "reaches (2 ^ 31) m X (snd st) (snd (dispatch_all m p topic wild grps st))"
proof -
  let ?r = "snd st" and ?h = "topicHashKey topic"
  have ok: "index_ok ?r" "groups_ok ?r" "slots ?r \<le> 2 ^ 29" using inv by (simp_all add: rinv_def)
  note sz = index_sizes [OF ok(1,2)]
  have d: "delivering 1 m X ?r" using inv c by (simp add: rinv_def delivering_def)
  define s1 where "s1 = dispatch_exact m p (r_topicIndex ?r ?h) st"
  define s2 where "s2 = (if wild then dispatch_wildcards m p topic (r_wildcardSubs ?r) s1 else s1)"
  have r1: "reaches (1 + 2 ^ 29) m X ?r (snd s1)"
    unfolding s1_def using sz(1) [of ?h] ok(3) d
    by (intro reaches_mono [OF dispatch_exact_reaches]) auto
  then have "delivering (1 + 2 ^ 29) m X (snd s1)" by (simp add: reaches_def)
  then have "reaches (1 + 2 ^ 29 + 2 ^ 29) m X (snd s1) (snd s2)"
    unfolding s2_def using sz(2) ok(3)
    by (auto intro!: reaches_mono [OF dispatch_wildcards_reaches] reaches_mono [OF reaches_refl])
  then have r2: "reaches (1 + 2 ^ 29 + 2 ^ 29) m X ?r (snd s2)" using r1 reaches_trans by blast
  then have g: "length (r_groups (snd s2) ?h) \<le> 2 ^ 29"
    using quiet_groups_length sz(3) [of ?h] ok(3) by (auto simp: reaches_def)
  have d2: "delivering (1 + 2 ^ 29 + 2 ^ 29) m X (snd s2)" using r2 by (simp add: reaches_def)
  have "reaches (2 ^ 31) m X (snd s2) (snd (if grps then dispatch_groups m p ?h s2 else s2))"
    using d2 g by (auto intro!: reaches_mono [OF dispatch_groups_reaches] reaches_mono [OF reaches_refl])
  then have "reaches (2 ^ 31) m X ?r (snd (if grps then dispatch_groups m p ?h s2 else s2))"
    by (rule reaches_trans [OF r2])
  moreover have "dispatch_all m p topic wild grps st = (if grps then dispatch_groups m p ?h s2 else s2)"
    by (simp only: dispatch_all_def Let_def s1_def s2_def)
  ultimately show ?thesis by (simp only:)
qed

lemma dispatch_all_rinv:
  assumes "rinv (add_mset m X) (snd st)" "cnt (snd st) m \<le> 1"
  shows "rinv X (release_ref m (snd (dispatch_all m p topic wild grps st)))"
    "quiet (snd st) (snd (dispatch_all m p topic wild grps st))"
    "x \<noteq> m \<Longrightarrow> cnt (release_ref m (snd (dispatch_all m p topic wild grps st))) x \<le> cnt (snd st) x"
proof -
  let ?r = "snd (dispatch_all m p topic wild grps st)"
  have re: "reaches (2 ^ 31) m X (snd st) ?r" by (rule dispatch_all_reaches [OF assms])
  then show q: "quiet (snd st) ?r" by (simp add: reaches_def)
  have d: "lengths_ok ?r" "queues_ok ?r" "refs_ok ?r (add_mset m X)" using re by (auto simp: reaches_def delivering_def)
  have s: "static ?r (release_ref m ?r)" by simp
  then have q2: "quiet ?r (release_ref m ?r)" by (auto simp: quiet_def is_root_release)
  have "queues_ok (release_ref m ?r)" using d(2) s by (subst queues_ok_cong [of _ ?r]) (simp_all add: static_def)
  then show "rinv X (release_ref m ?r)"
    using assms(1) quiet_index [OF quiet_trans [OF q q2]] lengths_ok_static [OF s d(1)] refs_ok_release [OF d(3)]
    by (simp add: rinv_def)
  show "x \<noteq> m \<Longrightarrow> cnt (release_ref m ?r) x \<le> cnt (snd st) x"
    using cnt_release [OF d(3), of m x] re by (fastforce simp: reaches_def)
qed

end
