(* ===== verification/Router_Steps.thy ===== *)
theory Router_Steps
  imports Router_Inv
begin

text \<open>
  Every operation of the router and every round of a writer preserves the invariant of \<^verbatim>\<open>Router_Inv\<close>;
  the runs of the router as a step relation, and what holds in every state of a run.
\<close>

section \<open>Taking a message\<close>

lemma ref_inv_bytes: "ref_inv (h\<lparr>rh_bytes := bs\<rparr>) H B = ref_inv h H B"
  by (simp add: ref_inv_def counts_ok_def parents_ok_def pool_ok_def owners_ok_def owns_def alive_def kids_def)

lemma ref_inv_meta:
  assumes inv: "ref_inv h H B"
    and f: "mr_ref (f (mr h m)) = mr_ref (mr h m)" "mr_parent (f (mr h m)) = mr_parent (mr h m)"
      "mr_buf (f (mr h m)) = mr_buf (mr h m)"
  shows "ref_inv (upd m f h) H B"
proof (cases "m < length (rh_refs h)")
  case True
  have al: "alive (upd m f h) x = alive h x" for x using True f by (simp add: alive_upd) (simp add: alive_def)
  have k: "kids (upd m f h) p = kids h p" for p
    by (rule kids_same_edge [OF True]) (simp add: edge_def f)
  have "counts_ok (upd m f h) H" using inv True f by (auto simp: ref_inv_def counts_ok_def k mr_upd)
  moreover have "parents_ok (upd m f h)" "owners_ok (upd m f h) B"
    using inv True f by (auto simp: ref_inv_def al mr_upd intro!: shape_cong [of "upd m f h" h])
  moreover have "pool_ok (upd m f h)" using inv True f by (auto simp: ref_inv_def pool_ok_def mr_upd)
  ultimately show ?thesis by (simp add: ref_inv_def)
qed (use inv in \<open>simp add: upd_def list_update_beyond\<close>)

lemma AcquireMessageRef_new:
  assumes "ref_inv h H B" "AcquireMessageRef pick (Some b) h = (m, h')"
  shows "m < length (rh_refs h')" "mr_ref (mr h' m) = 1" "mr_parent (mr h' m) = None"
    "mr_buf (mr h' m) = Some b" "mr_frame (mr h' m) = None" "rh_bytes h' = rh_bytes h" "\<not> alive h m"
    "x \<noteq> m \<Longrightarrow> alive h x \<Longrightarrow> mr h' x = mr h x"
proof -
  obtain h1 where get: "pool_get pick h = (m, h1)"
    using assms(2) by (auto simp: AcquireMessageRef_def split: prod.splits)
  have g: "ref_inv h1 H B \<and> m < length (rh_refs h1) \<and> mr_ref (mr h1 m) = 0 \<and> m \<notin> set (rh_pool h1) \<and>
    (alive h x \<longrightarrow> alive h1 x \<and> mr h1 x = mr h x)" for x
    by (rule pool_get_inv [OF assms(1) get])
  have h': "h' = upd m (\<lambda>r. r\<lparr>mr_buf := Some b, mr_frame := None, mr_expiresAt := 0, mr_offset := 0,
                        mr_parent := None, mr_ref := 1\<rparr>) h1"
    using assms(2) get by (simp add: AcquireMessageRef_def)
  have by1: "rh_bytes h1 = rh_bytes h" using get by (auto simp: pool_get_def split: if_splits)
  show "m < length (rh_refs h')" "mr_ref (mr h' m) = 1" "mr_parent (mr h' m) = None"
    "mr_buf (mr h' m) = Some b" "mr_frame (mr h' m) = None" "rh_bytes h' = rh_bytes h"
    using g [of 0] by1 by (simp_all add: h' mr_upd)
  show "\<not> alive h m" using g [of m] by (auto simp: alive_def)
  show "x \<noteq> m \<Longrightarrow> alive h x \<Longrightarrow> mr h' x = mr h x" using g [of x] by (simp add: h' mr_upd)
qed

lemma acquire_ref_facts:
  assumes inv: "rinv X r" and acq: "acquire_ref env buf e off r = (m, r')"
  shows "rinv (add_mset m X) r'" "cnt r' m = 1" "is_root r' m" "static r r'" "r_groups r' = r_groups r"
    "r_queues r' = r_queues r" "m \<notin># handles r + X" "Buf (Some m) (r_heap r') = Some buf"
    "mr_expiresAt (mr (r_heap r') m) = e" "mr_offset (mr (r_heap r') m) = off" "r_log r' = r_log r"
proof -
  let ?b = "r_nextBuf r"
  let ?h0 = "(r_heap r)\<lparr>rh_bytes := (rh_bytes (r_heap r))(?b := buf)\<rparr>"
  obtain h where h: "AcquireMessageRef (e_pick env) (Some ?b) ?h0 = (m, h)"
    and r': "r' = r\<lparr>r_heap := SetOffset (Some m) off (SetExpiresAt (Some m) e h), r_nextBuf := Suc ?b\<rparr>"
    using acq by (auto simp: acquire_ref_def Let_def split: prod.splits)
  have i0: "ref_inv ?h0 (handles r + X) {..<?b}" using inv by (simp add: rinv_def refs_ok_def ref_inv_bytes)
  note new = AcquireMessageRef_new [OF i0 h]
  have "ref_inv h (add_mset m (handles r + X)) (insert ?b {..<?b})"
    by (rule AcquireMessageRef_inv [OF i0 _ h]) simp
  moreover have "insert ?b {..<?b} = {..<Suc ?b}" by auto
  ultimately have i1: "ref_inv h (handles r + add_mset m X) {..<Suc ?b}" by simp
  have "ref_inv (r_heap r') (handles r + add_mset m X) {..<Suc ?b}"
    using i1 unfolding r' by (auto simp: SetOffset_def SetExpiresAt_def intro!: ref_inv_meta)
  moreover have hs: "handles r' = handles r" by (simp add: r' handles_def)
  ultimately have refs: "refs_ok r' (add_mset m X)" by (simp add: refs_ok_def r')
  show st: "static r r'" and gr: "r_groups r' = r_groups r" and qs: "r_queues r' = r_queues r" "r_log r' = r_log r"
    by (simp_all add: r' static_def)
  have "queues_ok r'" using inv st qs by (subst queues_ok_cong [of r' r]) (simp_all add: rinv_def static_def)
  moreover have "index_ok r'" using inv by (simp add: rinv_def index_ok_def r')
  moreover have "groups_ok r'"
    using inv gr groups_at_static [OF st] by (simp add: rinv_def groups_ok_def)
  ultimately show "rinv (add_mset m X) r'"
    using inv refs lengths_ok_static [OF st] st by (simp add: rinv_def static_def)
  have m: "mr (r_heap r') m = (mr h m)\<lparr>mr_expiresAt := e, mr_offset := off\<rparr>"
    using new(1) by (simp add: r' SetOffset_def SetExpiresAt_def mr_upd)
  show "cnt r' m = 1" "is_root r' m" "mr_expiresAt (mr (r_heap r') m) = e" "mr_offset (mr (r_heap r') m) = off"
    using new m by (simp_all add: cnt_def is_root_def)
  have "rh_bytes (r_heap r') = rh_bytes h" by (simp add: r' SetOffset_def SetExpiresAt_def)
  then show "Buf (Some m) (r_heap r') = Some buf" using new m by (simp add: Buf_def)
  show "m \<notin># handles r + X"
    using i0 handle_alive(3) [of ?h0 "handles r + X" m] new(7) by (auto simp: ref_inv_def)
qed

section \<open>Leaving\<close>

lemma rebuild_group_ok:
  assumes "lengths_ok r" "cg_groupID g \<noteq> []" "topicHashKey (cg_topic g) = h"
  shows "group_ok r h (rebuildGroupMembersLocked r g)"
  using assms by (auto simp: group_ok_def rebuildGroupMembersLocked_def member_of_def lengths_ok_def)

lemma group_ok_deactivate:
  assumes "group_ok r h g" "length (r_active r) = slots r"
  shows "group_ok (r\<lparr>r_active := (r_active r)[i := False], r_cancelled := c\<rparr>) h g"
proof -
  have "member_of (r\<lparr>r_active := a, r_cancelled := c\<rparr>) g j = member_of r g j" for j a by (simp add: member_of_def)
  moreover have "(r_active r)[i := False] ! j \<Longrightarrow> j < slots r \<Longrightarrow> r_active r ! j" for j
    using assms(2) by (cases "i = j") auto
  ultimately show ?thesis using assms(1) unfolding group_ok_def by (auto simp: member_of_def)
qed

definition deactivate :: "nat \<Rightarrow> Router \<Rightarrow> Router" where
  "deactivate i r = r\<lparr>r_active := (r_active r)[i := False], r_cancelled := (r_cancelled r)[i := True]\<rparr>"

lemma deactivate_rinv: "rinv X r \<Longrightarrow> rinv X (deactivate i r)"
proof -
  assume inv: "rinv X r"
  then have "groups_ok (deactivate i r)"
    using group_ok_deactivate [where r = r and i = i and c = "(r_cancelled r)[i := True]"]
    by (auto simp: rinv_def groups_ok_def groups_at_def deactivate_def lengths_ok_def)
  then show ?thesis
    using inv by (simp add: rinv_def deactivate_def lengths_ok_def queues_ok_def index_ok_def refs_ok_def handles_def
        nth_update_any)
qed

lemma groups_at_map:
  assumes "groups_at r h gs" "\<And>x. cg_groupID (f x) = cg_groupID x" "\<And>x. x \<in> set gs \<Longrightarrow> group_ok r h (f x)"
  shows "groups_at r h (map f gs)"
  using assms by (simp add: groups_at_def comp_def image_image)

lemma groups_at_upd [simp]: "groups_at (r\<lparr>r_groups := G\<rparr>) h gs = groups_at r h gs"
  by (simp add: groups_at_def group_ok_def member_of_def)

lemma leave_group_rinv:
  assumes inv: "rinv X r"
  shows "rinv X (leave_group i r)"
proof (cases "i < length (r_subGroups r) \<and> r_subGroups r ! i \<noteq> []")
  case True
  let ?h = "CombineHashStrings (str ''topic'') (r_topics r ! i)"
  let ?f = "\<lambda>cg. if cg_groupID cg = r_subGroups r ! i then rebuildGroupMembersLocked r cg else cg"
  let ?r = "r\<lparr>r_groups := (r_groups r)(?h := map ?f (r_groups r ?h))\<rparr>"
  have eq: "leave_group i r = ?r" using True by (simp add: leave_group_def Let_def)
  have at: "groups_at r h (r_groups r h)" for h using inv by (simp add: rinv_def groups_ok_def)
  have "groups_at r ?h (map ?f (r_groups r ?h))"
  proof (rule groups_at_map [OF at])
    fix x
    show "cg_groupID (?f x) = cg_groupID x" by (simp add: rebuildGroupMembersLocked_def)
    assume "x \<in> set (r_groups r ?h)"
    then show "group_ok r ?h (?f x)"
      using rebuild_group_ok [of r x ?h] at [of ?h] inv by (auto simp: groups_at_def rinv_def group_ok_def)
  qed
  then have "groups_ok ?r" using at by (simp add: groups_ok_def)
  then show ?thesis
    using inv unfolding eq by (simp add: rinv_def lengths_ok_def queues_ok_def index_ok_def refs_ok_def handles_def)
qed (use inv in \<open>auto simp: leave_group_def\<close>)

lemma report_active_rinv [simp]: "rinv X r \<Longrightarrow> rinv X (report_active r)"
  by (simp add: report_active_def)

lemma disconnectSubscriber_rinv: "rinv X r \<Longrightarrow> rinv X (disconnectSubscriber i r)"
  using leave_group_rinv [OF rinv_emit [OF deactivate_rinv], of X r i "StreamClosed (r_streams (deactivate i r) ! i)" i]
  by (simp add: disconnectSubscriber_def Let_def deactivate_def)

lemma fold_rinv:
  assumes "\<And>x r. rinv X r \<Longrightarrow> rinv X (f x r)" "rinv X r"
  shows "rinv X (fold f xs r)"
  using assms(2) by (induction xs arbitrary: r) (simp_all add: assms(1))

lemma Unsubscribe_rinv: "rinv X r \<Longrightarrow> rinv X (Unsubscribe sid r)"
proof -
  have "rinv X (unsubscribe_slot sid i r)" if "rinv X r" for i r
    using leave_group_rinv [OF deactivate_rinv [OF that], of i i] that by (simp add: unsubscribe_slot_def deactivate_def)
  then show "rinv X r \<Longrightarrow> rinv X (Unsubscribe sid r)"
    unfolding Unsubscribe_def by (intro report_active_rinv fold_rinv)
qed

lemma Close_rinv: "rinv X r \<Longrightarrow> rinv X (Close_begin r)"
proof -
  have "rinv X (close_slot i r)" if "rinv X r" for i r
    using deactivate_rinv [OF that, of i] that by (simp add: close_slot_def deactivate_def)
  then show "rinv X r \<Longrightarrow> rinv X (Close_begin r)" unfolding Close_begin_def by (intro fold_rinv)
qed


section \<open>Publishing\<close>

lemma rinv_fields [simp]:
  "rinv X (r\<lparr>r_quotaManager := a\<rparr>) = rinv X r" "rinv X (r\<lparr>r_topicOffsets := b\<rparr>) = rinv X r"
  "rinv X (r\<lparr>r_durableOffsets := c\<rparr>) = rinv X r" "rinv X (r\<lparr>r_nackCounters := d\<rparr>) = rinv X r"
  "rinv X (r\<lparr>r_peers := e\<rparr>) = rinv X r"
  by (simp_all add: rinv_def lengths_ok_def queues_ok_def index_ok_def groups_ok_def groups_at_def group_ok_def
      member_of_def refs_ok_def handles_def)

lemma nextTopicOffset_rinv: "nextTopicOffset h r = (off, r') \<Longrightarrow> rinv X r \<Longrightarrow> rinv X r'"
  by (auto simp: nextTopicOffset_def Let_def)

definition nobody :: "bytes \<Rightarrow> Router \<Rightarrow> bool" where
  "nobody t r \<longleftrightarrow> r_topicIndex r (topicHashKey t) = [] \<and> r_wildcardSubs r = [] \<and> r_groups r (topicHashKey t) = []"

definition send_out :: "nat \<Rightarrow> byte \<Rightarrow> bytes \<Rightarrow> Router \<Rightarrow> Router" where
  "send_out m p t r =
     (case dispatch_all m p t (r_wildcardSubs r \<noteq> []) (r_groups r (topicHashKey t) \<noteq> []) ([], r) of
        (dcs, r') \<Rightarrow> fold disconnectSubscriber dcs (release_ref m r'))"

lemma static_acquire: "acquire_ref env buf e off r = (m, r') \<Longrightarrow> static r r' \<and> r_groups r' = r_groups r"
  by (auto simp: acquire_ref_def Let_def static_def split: prod.splits)

lemma publish_unfold:
  assumes "unat (f_PayloadLen frame) \<le> maxPayloadSize" "Manager_TryAcquire (r_quotaManager r) c = (True, qm)"
    and e: "expiry_and_topic env (priority_of frame) (f_Payload frame) r = (e, t)"
    and n: "nextTopicOffset (topicHashKey t) (r\<lparr>r_quotaManager := qm\<rparr>) = (off, r2)"
    and a: "acquire_ref env (publish_buf env frame t) e off (if r_metrics r2 then emit (OnPublish t) r2 else r2) = (m, r4)"
    and r5: "r5 = (if has_peers r2 then emit (Forward (publish_buf env frame t) True) r4 else r4)"
  shows "publishWithClientID env frame c r =
    (None, if nobody t r2 \<and> \<not> has_peers r2 then r2 else send_out m (priority_of frame) t r5)"
proof -
  have e': "expiry_and_topic env (priority_of frame) (f_Payload frame) (r\<lparr>r_quotaManager := qm\<rparr>) = (e, t)"
    using e by (simp add: expiry_and_topic_def)
  have s4: "static r2 r4" "r_groups r4 = r_groups r2"
    using static_acquire [OF a] by (auto simp: static_def emit_def split: if_splits)
  then have "r_topicIndex r5 = r_topicIndex r2" "r_wildcardSubs r5 = r_wildcardSubs r2"
    "r_groups r5 = r_groups r2"
    by (simp_all add: r5 static_def emit_def)
  then show ?thesis
    using assms(1,2) e' n a r5
    by (cases "r_metrics r2"; cases "has_peers r2")
      (simp_all add: publishWithClientID_def Let_def nobody_def send_out_def dispatch_all_def case_prod_beta)
qed

lemma send_out_rinv:
  assumes "rinv (add_mset m X) r" "cnt r m \<le> 1"
  shows "rinv X (send_out m p t r)"
proof -
  let ?st = "dispatch_all m p t (r_wildcardSubs r \<noteq> []) (r_groups r (topicHashKey t) \<noteq> []) ([], r)"
  have "rinv X (release_ref m (snd ?st))" using dispatch_all_rinv(1) [of m X "([], r)"] assms by simp
  then have "rinv X (fold disconnectSubscriber dcs (release_ref m (snd ?st)))" for dcs
    by (rule fold_rinv [rotated]) (rule disconnectSubscriber_rinv)
  then show ?thesis by (cases ?st) (simp add: send_out_def)
qed

lemma publishWithClientID_rinv: "rinv X r \<Longrightarrow> rinv X (snd (publishWithClientID env frame c r))"
proof -
  assume inv: "rinv X r"
  obtain ok qm where q: "Manager_TryAcquire (r_quotaManager r) c = (ok, qm)" by fastforce
  obtain e t where e: "expiry_and_topic env (priority_of frame) (f_Payload frame) r = (e, t)" by fastforce
  obtain off r2 where n: "nextTopicOffset (topicHashKey t) (r\<lparr>r_quotaManager := qm\<rparr>) = (off, r2)" by fastforce
  define r3 where "r3 = (if r_metrics r2 then emit (OnPublish t) r2 else r2)"
  obtain m r4 where a: "acquire_ref env (publish_buf env frame t) e off r3 = (m, r4)" by fastforce
  define r5 where "r5 = (if has_peers r2 then emit (Forward (publish_buf env frame t) True) r4 else r4)"
  have i2: "rinv X r2" using nextTopicOffset_rinv [OF n] inv by simp
  then have "rinv X r3" by (simp add: r3_def)
  note f = acquire_ref_facts [OF this a]
  then have "rinv X (send_out m (priority_of frame) t r5)"
    by (intro send_out_rinv) (simp_all add: r5_def)
  then have "rinv X (snd (publishWithClientID env frame c r))" if "unat (f_PayloadLen frame) \<le> maxPayloadSize" ok
    using publish_unfold [OF that(1) _ e n a [unfolded r3_def] r5_def, of c] i2 q that(2) by simp
  moreover have "rinv X (snd (publishWithClientID env frame c r))"
    if "\<not> (unat (f_PayloadLen frame) \<le> maxPayloadSize \<and> ok)"
    using that inv q by (auto simp: publishWithClientID_def Let_def)
  ultimately show ?thesis by blast
qed


lemma publishLocal_unfold:
  assumes "unat (f_PayloadLen frame) \<le> maxPayloadSize"
    and e: "expiry_and_topic env (priority_of frame) (f_Payload frame) r = (e, t)"
    and n: "nextTopicOffset (topicHashKey t) r = (off, r2)"
    and a: "acquire_ref env (publish_buf env frame t) e off (if r_metrics r2 then emit (OnPublish t) r2 else r2) = (m, r4)"
  shows "publishLocal env frame r = (None, if nobody t r2 then r2 else send_out m (priority_of frame) t r4)"
proof -
  have "static r2 r4" "r_groups r4 = r_groups r2"
    using static_acquire [OF a] by (auto simp: static_def emit_def split: if_splits)
  then have "r_topicIndex r4 = r_topicIndex r2" "r_wildcardSubs r4 = r_wildcardSubs r2" "r_groups r4 = r_groups r2"
    by (simp_all add: static_def)
  then show ?thesis
    using assms
    by (cases "r_metrics r2") (simp_all add: publishLocal_def Let_def nobody_def send_out_def dispatch_all_def case_prod_beta)
qed

lemma publishLocal_rinv: "rinv X r \<Longrightarrow> rinv X (snd (publishLocal env frame r))"
proof -
  assume inv: "rinv X r"
  obtain e t where e: "expiry_and_topic env (priority_of frame) (f_Payload frame) r = (e, t)" by fastforce
  obtain off r2 where n: "nextTopicOffset (topicHashKey t) r = (off, r2)" by fastforce
  define r3 where "r3 = (if r_metrics r2 then emit (OnPublish t) r2 else r2)"
  obtain m r4 where a: "acquire_ref env (publish_buf env frame t) e off r3 = (m, r4)" by fastforce
  have i2: "rinv X r2" using nextTopicOffset_rinv [OF n inv] .
  then have "rinv X r3" by (simp add: r3_def)
  note f = acquire_ref_facts [OF this a]
  then have "rinv X (send_out m (priority_of frame) t r4)" by (intro send_out_rinv) simp_all
  then have "rinv X (snd (publishLocal env frame r))" if "unat (f_PayloadLen frame) \<le> maxPayloadSize"
    using publishLocal_unfold [OF that e n a [unfolded r3_def]] i2 by simp
  moreover have "rinv X (snd (publishLocal env frame r))" if "\<not> unat (f_PayloadLen frame) \<le> maxPayloadSize"
    using that inv by (simp add: publishLocal_def)
  ultimately show ?thesis by blast
qed

lemma PublishFromPeer_rinv: "rinv X r \<Longrightarrow> rinv X (snd (PublishFromPeer env frame r))"
  by (simp add: PublishFromPeer_def publishLocal_rinv)

section \<open>Publishing a batch\<close>

lemma AcquireChild_new:
  assumes inv: "ref_inv h H B" and p: "alive h p"
    and acq: "AcquireChildMessageRef pick p frame off expiry h = (m, h')"
  shows "m \<noteq> p" "mr_ref (mr h' m) = 1" "mr_ref (mr h' p) = mr_ref (mr h p) + 1" "mr_parent (mr h' p) = mr_parent (mr h p)"
    "x \<noteq> m \<Longrightarrow> x \<noteq> p \<Longrightarrow> alive h x \<Longrightarrow> mr h' x = mr h x"
proof -
  obtain h1 where get: "pool_get pick h = (m, h1)"
    using acq by (auto simp: AcquireChildMessageRef_def split: prod.splits)
  have g: "ref_inv h1 H B \<and> m < length (rh_refs h1) \<and> mr_ref (mr h1 m) = 0 \<and> m \<notin> set (rh_pool h1) \<and>
    (alive h x \<longrightarrow> alive h1 x \<and> mr h1 x = mr h x)" for x
    by (rule pool_get_inv [OF inv get])
  then have p1: "alive h1 p" "mr h1 p = mr h p" using p by blast+
  then show mp: "m \<noteq> p" using g by (auto simp: alive_def)
  show "mr_ref (mr h' m) = 1" "mr_ref (mr h' p) = mr_ref (mr h p) + 1" "mr_parent (mr h' p) = mr_parent (mr h p)"
    "x \<noteq> m \<Longrightarrow> x \<noteq> p \<Longrightarrow> alive h x \<Longrightarrow> mr h' x = mr h x"
    using acq get g mp p1 by (auto simp: AcquireChildMessageRef_def Let_def mr_upd alive_def)
qed

lemma acquire_child_facts:
  assumes inv: "rinv X r" and b: "b \<in># X" "is_root r b" "cnt r b < 2 ^ 31"
    and acq: "AcquireChildMessageRef pick b frame off expiry (r_heap r) = (m, h)"
  defines "r' \<equiv> r\<lparr>r_heap := h\<rparr>"
  shows "rinv (add_mset m X) r'" "cnt r' m = 1" "cnt r' b = Suc (cnt r b)" "m \<noteq> b" "is_root r' b"
proof -
  have i0: "ref_inv (r_heap r) (handles r + X) {..<r_nextBuf r}" using inv by (simp add: rinv_def refs_ok_def)
  have "ref_inv h (add_mset m (handles r + X)) {..<r_nextBuf r}"
    by (rule AcquireChildMessageRef_inv [OF i0 _ _ _ acq]) (use b in \<open>simp_all add: is_root_def cnt_def\<close>)
  then have "refs_ok r' (add_mset m X)" by (simp add: refs_ok_def r'_def handles_def)
  then show "rinv (add_mset m X) r'"
    using inv by (simp add: rinv_def r'_def lengths_ok_def queues_ok_def index_ok_def groups_ok_def groups_at_def
        group_ok_def member_of_def)
  have "alive (r_heap r) b" using i0 b(1) by (auto simp: ref_inv_def intro: handle_alive(3))
  note new = AcquireChild_new [OF i0 this acq]
  show "cnt r' m = 1" "cnt r' b = Suc (cnt r b)" "m \<noteq> b" "is_root r' b"
    using new b unat_succ [of "mr_ref (mr (r_heap r) b)"] by (simp_all add: cnt_def is_root_def r'_def)
qed

definition batch_inv :: "nat \<Rightarrow> nat \<Rightarrow> nat list \<times> Router \<Rightarrow> bool" where
  "batch_inv b n st \<longleftrightarrow> rinv {#b#} (snd st) \<and> is_root (snd st) b \<and> cnt (snd st) b \<le> n"

lemma publish_sub_inv:
  assumes inv: "batch_inv b n st" and n: "n < 2 ^ 31"
  shows "batch_inv b (Suc n) (fst (publish_sub env b st f))"
proof (cases "ParseFrame f")
  case (Ok sub)
  obtain dcs r where st: "st = (dcs, r)" by (cases st)
  define t where "t = snd (parsePublishTopic (e_now env) (f_Payload sub))"
  obtain off r2 where o: "nextTopicOffset (topicHashKey t) r = (off, r2)" by fastforce
  have i2: "rinv {#b#} r2" "is_root r2 b" "cnt r2 b \<le> n"
    using inv o by (auto simp: st batch_inv_def nextTopicOffset_def Let_def is_root_def cnt_def)
  obtain m h where acq: "AcquireChildMessageRef (e_pick env) b f off 0 (r_heap r2) = (m, h)" by fastforce
  define r3 where "r3 = r2\<lparr>r_heap := h\<rparr>"
  have "cnt r2 b < 2 ^ 31" using i2(3) n by simp
  note c = acquire_child_facts [OF i2(1) _ i2(2) this acq, folded r3_def, simplified]
  let ?d = "dispatch_all m (priority_of sub) t True (r_groups r2 (topicHashKey t) \<noteq> []) (dcs, r3)"
  have d: "rinv {#b#} (release_ref m (snd ?d))" "quiet r3 (snd ?d)"
    using dispatch_all_rinv(1,2) [of m "{#b#}" "(dcs, r3)"] c by (simp_all add: add_mset_commute)
  have d3: "cnt (release_ref m (snd ?d)) b \<le> cnt r3 b"
    using dispatch_all_rinv(3) [of m "{#b#}" "(dcs, r3)" b] c by (auto simp: add_mset_commute)
  have "is_root (release_ref m (snd ?d)) b" using c d(2) by (auto simp: quiet_def intro: is_root_release)
  then have "batch_inv b (Suc n) (fst ?d, release_ref m (snd ?d))"
    using d d3 c i2(3) by (simp add: batch_inv_def)
  moreover have "fst (publish_sub env b st f) =
      (if r_topicIndex r2 (topicHashKey t) = [] \<and> \<not> list_ex (\<lambda>w. MatchWildcard (ws_pattern w) t) (r_wildcardSubs r2) \<and>
          r_groups r2 (topicHashKey t) = [] then (dcs, r2) else (fst ?d, release_ref m (snd ?d)))"
    using Ok o acq
    by (simp add: st publish_sub_def Let_def dispatch_all_def case_prod_beta flip: t_def)
      (simp add: r3_def)
  ultimately show ?thesis using i2 by (simp add: batch_inv_def)
qed (use inv in \<open>auto simp: publish_sub_def batch_inv_def split: prod.splits\<close>)

lemma ParseBatch_loop_inv:
  assumes step: "\<And>n s f. P n s \<Longrightarrow> n < N \<Longrightarrow> P (Suc n) (fst (fn s f))"
    and "P n s" "n + (length buf - offset) \<le> N"
  shows "\<exists>n'\<le>N. P n' (fst (ParseBatch_loop buf fn s offset))"
  using assms(2,3)
proof (induction "length buf - offset" arbitrary: n s offset rule: less_induct)
  case less
  show ?case
  proof (cases "\<exists>frame next'. offset < length buf \<and> ParseBatchFrame buf offset = Ok (frame, next')")
    case True
    then obtain frame nx where f: "offset < length buf" "ParseBatchFrame buf offset = Ok (frame, nx)" by blast
    have adv: "offset + 10 \<le> nx" "nx \<le> length buf" using ParseBatchFrame_advances [OF f(2)] by auto
    obtain s' e where fn: "fn s frame = (s', e)" by fastforce
    have p: "P (Suc n) s'" using step [OF less.prems(1), of frame] less.prems(2) f fn by simp
    have "\<exists>n'\<le>N. P n' (fst (ParseBatch_loop buf fn s' nx))"
      by (rule less.hyps [OF _ p]) (use adv f less.prems in auto)
    then show ?thesis
      using f fn p less.prems(2) by (subst ParseBatch_loop.simps) (auto split: option.split intro!: exI [of _ "Suc n"])
  next
    case False
    then show ?thesis
      using less.prems by (subst ParseBatch_loop.simps) (auto split: res.split intro!: exI [of _ n])
  qed
qed


lemma PublishBatch_rinv:
  assumes inv: "rinv {#} r" and len: "unat (f_PayloadLen frame) = length (f_Payload frame)"
  shows "rinv {#} (snd (PublishBatch env frame r))"
proof (cases "unat (f_PayloadLen frame) > maxPayloadSize")
  case True
  then show ?thesis using inv by (simp add: PublishBatch_def)
next
  case False
  obtain b r1 where a: "acquire_ref env (batch_buf env frame) 0 0 r = (b, r1)" by fastforce
  note f = acquire_ref_facts [OF inv a]
  have b0: "batch_inv b 1 ([], r1)" using f by (simp add: batch_inv_def)
  obtain dcs r2 e where p: "ParseBatch (f_Payload frame) (publish_sub env b) ([], r1) = ((dcs, r2), e)"
    by (metis prod.exhaust)
  have "\<exists>n'\<le>2 ^ 31. batch_inv b n' (fst (ParseBatch_loop (f_Payload frame) (publish_sub env b) ([], r1) 0))"
    by (rule ParseBatch_loop_inv [OF publish_sub_inv b0]) (use False len in \<open>auto simp: maxPayloadSize_def\<close>)
  then have i2: "rinv {#b#} r2" using p by (auto simp: ParseBatch_def batch_inv_def)
  define r3 where "r3 = fold disconnectSubscriber dcs r2"
  have i3: "rinv {#b#} r3" unfolding r3_def by (rule fold_rinv [OF disconnectSubscriber_rinv i2])
  have rel: "rinv {#} (release_ref b r4)" if "rinv {#b#} r4" for r4
    using that refs_ok_release [of r4 b "{#}"]
    by (simp add: rinv_def lengths_ok_def queues_ok_def index_ok_def groups_ok_def groups_at_def group_ok_def
        member_of_def release_ref_def)
  show ?thesis
    using a p i3 False
    by (auto simp: PublishBatch_def Let_def simp flip: r3_def intro!: rel split: option.split)
qed

section \<open>Subscribing\<close>

lemma append_slot_wf:
  fixes sid :: u32 and s :: nat and spec :: SubscriptionSpec
  assumes inv: "rinv X r"
  defines "r' \<equiv> append_slot sid s spec r"
  shows "lengths_ok r'" "queues_ok r'" "refs_ok r' X" "slots r' = Suc (slots r)" "r_groups r' = r_groups r"
    "r_topicIndex r' = r_topicIndex r" "r_wildcardSubs r' = r_wildcardSubs r"
    "r_topics r' = r_topics r @ [sp_Topic spec]" "r_subGroups r' = r_subGroups r @ [sp_GroupID spec]"
    "r_active r' = r_active r @ [True]"
proof -
  show "lengths_ok r'" using inv by (simp add: rinv_def lengths_ok_def r'_def append_slot_def nth_append less_Suc_eq)
  show "queues_ok r'" using inv by (auto simp: rinv_def queues_ok_def r'_def append_slot_def)
  have "handles r' = handles r"
    by (simp add: handles_def r'_def append_slot_def slot_handles_def new_writer_def)
  then show "refs_ok r' X" using inv by (simp add: rinv_def refs_ok_def r'_def append_slot_def)
qed (simp_all add: r'_def append_slot_def)

lemma member_of_append_slot:
  assumes inv: "rinv X r"
  shows "member_of (append_slot sid s spec r) g i \<longleftrightarrow>
    member_of r g i \<or> i = slots r \<and> sp_GroupID spec = cg_groupID g \<and> sp_Topic spec = cg_topic g"
proof -
  have "length (r_subGroups r) = slots r" "length (r_topics r) = slots r"
    using inv by (simp_all add: rinv_def lengths_ok_def)
  then show ?thesis
    by (cases "i < slots r") (auto simp: member_of_def append_slot_def nth_append less_Suc_eq)
qed

lemma group_ok_append_slot:
  assumes inv: "rinv X r" and g: "group_ok r h g"
    and new: "\<not> (sp_GroupID spec = cg_groupID g \<and> sp_Topic spec = cg_topic g)"
  shows "group_ok (append_slot sid s spec r) h g"
proof -
  have m: "member_of (append_slot sid s spec r) g i \<longleftrightarrow> member_of r g i" for i
    using member_of_append_slot [OF inv, of sid s spec] new by auto
  have "r_active (append_slot sid s spec r) ! i = r_active r ! i" if "member_of r g i" for i
    using that inv by (simp add: append_slot_def nth_append member_of_def rinv_def lengths_ok_def)
  then show ?thesis using g unfolding group_ok_def m by auto
qed

lemma join_group_ids:
  "set (map cg_groupID (join_group r gid t gs)) = insert gid (set (map cg_groupID gs))"
  "distinct (map cg_groupID gs) \<Longrightarrow> distinct (map cg_groupID (join_group r gid t gs))"
  "length (join_group r gid t gs) \<le> Suc (length gs)"
proof -
  show *: "set (map cg_groupID (join_group r gid t gs)) = insert gid (set (map cg_groupID gs))" for gs
    by (induction gs) (auto simp: rebuildGroupMembersLocked_def)
  show "distinct (map cg_groupID gs) \<Longrightarrow> distinct (map cg_groupID (join_group r gid t gs))"
  proof (induction gs)
    case (Cons g gs)
    then show ?case using * [of gs] by (auto simp: rebuildGroupMembersLocked_def)
  qed (simp add: rebuildGroupMembersLocked_def)
  show "length (join_group r gid t gs) \<le> Suc (length gs)" by (induction gs) auto
qed

lemma join_group_ok:
  assumes "lengths_ok r" "gid \<noteq> []" "topicHashKey t = h" "distinct (map cg_groupID gs)"
    and "\<And>g. g \<in> set gs \<Longrightarrow> cg_groupID g \<noteq> gid \<Longrightarrow> group_ok r h g"
    and "\<And>g. g \<in> set gs \<Longrightarrow> cg_groupID g \<noteq> [] \<and> topicHashKey (cg_topic g) = h"
  shows "\<forall>g\<in>set (join_group r gid t gs). group_ok r h g"
  using assms(4-6)
proof (induction gs)
  case Nil
  then show ?case using assms(1-3) by (simp add: rebuild_group_ok)
next
  case (Cons g gs)
  show ?case
  proof (cases "cg_groupID g = gid")
    case True
    have "group_ok r h x" if "x \<in> set gs" for x
    proof (rule Cons.prems(2))
      show "cg_groupID x \<noteq> gid" using imageI [OF that, of cg_groupID] True Cons.prems(1) by auto
    qed (use that in simp)
    moreover have "group_ok r h (rebuildGroupMembersLocked r g)"
      by (rule rebuild_group_ok [OF assms(1)]) (use Cons.prems(3) [of g] in auto)
    ultimately show ?thesis using True by simp
  next
    case False
    moreover have "\<forall>x\<in>set (join_group r gid t gs). group_ok r h x"
      by (rule Cons.IH) (use Cons.prems in auto)
    ultimately show ?thesis using Cons.prems(2) [of g] by simp
  qed
qed

lemma groups_at_joined:
  fixes sid :: u32 and s :: nat and spec :: SubscriptionSpec
  assumes inv: "rinv X r" and gid: "sp_GroupID spec \<noteq> []" and at: "groups_at r h (r_groups r h)"
    and h: "h = topicHashKey (sp_Topic spec)"
  defines "r' \<equiv> append_slot sid s spec r"
  shows "groups_at r' h (join_group r' (sp_GroupID spec) (sp_Topic spec) (r_groups r h))"
proof -
  let ?g = "sp_GroupID spec" and ?t = "sp_Topic spec"
  note w = append_slot_wf [OF inv, of sid s spec, folded r'_def]
  have "group_ok r' h g" if "g \<in> set (r_groups r h)" "cg_groupID g \<noteq> ?g" for g
    unfolding r'_def using at that by (intro group_ok_append_slot [OF inv]) (auto simp: groups_at_def)
  moreover have "cg_groupID g \<noteq> [] \<and> topicHashKey (cg_topic g) = h" if "g \<in> set (r_groups r h)" for g
    using at that by (auto simp: groups_at_def group_ok_def)
  moreover have dis: "distinct (map cg_groupID (r_groups r h))" and le: "length (r_groups r h) \<le> slots r"
    using at by (simp_all add: groups_at_def)
  ultimately have "\<forall>g\<in>set (join_group r' ?g ?t (r_groups r h)). group_ok r' h g"
    using w(1) gid h by (intro join_group_ok) auto
  moreover have "r_subGroups r' ! i \<in> cg_groupID ` set (join_group r' ?g ?t (r_groups r h))"
    if "i < slots r'" "r_subGroups r' ! i \<noteq> []" "topicHashKey (r_topics r' ! i) = h" for i
  proof -
    have len: "length (r_subGroups r) = slots r" "length (r_topics r) = slots r"
      using inv by (simp_all add: rinv_def lengths_ok_def)
    have "r_subGroups r' ! i = ?g \<or> r_subGroups r' ! i \<in> cg_groupID ` set (r_groups r h)"
      using that at w(4,8,9) len by (cases "i = slots r") (auto simp: groups_at_def nth_append less_Suc_eq)
    then show ?thesis using join_group_ids(1) [of r' ?g ?t "r_groups r h"] by auto
  qed
  moreover have "length (join_group r' ?g ?t (r_groups r h)) \<le> slots r'"
    using join_group_ids(3) [of r' ?g ?t "r_groups r h"] le w(4) by linarith
  ultimately show ?thesis
    using join_group_ids(2) [OF dis, of r' ?g ?t] unfolding groups_at_def by blast
qed


lemma filter_upt_Suc: "(\<And>i. i < n \<Longrightarrow> P' i = P i) \<Longrightarrow> filter P' [0..<Suc n] = filter P [0..<n] @ (if P' n then [n] else [])"
  by (auto intro: filter_cong)

definition registered :: "u32 \<Rightarrow> nat \<Rightarrow> SubscriptionSpec \<Rightarrow> Router \<Rightarrow> Router" where
  "registered sid s spec r =
     (let r1 = append_slot sid s spec r; h = topicHashKey (sp_Topic spec) in
      r1\<lparr>r_topicIndex := (if sp_GroupID spec = [] then (r_topicIndex r)(h := r_topicIndex r h @ [slots r]) else r_topicIndex r),
         r_groups := (if sp_GroupID spec = [] then r_groups r
           else (r_groups r)(h := join_group r1 (sp_GroupID spec) (sp_Topic spec) (r_groups r h))),
         r_wildcardSubs := (if IsWildcardTopic (sp_Topic spec)
           then r_wildcardSubs r @ [\<lparr>ws_pattern = sp_Topic spec, ws_idx = slots r\<rparr>] else r_wildcardSubs r)\<rparr>)"

lemma registered_index_ok:
  assumes inv: "rinv X r"
  shows "index_ok (registered sid s spec r)"
proof -
  let ?r = "registered sid s spec r"
  have len: "length (r_subGroups r) = slots r" "length (r_topics r) = slots r"
    using inv by (simp_all add: rinv_def lengths_ok_def)
  have f: "slots ?r = Suc (slots r)" "r_subGroups ?r = r_subGroups r @ [sp_GroupID spec]"
    "r_topics ?r = r_topics r @ [sp_Topic spec]"
    by (simp_all add: registered_def append_slot_def Let_def)
  have old: "i < slots r \<Longrightarrow> r_subGroups ?r ! i = r_subGroups r ! i \<and> r_topics ?r ! i = r_topics r ! i" for i
    using len by (simp add: f nth_append)
  have new: "r_subGroups ?r ! slots r = sp_GroupID spec" "r_topics ?r ! slots r = sp_Topic spec"
    using len by (simp_all add: f nth_append)
  have ix: "r_topicIndex r h = filter (\<lambda>i. r_subGroups r ! i = [] \<and> topicHashKey (r_topics r ! i) = h) [0..<slots r]"
    "r_wildcardSubs r = map (\<lambda>i. \<lparr>ws_pattern = r_topics r ! i, ws_idx = i\<rparr>)
      (filter (\<lambda>i. IsWildcardTopic (r_topics r ! i)) [0..<slots r])" for h
    using inv by (simp_all add: rinv_def index_ok_def)
  have "filter (\<lambda>i. r_subGroups ?r ! i = [] \<and> topicHashKey (r_topics ?r ! i) = h) [0..<Suc (slots r)] =
      r_topicIndex r h @ (if sp_GroupID spec = [] \<and> topicHashKey (sp_Topic spec) = h then [slots r] else [])" for h
    unfolding ix(1) new [symmetric] by (rule filter_upt_Suc) (simp add: old)
  then have "r_topicIndex ?r h = filter (\<lambda>i. r_subGroups ?r ! i = [] \<and> topicHashKey (r_topics ?r ! i) = h) [0..<slots ?r]" for h
    unfolding f(1) by (simp only:) (simp add: registered_def Let_def)
  moreover have "filter (\<lambda>i. IsWildcardTopic (r_topics ?r ! i)) [0..<Suc (slots r)] =
      filter (\<lambda>i. IsWildcardTopic (r_topics r ! i)) [0..<slots r] @ (if IsWildcardTopic (sp_Topic spec) then [slots r] else [])"
    unfolding new(2) [symmetric] by (rule filter_upt_Suc) (simp add: old)
  then have "r_wildcardSubs ?r = map (\<lambda>i. \<lparr>ws_pattern = r_topics ?r ! i, ws_idx = i\<rparr>)
      (filter (\<lambda>i. IsWildcardTopic (r_topics ?r ! i)) [0..<slots ?r])"
    unfolding f(1) by (simp only:) (use ix(2) old new(2) in \<open>simp add: registered_def Let_def\<close>)
  ultimately show ?thesis by (simp add: index_ok_def)
qed

lemma registered_groups_ok:
  assumes inv: "rinv X r"
  shows "groups_ok (registered sid s spec r)"
proof -
  let ?r = "registered sid s spec r" and ?r1 = "append_slot sid s spec r" and ?k = "topicHashKey (sp_Topic spec)"
  have cong: "groups_at ?r h gs = groups_at ?r1 h gs" for h gs
    by (simp add: registered_def Let_def groups_at_def group_ok_def member_of_def)
  have at: "groups_at r h (r_groups r h)" for h using inv by (simp add: rinv_def groups_ok_def)
  have len: "length (r_subGroups r) = slots r" "length (r_topics r) = slots r"
    using inv by (simp_all add: rinv_def lengths_ok_def)
  have keep: "groups_at ?r1 h (r_groups r h)" if "sp_GroupID spec = [] \<or> h \<noteq> ?k" for h
  proof -
    have "group_ok ?r1 h g" if g: "g \<in> set (r_groups r h)" for g
      using at [of h] g \<open>sp_GroupID spec = [] \<or> h \<noteq> ?k\<close>
      by (intro group_ok_append_slot [OF inv]) (auto simp: groups_at_def group_ok_def)
    moreover have "r_subGroups ?r1 ! i \<in> cg_groupID ` set (r_groups r h)"
      if "i < Suc (slots r)" "r_subGroups ?r1 ! i \<noteq> []" "topicHashKey (r_topics ?r1 ! i) = h" for i
      using at [of h] that \<open>sp_GroupID spec = [] \<or> h \<noteq> ?k\<close> len
      by (cases "i = slots r") (auto simp: groups_at_def append_slot_def nth_append)
    ultimately show ?thesis
      using at [of h] append_slot_wf(4) [OF inv, of sid s spec] by (auto simp: groups_at_def)
  qed
  have "groups_at ?r1 h (r_groups ?r h)" for h
    using keep [of h] groups_at_joined [OF inv _ at refl, of spec sid s]
    by (auto simp: registered_def Let_def)
  then show ?thesis by (simp add: groups_ok_def cong)
qed

lemma registered_rinv:
  assumes inv: "rinv X r" and n: "slots r < 2 ^ 29"
  shows "rinv X (registered sid s spec r)"
proof -
  let ?r = "registered sid s spec r" and ?r1 = "append_slot sid s spec r"
  note w = append_slot_wf [OF inv, of sid s spec]
  have "lengths_ok ?r" using w(1) by (simp add: lengths_ok_def registered_def Let_def)
  moreover have "queues_ok ?r" using w(2) by (simp add: queues_ok_def registered_def Let_def)
  moreover have "refs_ok ?r X" using w(3) by (simp add: refs_ok_def handles_def registered_def Let_def)
  moreover have "slots ?r \<le> 2 ^ 29" using w(4) n by (simp add: registered_def Let_def)
  ultimately show ?thesis using registered_index_ok [OF inv] registered_groups_ok [OF inv] by (simp add: rinv_def)
qed

text \<open>Offsets of consumers and the log do not matter for the invariant.\<close>

definition strip_meta :: "Router \<Rightarrow> Router" where
  "strip_meta r = r\<lparr>r_durableOffsets := \<lambda>_. 0, r_log := []\<rparr>"

lemma strip_meta_simps:
  "strip_meta (emit e r) = strip_meta r" "strip_meta (r\<lparr>r_durableOffsets := d\<rparr>) = strip_meta r"
  "strip_meta (report_active r) = strip_meta r"
  "strip_meta (r\<lparr>r_wildcardSubs := w\<rparr>) = (strip_meta r)\<lparr>r_wildcardSubs := w\<rparr>"
  by (simp_all add: strip_meta_def emit_def report_active_def)

lemma rinv_strip_meta: "rinv X (strip_meta r) = rinv X r"
  by (simp add: strip_meta_def rinv_def lengths_ok_def queues_ok_def index_ok_def groups_ok_def groups_at_def
      group_ok_def member_of_def refs_ok_def handles_def)

lemma register_group_strip:
  assumes "register_group h spec r = (off, r')"
  shows "strip_meta r' = strip_meta (r\<lparr>r_groups := (r_groups r)(h :=
      join_group r (sp_GroupID spec) (sp_Topic spec) (r_groups r h))\<rparr>)" "r_wildcardSubs r' = r_wildcardSubs r"
  using assms by (auto simp: register_group_def Let_def strip_meta_def emit_def split: if_splits)

lemma Subscribe_registered:
  assumes spec: "parseSubscriptionPayload (f_Payload frame) = Ok spec"
  shows "strip_meta (snd (Subscribe (Some s) frame r)) = strip_meta (registered (f_StreamID frame) s spec r)"
proof -
  let ?h = "topicHashKey (sp_Topic spec)" and ?r1 = "append_slot (f_StreamID frame) s spec r"
  let ?plain = "sp_GroupID spec = []"
  obtain off r2 where r2: "(if \<not> ?plain then register_group ?h spec ?r1
      else (sp_RequestedOffset spec, ?r1\<lparr>r_topicIndex := (r_topicIndex ?r1)(?h := r_topicIndex ?r1 ?h @ [slots r])\<rparr>)) = (off, r2)"
    by fastforce
  have s2: "strip_meta r2 = strip_meta (?r1\<lparr>
      r_topicIndex := (if ?plain then (r_topicIndex r)(?h := r_topicIndex r ?h @ [slots r]) else r_topicIndex r),
      r_groups := (if ?plain then r_groups r else (r_groups r)(?h :=
        join_group ?r1 (sp_GroupID spec) (sp_Topic spec) (r_groups r ?h)))\<rparr>)"
    "r_wildcardSubs r2 = r_wildcardSubs r"
    using r2 register_group_strip [of ?h spec ?r1 off r2]
    by (auto simp: append_slot_def split: if_splits)
  have "strip_meta (snd (Subscribe (Some s) frame r)) =
      (if IsWildcardTopic (sp_Topic spec)
       then (strip_meta r2)\<lparr>r_wildcardSubs := r_wildcardSubs r2 @ [\<lparr>ws_pattern = sp_Topic spec, ws_idx = slots r\<rparr>]\<rparr>
       else strip_meta r2)"
    using spec r2 by (simp add: Subscribe_def Let_def strip_meta_simps)
  also have "\<dots> = strip_meta (registered (f_StreamID frame) s spec r)"
    unfolding s2 registered_def Let_def by (simp add: strip_meta_def append_slot_def)
  finally show ?thesis .
qed

lemma Subscribe_rinv:
  assumes inv: "rinv X r" and n: "slots r < 2 ^ 29"
  shows "rinv X (snd (Subscribe stream frame r))"
proof (cases "\<exists>s spec. stream = Some s \<and> parseSubscriptionPayload (f_Payload frame) = Ok spec")
  case True
  then obtain s spec where s: "stream = Some s" "parseSubscriptionPayload (f_Payload frame) = Ok spec" by blast
  have "rinv X (registered (f_StreamID frame) s spec r)" by (rule registered_rinv [OF inv n])
  then show ?thesis using Subscribe_registered [OF s(2), of s r] rinv_strip_meta unfolding s(1) by metis
next
  case False
  then show ?thesis using inv by (auto simp: Subscribe_def split: option.split res.split)
qed


section \<open>Acknowledgements\<close>

lemma rinv_nackChs:
  "rinv X r \<Longrightarrow> length chs = length (r_nackChs r) \<Longrightarrow> (\<forall>ch\<in>set chs. length ch \<le> 8) \<Longrightarrow> rinv X (r\<lparr>r_nackChs := chs\<rparr>)"
  by (simp add: rinv_def lengths_ok_def queues_ok_def index_ok_def groups_ok_def groups_at_def group_ok_def
      member_of_def refs_ok_def handles_def)

lemma NackByStream_rinv:
  assumes inv: "rinv X r"
  shows "rinv X (NackByStream sid off r)"
proof -
  have "\<forall>ch\<in>set (r_nackChs r). length ch \<le> 8" using inv by (simp add: rinv_def queues_ok_def)
  then have "rinv X (r\<lparr>r_nackChs := (r_nackChs r)[i := r_nackChs r ! i @ [off]]\<rparr>)"
    if "length (r_nackChs r ! i) < 8" for i
    using that set_update_subset_insert [of "r_nackChs r" i "r_nackChs r ! i @ [off]"]
    by (intro rinv_nackChs [OF inv]) auto
  then show ?thesis using inv by (simp add: NackByStream_def split: option.split)
qed

lemma AckOffset_rinv:
  assumes inv: "rinv X r"
  shows "rinv X (AckOffset c t off r)"
proof -
  have "rinv X (ack_slot c t off i r)" if "rinv X r" for i r using that by (simp add: ack_slot_def Let_def)
  then show ?thesis unfolding AckOffset_def Let_def using inv by (intro rinv_emit fold_rinv) simp_all
qed

section \<open>Writers\<close>

lemma rinv_release: "rinv (add_mset m X) r \<Longrightarrow> rinv X (release_ref m r)"
  using refs_ok_release [of r m X]
  by (simp add: rinv_def lengths_ok_def queues_ok_def index_ok_def groups_ok_def groups_at_def group_ok_def
      member_of_def release_ref_def)

lemma rinv_release_all: "rinv (mset ms + X) r \<Longrightarrow> rinv X (fold release_ref ms r)"
  by (induction ms arbitrary: r) (simp_all add: rinv_release)

lemma rinv_set_queue:
  assumes inv: "rinv X r" and i: "i < slots r" "p < 4" and q: "length (content q) \<le> r_queueSize r"
    and m: "X + mset (content (queue r i p)) = Y + mset (content q)"
  shows "rinv Y (set_queue i p q r)"
proof -
  have len: "i < length (r_queues r)" "p < length (r_queues r ! i)"
    using inv i queue_bound(1) [of r i p] by (auto simp: rinv_def lengths_ok_def)
  have st: "static r (set_queue i p q r)" by simp
  have "refs_ok (set_queue i p q r) Y"
    by (rule handles_move_queue [OF _ len m]) (use inv in \<open>simp add: rinv_def\<close>)
  moreover have "queues_ok (set_queue i p q r)"
    using inv q by (intro queues_ok_set_queue) (simp_all add: rinv_def)
  moreover have "quiet r (set_queue i p q r)" by (simp add: quiet_def)
  ultimately show ?thesis
    using inv quiet_index lengths_ok_static [OF st] by (auto simp: rinv_def)
qed

lemma rinv_set_writer:
  assumes inv: "rinv X r" and i: "i < slots r"
    and m: "X + mset (w_refs (r_writers r ! i)) = Y + mset (w_refs w)"
  shows "rinv Y (set_writer i w r)"
proof -
  have "refs_ok (set_writer i w r) Y"
    by (rule handles_move_writer [OF _ _ m]) (use inv i in \<open>auto simp: rinv_def lengths_ok_def\<close>)
  then show ?thesis
    using inv by (simp add: rinv_def set_writer_def lengths_ok_def queues_ok_def index_ok_def groups_ok_def groups_at_def
        group_ok_def member_of_def)
qed

lemma fetch_from_rinv:
  assumes inv: "rinv X r" and i: "i < slots r" and ps: "set ps \<subseteq> {..<4}"
    and f: "fetch_from ps i r = (res, r')"
  shows "rinv (case res of None \<Rightarrow> X | Some (m, p) \<Rightarrow> add_mset m X) r' \<and> slots r' = slots r \<and>
    (res = None \<longrightarrow> r' = r)"
  using ps f
proof (induction ps)
  case (Cons p ps)
  show ?case
  proof (cases "content (queue r i p)")
    case Nil
    then have "fetch_from ps i r = (res, r')" using Cons.prems by (cases "queue r i p") auto
    then show ?thesis using Cons by simp
  next
    case (Cons m q)
    then have q: "queue r i p = Some (m # q)" by (cases "queue r i p") auto
    let ?r = "set_queue i p (Some q) r"
    have p: "p < 4" using Cons.prems(1) by simp
    have len: "length (m # q) \<le> r_queueSize r"
      using inv i p q queue_bound(2) [of r i p] by (auto simp: rinv_def lengths_ok_def)
    have r1: "rinv (add_mset m X) ?r" by (rule rinv_set_queue [OF inv i p]) (use q len in simp_all)
    have s1: "slots ?r = slots r" by (simp add: set_queue_def)
    have q1: "queue ?r i p = Some q"
      using inv i p queue_bound(1) [of r i p] by (auto simp: set_queue_def rinv_def lengths_ok_def)
    have "rinv (add_mset m X) (cleanupEmptyQueue i p ?r) \<and> slots (cleanupEmptyQueue i p ?r) = slots r"
    proof (cases q)
      case Nil
      have "rinv (add_mset m X) (set_queue i p None ?r)"
        by (rule rinv_set_queue [OF r1]) (use q1 Nil i p s1 in simp_all)
      then show ?thesis using q1 Nil s1 by (simp add: cleanupEmptyQueue_def returnQueueToPool_def) (simp add: set_queue_def)
    next
      case (Cons a list)
      then show ?thesis using q1 r1 s1 by (simp add: cleanupEmptyQueue_def)
    qed
    then show ?thesis using Cons.prems(2) q by auto
  qed
qed (use inv in simp)

lemma drain_queue_rinv:
  assumes inv: "rinv X r" and i: "i < slots r" "p < 4"
  shows "rinv X (drain_queue i p r) \<and> slots (drain_queue i p r) = slots r"
proof (cases "queue r i p")
  case (Some q)
  have "rinv (mset q + X) (set_queue i p None r)"
    by (rule rinv_set_queue [OF inv i]) (use Some in simp_all)
  moreover have "slots (fold release_ref q r) = slots r" for r by (induction q arbitrary: r) (simp_all add: release_ref_def)
  ultimately show ?thesis
    using Some by (simp add: drain_queue_def returnQueueToPool_def rinv_release_all) (simp add: set_queue_def)
qed (use inv in \<open>simp add: drain_queue_def\<close>)

lemma drain_rinv:
  assumes "rinv X r" "i < slots r"
  shows "rinv X (drainSubscriberQueues i r)"
proof -
  have "rinv X (fold (drain_queue i) ps r) \<and> slots (fold (drain_queue i) ps r) = slots r" if "set ps \<subseteq> {..<4}" for ps
    using that assms
  proof (induction ps arbitrary: r)
    case (Cons p ps)
    then show ?case using drain_queue_rinv [of X r i p] by (auto simp: Cons.IH)
  qed simp
  from this [of "[0, 1, 2, 3]"] show ?thesis by (simp add: drainSubscriberQueues_def)
qed

lemma writer_small [simp]:
  "slots (emit e r) = slots r" "slots (set_writer i w r) = slots r" "slots (release_ref m r) = slots r"
  "r_writers (emit e r) = r_writers r"
  by (simp_all add: emit_def set_writer_def release_ref_def)

lemma slots_release_all [simp]: "slots (fold release_ref ms r) = slots r"
  by (induction ms arbitrary: r) simp_all

lemma writers_release_all [simp]: "r_writers (fold release_ref ms r) = r_writers r"
  by (induction ms arbitrary: r) simp_all

lemma flush_rinv:
  assumes inv: "rinv X r" and i: "i < slots r"
  shows "rinv X (snd (flush ok i r)) \<and> slots (snd (flush ok i r)) = slots r"
proof (cases "w_buf (r_writers r ! i) = []")
  case False
  let ?w = "r_writers r ! i"
  have "rinv (mset (w_refs ?w) + X) (set_writer i (?w\<lparr>w_buf := [], w_refs := []\<rparr>) r)"
    by (rule rinv_set_writer [OF inv i]) simp
  then show ?thesis using False by (simp add: flush_def Let_def rinv_release_all)
qed (use inv in \<open>simp add: flush_def\<close>)

lemma set_writer_same_refs:
  assumes "rinv X r" "i < slots r" "w_refs w = w_refs (r_writers r ! i)"
  shows "rinv X (set_writer i w r)"
  by (rule rinv_set_writer [OF assms(1,2)]) (simp add: assms(3))

lemma writer_exit_rinv:
  assumes inv: "rinv X r" and i: "i < slots r"
  shows "rinv X (writer_exit ok i r)"
proof -
  obtain b r1 where f: "flush ok i r = (b, r1)" by fastforce
  have r1: "rinv X r1" "slots r1 = slots r" using flush_rinv [OF inv i, of ok] f by simp_all
  have "rinv X (set_writer i ((r_writers r1 ! i)\<lparr>w_running := False, w_timer := False\<rparr>) r1)"
    by (rule set_writer_same_refs [OF r1(1)]) (use r1 i in simp_all)
  then show ?thesis using f r1 i by (simp add: writer_exit_def drain_rinv)
qed

lemma deliver_rinv:
  assumes inv: "rinv (add_mset m X) r" and i: "i < slots r"
  shows "rinv X (deliver oks i m buf r)"
proof -
  let ?big = "w_buf (r_writers r ! i) \<noteq> [] \<and> length (w_buf (r_writers r ! i)) + length buf > r_batchSize r"
  obtain b1 r1 where f1: "(if ?big then flush (fst oks) i r else (True, r)) = (b1, r1)" by fastforce
  have r1: "rinv (add_mset m X) r1" "slots r1 = slots r"
    using flush_rinv [OF inv i, of "fst oks"] inv f1 by (auto split: if_splits)
  let ?r2 = "append_message i m buf r1"
  have r2: "rinv X ?r2" "slots ?r2 = slots r"
    using rinv_set_writer [OF r1(1), of i X] r1(2) i by (simp_all add: append_message_def Let_def)
  obtain b3 r3 where f3: "(if length (w_buf (r_writers ?r2 ! i)) \<ge> r_batchSize ?r2 then flush (snd oks) i ?r2 else (True, ?r2)) = (b3, r3)"
    by fastforce
  have r3: "rinv X r3" "slots r3 = slots r"
    using flush_rinv [OF r2(1), of i "snd oks"] r2 i f3 by (auto split: if_splits)
  have e1: "rinv X (writer_exit (fst oks) i (release_ref m r1))"
    by (rule writer_exit_rinv) (use r1 i in \<open>simp_all add: rinv_release\<close>)
  have e3: "rinv X (writer_exit (snd oks) i r3)" by (rule writer_exit_rinv) (use r3 i in simp_all)
  show ?thesis unfolding deliver_def Let_def f1 using e1 e3 r3 f3 by (simp add: Let_def)
qed

lemma storeFrame_refs [simp]: "w_refs (storeFrame off t w) = w_refs w"
  by (simp add: storeFrame_def Let_def)

lemma writer_message_rinv:
  assumes inv: "rinv (add_mset m X) r" and i: "i < slots r"
  shows "rinv X (writer_message env oks i m p r)"
proof -
  have "rinv X (deliver oks i m buf (set_writer i (storeFrame off t (r_writers r ! i)) r))" for buf off t
    by (rule deliver_rinv [OF set_writer_same_refs [OF inv i]]) (use i in simp_all)
  then show ?thesis
    using inv by (auto simp: writer_message_def Let_def rinv_release split: option.split)
qed

lemma Publish_rinv: "rinv X r \<Longrightarrow> rinv X (snd (Publish env frame r))"
  by (simp add: Publish_def publishWithClientID_rinv)

lemma handleNack_rinv:
  assumes inv: "rinv X r"
  shows "rinv X (handleNack env i off r)"
  using inv by (auto simp: handleNack_def Let_def intro!: Publish_rinv split: option.split)

lemma rinv_notify: "rinv X r \<Longrightarrow> rinv X (r\<lparr>r_notify := (r_notify r)[i := b]\<rparr>)"
  by (simp add: rinv_def lengths_ok_def queues_ok_def index_ok_def groups_ok_def groups_at_def group_ok_def
      member_of_def refs_ok_def handles_def)

lemma rinv_cancelled: "rinv X r \<Longrightarrow> rinv X (r\<lparr>r_cancelled := (r_cancelled r)[i := True]\<rparr>)"
  by (simp add: rinv_def lengths_ok_def queues_ok_def index_ok_def groups_ok_def groups_at_def group_ok_def
      member_of_def refs_ok_def handles_def nth_update_any)

lemma writer_select_rinv:
  assumes inv: "rinv X r" and i: "i < slots r"
  shows "rinv X (writer_select env ok ev i r)"
proof (cases ev)
  case CtxDone
  then show ?thesis using inv writer_exit_rinv [OF inv i] by simp
next
  case TimerFired
  let ?r = "set_writer i ((r_writers r ! i)\<lparr>w_timer := False\<rparr>) r"
  have r: "rinv X ?r" by (rule set_writer_same_refs [OF inv i]) simp
  obtain b r1 where f: "flush ok i ?r = (b, r1)" by fastforce
  have "rinv X r1" "slots r1 = slots r" using flush_rinv [OF r, of i ok] f i by simp_all
  then show ?thesis using TimerFired f inv writer_exit_rinv [of X r1 i ok] i by simp
next
  case NackReady
  have n: "\<forall>ch\<in>set (r_nackChs r). length ch \<le> 8" and l: "length (r_nackChs r) = slots r"
    using inv by (simp_all add: rinv_def queues_ok_def lengths_ok_def)
  have "rinv X (r\<lparr>r_nackChs := (r_nackChs r)[i := rest]\<rparr>)" if c: "r_nackChs r ! i = off # rest" for off rest
  proof (rule rinv_nackChs [OF inv])
    have "length (r_nackChs r ! i) \<le> 8" using n l i by simp
    then show "\<forall>ch\<in>set ((r_nackChs r)[i := rest]). length ch \<le> 8"
      using n c set_update_subset_insert [of "r_nackChs r" i rest] by auto
  qed simp
  then show ?thesis using NackReady inv by (auto simp: handleNack_rinv split: list.split)
next
  case Notified
  then show ?thesis using inv by (simp add: rinv_notify)
qed

lemma writer_round_rinv:
  assumes inv: "rinv X r"
  shows "rinv X (writer_round env oks ev i r)"
proof (cases "i < length (r_writers r) \<and> w_running (r_writers r ! i)")
  case True
  then have i: "i < slots r" using inv by (simp add: rinv_def lengths_ok_def)
  obtain res r1 where f: "fetchNextMessage i r = (res, r1)" by fastforce
  have r1: "rinv (case res of None \<Rightarrow> X | Some (m, p) \<Rightarrow> add_mset m X) r1" "slots r1 = slots r"
    using fetch_from_rinv [OF inv i, of "[0, 1, 2, 3]" res r1] f by (auto simp: fetchNextMessage_def)
  then show ?thesis
    using True f i by (cases res) (auto simp: writer_round_def intro: writer_select_rinv writer_message_rinv)
qed (use inv in \<open>auto simp: writer_round_def\<close>)

end
