(* ===== verification/Router_Props.thy ===== *)
theory Router_Props
  imports Router_Steps
begin

text \<open>
  Runs of the router, and the properties of the router in every state of a run: memory safety of the reference
  counting, consistency of its tables, delivery to the right subscribers in the right order, fairness of consumer
  groups, negative acknowledgements, and shutdown.
\<close>

section \<open>Runs\<close>

text \<open>
  A run interleaves the calls of connections, the rounds of the writers and what the environment does: contexts
  are cancelled, peers come and go, token buckets are refilled. The number of slots stays below \<open>2 ^ 29\<close>, so that
  a message cannot get \<open>2 ^ 31\<close> references. A batch comes from a parsed frame, whose length field is its length.
\<close>

inductive router_reach :: "bool \<Rightarrow> router_option list \<Rightarrow> Router \<Rightarrow> bool" for mt opts where
  start: "router_reach mt opts (NewRouter mt opts)"
| subscribe: "router_reach mt opts r \<Longrightarrow> slots r < 2 ^ 29 \<Longrightarrow> router_reach mt opts (snd (Subscribe stream frame r))"
| publish: "router_reach mt opts r \<Longrightarrow> router_reach mt opts (snd (PublishWithClientID env frame clientID r))"
| peer: "router_reach mt opts r \<Longrightarrow> router_reach mt opts (snd (PublishFromPeer env frame r))"
| batch: "router_reach mt opts r \<Longrightarrow> unat (f_PayloadLen frame) = length (f_Payload frame) \<Longrightarrow>
    router_reach mt opts (snd (PublishBatch env frame r))"
| nack: "router_reach mt opts r \<Longrightarrow> router_reach mt opts (NackByStream sid off r)"
| ack: "router_reach mt opts r \<Longrightarrow> router_reach mt opts (AckOffset consumer topic off r)"
| unsubscribe: "router_reach mt opts r \<Longrightarrow> router_reach mt opts (Unsubscribe sid r)"
| close: "router_reach mt opts r \<Longrightarrow> router_reach mt opts (Close_begin r)"
| writer: "router_reach mt opts r \<Longrightarrow> router_reach mt opts (writer_round env oks ev i r)"
| cancel: "router_reach mt opts r \<Longrightarrow> router_reach mt opts (r\<lparr>r_cancelled := (r_cancelled r)[i := True]\<rparr>)"
| peers: "router_reach mt opts r \<Longrightarrow> router_reach mt opts (r\<lparr>r_peers := n\<rparr>)"
| refill: "router_reach mt opts r \<Longrightarrow> router_reach mt opts (r\<lparr>r_quotaManager := q\<rparr>)"

lemma empty_router_rinv: "rinv {#} (empty_router mt)"
  by (simp add: rinv_def empty_router_def lengths_ok_def queues_ok_def index_ok_def groups_ok_def groups_at_def
      refs_ok_def handles_def defaultQueueSize_def empty_heap_def ref_inv_def counts_ok_def parents_ok_def pool_ok_def
      owners_ok_def owns_def alive_def)

lemma apply_option_rinv:
  "rinv X r \<Longrightarrow> r_streamIDs r = [] \<Longrightarrow> rinv X (apply_option opt r) \<and> r_streamIDs (apply_option opt r) = []"
  by (cases opt)
    (auto simp: rinv_def lengths_ok_def queues_ok_def index_ok_def groups_ok_def groups_at_def group_ok_def member_of_def
      refs_ok_def handles_def WithQueueSize_def WithBackpressurePolicy_def WithAALPath_def WithPeerForwarder_def
      WithBatchSize_def WithFlushInterval_def WithCompression_def WithPriorityTTLs_def WithMaxRetries_def
      WithQuotas_def split: prod.splits)

lemma NewRouter_rinv: "rinv {#} (NewRouter mt opts)"
proof -
  have "rinv {#} (fold apply_option opts r) \<and> r_streamIDs (fold apply_option opts r) = []"
    if "rinv {#} r" "r_streamIDs r = []" for r
    using that by (induction opts arbitrary: r) (simp_all add: apply_option_rinv)
  from this [of "empty_router mt"] show ?thesis
    by (simp add: NewRouter_def empty_router_rinv) (simp add: empty_router_def)
qed

lemmas step_rinv = Subscribe_rinv publishWithClientID_rinv PublishFromPeer_rinv PublishBatch_rinv NackByStream_rinv
  AckOffset_rinv Unsubscribe_rinv Close_rinv writer_round_rinv rinv_cancelled

lemma reach_rinv: "router_reach mt opts r \<Longrightarrow> rinv {#} r"
  by (induction rule: router_reach.induct) (simp_all add: NewRouter_rinv PublishWithClientID_def step_rinv)

lemma reach_ref_inv: "router_reach mt opts r \<Longrightarrow> ref_inv (r_heap r) (handles r) {..<r_nextBuf r}"
  using reach_rinv [of mt opts r] by (simp add: rinv_def refs_ok_def)

section \<open>Who receives a message\<close>

text \<open>The member of a group that is next, and the receivers of a message, in the order of the dispatch loops.\<close>

definition next_member :: "ConsumerGroup \<Rightarrow> nat list" where
  "next_member g = (case cg_members g of None \<Rightarrow> [] | Some ms \<Rightarrow>
     if ms = [] then [] else [ms ! unat (cg_counter g mod of_nat (length ms))])"

definition advance :: "ConsumerGroup \<Rightarrow> ConsumerGroup" where
  "advance g = (if next_member g = [] then g else g\<lparr>cg_counter := cg_counter g + 1\<rparr>)"

definition receivers :: "Router \<Rightarrow> bytes \<Rightarrow> nat list" where
  "receivers r t = filter (\<lambda>i. i < slots r \<and> r_active r ! i)
     (r_topicIndex r (topicHashKey t) @
      map ws_idx (filter (\<lambda>w. MatchWildcard (ws_pattern w) t) (r_wildcardSubs r)) @
      concat (map next_member (r_groups r (topicHashKey t))))"

definition added :: "nat \<Rightarrow> nat \<Rightarrow> nat list \<Rightarrow> Router \<Rightarrow> Router \<Rightarrow> bool" where
  "added m p L r r' \<longleftrightarrow> (\<forall>i < slots r. \<forall>q < 4. content (queue r' i q) =
     content (queue r i q) @ (if q = p then replicate (count_list L i) m else []))"

definition room :: "nat \<Rightarrow> nat list \<Rightarrow> Router \<Rightarrow> bool" where
  "room p L r \<longleftrightarrow> (\<forall>i < slots r. length (content (queue r i p)) + count_list L i \<le> r_queueSize r)"

lemma added_trans: "added m p L r r' \<Longrightarrow> added m p L' r' r'' \<Longrightarrow> slots r' = slots r \<Longrightarrow> added m p (L @ L') r r''"
  by (auto simp: added_def replicate_add)

lemma room_after: "added m p L r r' \<Longrightarrow> room p (L @ L') r \<Longrightarrow> p < 4 \<Longrightarrow> static r r' \<Longrightarrow> room p L' r'"
  by (auto simp: added_def room_def static_def)

text \<open>The live part of a target list.\<close>

abbreviation live :: "Router \<Rightarrow> nat list \<Rightarrow> nat list" where
  "live r L \<equiv> filter (\<lambda>i. i < slots r \<and> r_active r ! i) L"

lemma dispatch_one_added:
  assumes wf: "lengths_ok r" "queues_ok r" and rm: "room (level p) (live r [idx]) r"
  shows "\<exists>r'. dispatch_one m p idx (dcs, r) = (dcs, r') \<and> static r r' \<and> r_groups r' = r_groups r \<and>
    added m (level p) (live r [idx]) r r' \<and> r_log r' = r_log r \<and> queues_ok r' \<and>
    r_heap r' = (Retain (Some m) ^^ length (live r [idx])) (r_heap r)"
proof (cases "idx < slots r \<and> r_active r ! idx")
  case True
  let ?q = "queue r idx (level p)" and ?r = "retain_ref m r"
  let ?r' = "(set_queue idx (level p) (Some (content ?q @ [m])) ?r)\<lparr>r_notify := (r_notify r)[idx := True]\<rparr>"
  have len: "idx < length (r_queues r)" "length (r_active r) = slots r" "length (r_queues r) = slots r"
    "length (r_queues r ! idx) = 4"
    using wf True queue_bound(1) [of r idx "level p"] level_less [of p] by (auto simp: lengths_ok_def)
  have small: "length (content ?q) < r_queueSize r" using rm True by (auto simp: room_def)
  have f: "r_queues ?r = r_queues r" "r_active ?r = r_active r" "r_queueSize ?r = r_queueSize r" "r_notify ?r = r_notify r"
    by (simp_all add: retain_ref_def)
  have enq: "enqueueToSubscriber idx m p ?r = (None, ?r')"
    using enqueue_eq [of idx ?r p ?q m] True len small by (simp add: f)
  have "dispatch_one m p idx (dcs, r) = (dcs, ?r')"
    using True len enq by (simp add: dispatch_one_def)
  moreover have "static r ?r'" by (simp add: static_def retain_ref_def set_queue_def)
  moreover have "added m (level p) (live r [idx]) r ?r'"
    using True len level_less [of p]
    by (auto simp: added_def set_queue_def f nth_list_update)
  moreover have "queues_ok ?r'"
  proof -
    have "queues_ok ?r" using wf(2) by (subst queues_ok_cong [of ?r r]) (simp_all add: retain_ref_def)
    then have "queues_ok (set_queue idx (level p) (Some (content ?q @ [m])) ?r)"
      by (rule queues_ok_set_queue) (use small in \<open>simp add: f\<close>)
    then show ?thesis by (subst queues_ok_cong) simp_all
  qed
  moreover have "r_heap ?r' = (Retain (Some m) ^^ length (live r [idx])) (r_heap r)"
    using True by (simp add: retain_ref_def set_queue_def)
  ultimately show ?thesis by auto
next
  case False
  then have "dispatch_one m p idx (dcs, r) = (dcs, r)" using wf by (auto simp: dispatch_one_def lengths_ok_def)
  then show ?thesis using False wf by (auto simp: added_def)
qed

lemma dispatch_fold_added:
  assumes "lengths_ok r" "queues_ok r" "room (level p) (live r L) r"
  shows "\<exists>r'. fold (dispatch_one m p) L (dcs, r) = (dcs, r') \<and> static r r' \<and> r_groups r' = r_groups r \<and>
    added m (level p) (live r L) r r' \<and> r_log r' = r_log r \<and> queues_ok r' \<and>
    r_heap r' = (Retain (Some m) ^^ length (live r L)) (r_heap r)"
  using assms
proof (induction L arbitrary: r)
  case Nil
  then show ?case by (auto simp: added_def)
next
  case (Cons idx L)
  have sp: "live r (idx # L) = live r [idx] @ live r L" by simp
  have "room (level p) (live r [idx]) r" using Cons.prems(3) by (auto simp: room_def sp split: if_splits)
  then obtain r1 where r1: "dispatch_one m p idx (dcs, r) = (dcs, r1)" "static r r1" "r_groups r1 = r_groups r"
    "added m (level p) (live r [idx]) r r1" "r_log r1 = r_log r" "queues_ok r1"
    "r_heap r1 = (Retain (Some m) ^^ length (live r [idx])) (r_heap r)"
    using dispatch_one_added [OF Cons.prems(1,2)] by blast
  have eq: "live r1 L = live r L" "slots r1 = slots r" using r1(2) by (simp_all add: static_def)
  have rm: "room (level p) (live r L) r1"
    using Cons.prems(3) unfolding sp by (rule room_after [OF r1(4) _ level_less r1(2)])
  from Cons.IH [OF lengths_ok_static [OF r1(2) Cons.prems(1)] r1(6), unfolded eq(1), OF rm]
  obtain r' where r': "fold (dispatch_one m p) L (dcs, r1) = (dcs, r')" "static r1 r'" "r_groups r' = r_groups r1"
    "added m (level p) (live r L) r1 r'" "r_log r' = r_log r1" "queues_ok r'"
    "r_heap r' = (Retain (Some m) ^^ length (live r L)) (r_heap r1)"
    by blast
  have "added m (level p) (live r (idx # L)) r r'"
    unfolding sp by (rule added_trans [OF r1(4) r'(4) eq(2)])
  moreover have "r_heap r' = (Retain (Some m) ^^ length (live r (idx # L))) (r_heap r)"
    unfolding sp length_append add.commute [of "length (live r [idx])"] funpow_add comp_def r'(7) r1(7) ..
  ultimately show ?case using r1 r' static_trans [OF r1(2) r'(2)] by (simp del: filter.simps)
qed

lemma dispatch_wildcards_fold:
  "dispatch_wildcards m p t subs st =
     fold (dispatch_one m p) (map ws_idx (filter (\<lambda>w. MatchWildcard (ws_pattern w) t) subs)) st"
  unfolding dispatch_wildcards_def by (induction subs arbitrary: st) auto


lemma dispatch_group_added:
  assumes wf: "lengths_ok r" "queues_ok r" and j: "j < length (r_groups r h)"
    and rm: "room (level p) (live r (next_member (r_groups r h ! j))) r"
  shows "\<exists>r'. dispatch_group m p h j (dcs, r) = (dcs, r') \<and> static r r' \<and>
    r_groups r' = (r_groups r)(h := (r_groups r h)[j := advance (r_groups r h ! j)]) \<and>
    added m (level p) (live r (next_member (r_groups r h ! j))) r r' \<and> r_log r' = r_log r \<and> queues_ok r' \<and>
    r_heap r' = (Retain (Some m) ^^ length (live r (next_member (r_groups r h ! j)))) (r_heap r)"
proof (cases "next_member (r_groups r h ! j)")
  case Nil
  let ?g = "r_groups r h ! j"
  have "dispatch_group m p h j (dcs, r) = (dcs, r)"
    using Nil by (auto simp: dispatch_group_def next_member_def Let_def split: option.splits if_splits)
  moreover have "(r_groups r h)[j := advance ?g] = r_groups r h" using Nil by (simp add: advance_def)
  ultimately show ?thesis using Nil wf by (auto simp: added_def)
next
  case (Cons i rest)
  let ?g = "r_groups r h ! j"
  let ?r = "r\<lparr>r_groups := (r_groups r)(h := (r_groups r h)[j := advance ?g])\<rparr>"
  obtain ms where ms: "cg_members ?g = Some ms" "ms \<noteq> []" "next_member ?g = [i]"
    "i = ms ! unat (cg_counter ?g mod of_nat (length ms))"
    using Cons by (auto simp: next_member_def split: option.splits if_splits)
  have eq: "dispatch_group m p h j (dcs, r) = dispatch_one m p i (dcs, ?r)"
    using ms by (simp add: dispatch_group_def Let_def advance_def)
  have wf': "lengths_ok ?r" "queues_ok ?r" "room (level p) (live ?r [i]) ?r"
    using wf rm ms by (simp_all add: lengths_ok_def queues_ok_def room_def)
  obtain r' where r': "dispatch_one m p i (dcs, ?r) = (dcs, r')" "static ?r r'" "r_groups r' = r_groups ?r"
    "added m (level p) (live ?r [i]) ?r r'" "r_log r' = r_log ?r" "queues_ok r'"
    "r_heap r' = (Retain (Some m) ^^ length (live ?r [i])) (r_heap ?r)"
    using dispatch_one_added [OF wf'] by blast
  have "static r r'" using r'(2) by (simp add: static_def)
  moreover have "added m (level p) (live r [i]) r r'" using r'(4) by (simp add: added_def)
  ultimately show ?thesis using r' ms eq by (auto simp del: fun_upd_apply)
qed

lemma dispatch_groups_added:
  assumes wf: "lengths_ok r" "queues_ok r" and rm: "room (level p) (live r (concat (map next_member (r_groups r h)))) r"
  shows "\<exists>r'. dispatch_groups m p h (dcs, r) = (dcs, r') \<and> static r r' \<and>
    r_groups r' = (r_groups r)(h := map advance (r_groups r h)) \<and>
    added m (level p) (live r (concat (map next_member (r_groups r h)))) r r' \<and> r_log r' = r_log r \<and> queues_ok r' \<and>
    r_heap r' = (Retain (Some m) ^^ length (live r (concat (map next_member (r_groups r h))))) (r_heap r)"
proof -
  let ?gs = "r_groups r h" and ?n = "length (r_groups r h)"
  let ?L = "\<lambda>k. live r (concat (map next_member (take k ?gs)))"
  have "\<exists>r'. fold (dispatch_group m p h) [0..<k] (dcs, r) = (dcs, r') \<and> static r r' \<and>
    r_groups r' = (r_groups r)(h := map advance (take k ?gs) @ drop k ?gs) \<and>
    added m (level p) (?L k) r r' \<and> r_log r' = r_log r \<and> queues_ok r' \<and>
    r_heap r' = (Retain (Some m) ^^ length (?L k)) (r_heap r)" if "k \<le> ?n" for k
    using that
  proof (induction k)
    case 0
    then show ?case using wf by (auto simp: added_def)
  next
    case (Suc k)
    obtain r1 where r1: "fold (dispatch_group m p h) [0..<k] (dcs, r) = (dcs, r1)" "static r r1"
      "r_groups r1 = (r_groups r)(h := map advance (take k ?gs) @ drop k ?gs)" "added m (level p) (?L k) r r1"
      "r_log r1 = r_log r" "queues_ok r1" "r_heap r1 = (Retain (Some m) ^^ length (?L k)) (r_heap r)"
      using Suc.IH [OF Suc_leD [OF Suc.prems]] by blast
    let ?g = "?gs ! k"
    have k: "k < ?n" using Suc.prems by simp
    have g: "r_groups r1 h ! k = ?g" "k < length (r_groups r1 h)"
      using k by (simp_all add: r1(3) nth_append)
    have tk: "take (Suc k) ?gs = take k ?gs @ [?g]" using k by (rule take_Suc_conv_app_nth)
    have st: "live r1 M = live r M" for M using r1(2) by (simp add: static_def)
    have Lk: "?L (Suc k) = ?L k @ live r (next_member ?g)" by (simp add: tk)
    have sp: "live r (concat (map next_member ?gs)) = ?L (Suc k) @ live r (concat (map next_member (drop (Suc k) ?gs)))"
      by (metis append_take_drop_id concat_append filter_append map_append)
    have "room (level p) (?L (Suc k)) r"
      using rm unfolding sp by (auto simp: room_def)
    then have rm1: "room (level p) (live r (next_member ?g)) r1"
      unfolding Lk by (rule room_after [OF r1(4) _ level_less r1(2)])
    from dispatch_group_added [OF lengths_ok_static [OF r1(2) wf(1)] r1(6) g(2), of p m dcs, unfolded g(1) st, OF rm1]
    obtain r' where r': "dispatch_group m p h k (dcs, r1) = (dcs, r')" "static r1 r'"
      "r_groups r' = (r_groups r1)(h := (r_groups r1 h)[k := advance ?g])"
      "added m (level p) (live r (next_member ?g)) r1 r'" "r_log r' = r_log r1" "queues_ok r'"
      "r_heap r' = (Retain (Some m) ^^ length (live r (next_member ?g))) (r_heap r1)"
      by blast
    have "added m (level p) (?L (Suc k)) r r'"
      unfolding Lk by (rule added_trans [OF r1(4) r'(4)]) (use r1(2) in \<open>simp add: static_def\<close>)
    moreover have "r_heap r' = (Retain (Some m) ^^ length (?L (Suc k))) (r_heap r)"
      unfolding Lk length_append add.commute [of "length (?L k)"] funpow_add comp_def r'(7) r1(7) ..
    moreover have "(map advance (take k ?gs) @ drop k ?gs)[k := advance ?g] =
        map advance (take (Suc k) ?gs) @ drop (Suc k) ?gs"
      using k by (simp add: tk list_update_append Cons_nth_drop_Suc [symmetric])
    then have "r_groups r' = (r_groups r)(h := map advance (take (Suc k) ?gs) @ drop (Suc k) ?gs)"
      using r'(3) r1(3) by simp
    moreover have "fold (dispatch_group m p h) [0..<Suc k] (dcs, r) = (dcs, r')" "r_log r' = r_log r"
      using r1(1,5) r'(1,5) by simp_all
    ultimately show ?case
      using r'(6) static_trans [OF r1(2) r'(2)] by blast
  qed
  from this [of ?n] show ?thesis by (simp add: dispatch_groups_def)
qed


lemma room_prefix: "room p (L @ L') r \<Longrightarrow> room p L r"
  by (auto simp: room_def)

lemma dispatch_all_added:
  assumes wf: "lengths_ok r" "queues_ok r" and rm: "room (level p) (receivers r t) r"
  shows "\<exists>r'. dispatch_all m p t (r_wildcardSubs r \<noteq> []) (r_groups r (topicHashKey t) \<noteq> []) ([], r) = ([], r') \<and>
    static r r' \<and> r_groups r' = (r_groups r)(topicHashKey t := map advance (r_groups r (topicHashKey t))) \<and>
    added m (level p) (receivers r t) r r' \<and> r_log r' = r_log r \<and>
    r_heap r' = (Retain (Some m) ^^ length (receivers r t)) (r_heap r)"
proof -
  let ?h = "topicHashKey t"
  let ?A = "r_topicIndex r ?h" and ?B = "map ws_idx (filter (\<lambda>w. MatchWildcard (ws_pattern w) t) (r_wildcardSubs r))"
  let ?C = "concat (map next_member (r_groups r ?h))"
  have rc: "receivers r t = live r (?A @ ?B) @ live r ?C" by (simp add: receivers_def)
  from dispatch_fold_added [OF wf, of p "?A @ ?B" m "[]"]
  obtain r1 where r1: "fold (dispatch_one m p) (?A @ ?B) ([], r) = ([], r1)" "static r r1" "r_groups r1 = r_groups r"
    "added m (level p) (live r (?A @ ?B)) r r1" "r_log r1 = r_log r" "queues_ok r1"
    "r_heap r1 = (Retain (Some m) ^^ length (live r (?A @ ?B))) (r_heap r)"
    using rm room_prefix unfolding rc by blast
  have st: "live r1 M = live r M" "slots r1 = slots r" for M using r1(2) by (simp_all add: static_def)
  have "room (level p) (live r ?C) r1"
    using rm unfolding rc by (rule room_after [OF r1(4) _ level_less r1(2)])
  with dispatch_groups_added [OF lengths_ok_static [OF r1(2) wf(1)] r1(6), of p ?h m "[]", unfolded st(1) r1(3)]
  obtain r' where r': "dispatch_groups m p ?h ([], r1) = ([], r')" "static r1 r'"
    "r_groups r' = (r_groups r)(?h := map advance (r_groups r ?h))"
    "added m (level p) (live r ?C) r1 r'" "r_log r' = r_log r1"
    "r_heap r' = (Retain (Some m) ^^ length (live r ?C)) (r_heap r1)"
    by blast
  have "dispatch_all m p t (r_wildcardSubs r \<noteq> []) (r_groups r ?h \<noteq> []) ([], r) =
      (if r_groups r ?h \<noteq> [] then dispatch_groups m p ?h ([], r1) else ([], r1))"
    using r1(1) by (cases "r_wildcardSubs r = []") (simp_all add: dispatch_all_def dispatch_exact_def dispatch_wildcards_fold Let_def)
  also have "\<dots> = ([], r')"
    using r'(1) r1(3) by (auto simp: dispatch_groups_def)
  finally have "dispatch_all m p t (r_wildcardSubs r \<noteq> []) (r_groups r ?h \<noteq> []) ([], r) = ([], r')" .
  moreover have "added m (level p) (receivers r t) r r'"
    unfolding rc by (rule added_trans [OF r1(4) r'(4) st(2)])
  moreover have "r_heap r' = (Retain (Some m) ^^ length (receivers r t)) (r_heap r)"
    unfolding rc length_append [of "live r (?A @ ?B)"] add.commute [of "length (live r (?A @ ?B))"] funpow_add comp_def
      r'(6) r1(7) ..
  moreover have "r_log r' = r_log r" using r'(5) r1(5) by simp
  ultimately show ?thesis using r'(3) static_trans [OF r1(2) r'(2)] by blast
qed

lemma retain_pow:
  assumes "m < length (rh_refs h)"
  shows "(Retain (Some m) ^^ n) h = upd m (\<lambda>x. x\<lparr>mr_ref := mr_ref (mr h m) + of_nat n\<rparr>) h"
proof (induction n)
  case 0
  show ?case by (simp add: upd_def)
next
  case (Suc n)
  have "(Retain (Some m) ^^ Suc n) h = Retain (Some m) (upd m (\<lambda>x. x\<lparr>mr_ref := mr_ref (mr h m) + of_nat n\<rparr>) h)"
    using Suc by simp
  also have "\<dots> = upd m (\<lambda>x. x\<lparr>mr_ref := mr_ref (mr h m) + of_nat (Suc n)\<rparr>) h"
    using assms by (simp add: Retain_def upd_def ac_simps)
  finally show ?case .
qed

text \<open>The publisher's own reference is released last; with a receiver left the message stays as it was.\<close>

lemma release_after_retains:
  assumes m: "m < length (rh_refs h)" "mr_ref (mr h m) = 1" and n: "0 < n" "n < 2 ^ 31"
  shows "Release_msg m ((Retain (Some m) ^^ n) h) = upd m (\<lambda>x. x\<lparr>mr_ref := of_nat n\<rparr>) h"
proof -
  let ?g = "upd m (\<lambda>x. x\<lparr>mr_ref := 1 + of_nat n\<rparr>) h"
  have "unat (of_nat n :: u32) = n" using n by (intro unat_of_nat_u32) simp
  then have nz: "(of_nat n :: u32) \<noteq> 0" using n(1) by (metis less_irrefl unat_0)
  have r: "mr_ref (mr ?g m) - 1 = of_nat n" using m by (simp add: mr_upd)
  have "Release_msg m ?g = upd m (\<lambda>x. x\<lparr>mr_ref := mr_ref x - 1\<rparr>) ?g"
    using m nz r by (subst Release_msg.simps) (simp add: Let_def)
  also have "\<dots> = upd m (\<lambda>x. x\<lparr>mr_ref := of_nat n\<rparr>) h" using m by (simp add: upd_def)
  finally show ?thesis using retain_pow [OF m(1), of n] m(2) by simp
qed


lemma count_list_filter: "count_list (filter P xs) i = (if P i then count_list xs i else 0)"
  by (induction xs) auto

lemma count_list_filter_upt: "count_list (filter P [0..<n]) i = of_bool (i < n \<and> P i)"
  by (induction n) (auto simp: less_Suc_eq)

lemma receivers_count:
  assumes "index_ok r"
  shows "count_list (receivers r t) i =
    (if i < slots r \<and> r_active r ! i
     then of_bool (r_subGroups r ! i = [] \<and> topicHashKey (r_topics r ! i) = topicHashKey t) +
          of_bool (IsWildcardTopic (r_topics r ! i) \<and> MatchWildcard (r_topics r ! i) t) +
          count_list (concat (map next_member (r_groups r (topicHashKey t)))) i
     else 0)"
proof -
  let ?P = "\<lambda>i. i < slots r \<and> r_active r ! i"
  have w: "map ws_idx (filter (\<lambda>w. MatchWildcard (ws_pattern w) t) (r_wildcardSubs r)) =
      filter (\<lambda>i. IsWildcardTopic (r_topics r ! i) \<and> MatchWildcard (r_topics r ! i) t) [0..<slots r]"
    using assms by (simp add: index_ok_def filter_map comp_def conj_commute)
  have x: "r_topicIndex r (topicHashKey t) =
      filter (\<lambda>i. r_subGroups r ! i = [] \<and> topicHashKey (r_topics r ! i) = topicHashKey t) [0..<slots r]"
    using assms by (simp add: index_ok_def)
  show ?thesis unfolding receivers_def count_list_filter w x by (simp add: count_list_filter_upt)
qed

lemma receivers_length:
  assumes inv: "rinv X r"
  shows "length (receivers r t) < 2 ^ 31"
proof -
  have ok: "index_ok r" "groups_ok r" "slots r \<le> 2 ^ 29" using inv by (simp_all add: rinv_def)
  note sz = index_sizes [OF ok(1,2)]
  have "length (next_member g) \<le> 1" for g by (simp add: next_member_def split: option.split)
  then have one: "length (next_member g) \<le> Suc 0" for g by simp
  have "length (concat (map next_member gs)) \<le> length gs" for gs
  proof (induction gs)
    case (Cons g gs)
    then show ?case using one [of g] by simp
  qed simp
  then have "length (concat (map next_member (r_groups r (topicHashKey t)))) \<le> slots r"
    using sz(3) [of "topicHashKey t"] le_trans by blast
  moreover have "length (filter (\<lambda>w. MatchWildcard (ws_pattern w) t) (r_wildcardSubs r)) \<le> slots r"
    using sz(2) length_filter_le le_trans by blast
  moreover have "length (receivers r t) \<le> length (r_topicIndex r (topicHashKey t)) +
      length (filter (\<lambda>w. MatchWildcard (ws_pattern w) t) (r_wildcardSubs r)) +
      length (concat (map next_member (r_groups r (topicHashKey t))))"
    unfolding receivers_def by (rule le_trans [OF length_filter_le]) simp
  ultimately have "length (receivers r t) \<le> slots r + slots r + slots r" using sz(1) [of "topicHashKey t"] by linarith
  then show ?thesis using ok(3) by simp
qed

lemma send_out_added:
  assumes inv: "rinv (add_mset m X) r" and c: "cnt r m = 1" and rm: "room (level p) (receivers r t) r"
  shows "added m (level p) (receivers r t) r (send_out m p t r)" (is ?A)
    and "static r (send_out m p t r)" (is ?B)
    and "r_groups (send_out m p t r) = (r_groups r)(topicHashKey t := map advance (r_groups r (topicHashKey t)))" (is ?C)
    and "receivers r t \<noteq> [] \<Longrightarrow> Buf (Some m) (r_heap (send_out m p t r)) = Buf (Some m) (r_heap r) \<and>
      mr_expiresAt (mr (r_heap (send_out m p t r)) m) = mr_expiresAt (mr (r_heap r) m) \<and>
      mr_offset (mr (r_heap (send_out m p t r)) m) = mr_offset (mr (r_heap r) m)"
    and "r_log (send_out m p t r) = r_log r"
proof -
  have wf: "lengths_ok r" "queues_ok r" using inv by (simp_all add: rinv_def)
  obtain r' where r': "dispatch_all m p t (r_wildcardSubs r \<noteq> []) (r_groups r (topicHashKey t) \<noteq> []) ([], r) = ([], r')"
    "static r r'" "r_groups r' = (r_groups r)(topicHashKey t := map advance (r_groups r (topicHashKey t)))"
    "added m (level p) (receivers r t) r r'" "r_log r' = r_log r"
    "r_heap r' = (Retain (Some m) ^^ length (receivers r t)) (r_heap r)"
    using dispatch_all_added [OF wf rm] by blast
  have eq: "send_out m p t r = release_ref m r'" using r'(1) by (simp add: send_out_def)
  show ?A ?B ?C "r_log (send_out m p t r) = r_log r"
    using r'(2-5) static_trans [OF r'(2) static_small(2)] by (simp_all add: eq added_def)
  have len: "m < length (rh_refs (r_heap r))"
    using inv handle_alive(1) [of "r_heap r" "handles r + add_mset m X" m] by (simp add: rinv_def refs_ok_def ref_inv_def)
  have one: "mr_ref (mr (r_heap r) m) = 1"
    using c by (metis cnt_def unat_1 word_unat_eq_iff)
  show "Buf (Some m) (r_heap (send_out m p t r)) = Buf (Some m) (r_heap r) \<and>
      mr_expiresAt (mr (r_heap (send_out m p t r)) m) = mr_expiresAt (mr (r_heap r) m) \<and>
      mr_offset (mr (r_heap (send_out m p t r)) m) = mr_offset (mr (r_heap r) m)" if "receivers r t \<noteq> []"
  proof -
    have n: "0 < length (receivers r t)" using that by simp
    have "length (receivers r t) < 2 ^ 31" by (rule receivers_length [OF inv])
    from release_after_retains [OF len one n this]
    have "r_heap (send_out m p t r) = upd m (\<lambda>x. x\<lparr>mr_ref := of_nat (length (receivers r t))\<rparr>) (r_heap r)"
      by (simp add: eq heap_release_ref r'(6))
    then show ?thesis using len by (simp add: Buf_def mr_upd split: option.split)
  qed
qed


lemma receivers_cong:
  assumes "static r r'" "r_groups r' = r_groups r"
  shows "receivers r' t = receivers r t"
  using assms by (simp add: receivers_def static_def)

lemma room_cong:
  assumes "r_queues r' = r_queues r" "r_queueSize r' = r_queueSize r" "slots r' = slots r"
  shows "room p L r' = room p L r"
  using assms by (simp add: room_def)

text \<open>Publishing leaves the registrations and the writers alone.\<close>

definition same_table :: "Router \<Rightarrow> Router \<Rightarrow> bool" where
  "same_table r r' \<longleftrightarrow> r_streamIDs r' = r_streamIDs r \<and> r_streams r' = r_streams r \<and> r_topics r' = r_topics r \<and>
     r_active r' = r_active r \<and> r_cancelled r' = r_cancelled r \<and> r_writers r' = r_writers r \<and>
     r_subGroups r' = r_subGroups r \<and> r_topicIndex r' = r_topicIndex r \<and> r_wildcardSubs r' = r_wildcardSubs r \<and>
     r_priorityTTLs r' = r_priorityTTLs r \<and> r_queueSize r' = r_queueSize r"

lemma static_same_table: "static r r' \<Longrightarrow> same_table r r'"
  by (simp add: static_def same_table_def)

lemma same_table_trans: "same_table r r' \<Longrightarrow> same_table r' r'' \<Longrightarrow> same_table r r''"
  by (simp add: same_table_def)

lemma publish_added:
  assumes inv: "rinv {#} r" and pay: "unat (f_PayloadLen frame) \<le> maxPayloadSize"
    and q: "Manager_TryAcquire (r_quotaManager r) c = (True, qm)"
    and e: "expiry_and_topic env (priority_of frame) (f_Payload frame) r = (e, t)"
    and rm: "room (level (priority_of frame)) (receivers r t) r"
  shows "\<exists>m r'. publishWithClientID env frame c r = (None, r') \<and>
    added m (level (priority_of frame)) (receivers r t) r r' \<and> m \<notin># handles r \<and> same_table r r' \<and>
    r_groups r' (topicHashKey t) = map advance (r_groups r (topicHashKey t)) \<and>
    (receivers r t \<noteq> [] \<longrightarrow> Buf (Some m) (r_heap r') = Some (publish_buf env frame t) \<and>
       mr_expiresAt (mr (r_heap r') m) = e \<and> mr_offset (mr (r_heap r') m) = GetTopicOffset t r + 1) \<and>
    r_quotaManager r' = qm"
proof -
  let ?h = "topicHashKey t"
  obtain off r2 where n: "nextTopicOffset ?h (r\<lparr>r_quotaManager := qm\<rparr>) = (off, r2)" by fastforce
  have off: "off = GetTopicOffset t r + 1" using n by (simp add: nextTopicOffset_def GetTopicOffset_def topicHashKey_def Let_def)
  obtain T where r2: "r2 = r\<lparr>r_quotaManager := qm, r_topicOffsets := T\<rparr>"
    using n by (auto simp: nextTopicOffset_def Let_def)
  define r3 where "r3 = (if r_metrics r2 then emit (OnPublish t) r2 else r2)"
  obtain m r4 where a: "acquire_ref env (publish_buf env frame t) e off r3 = (m, r4)" by fastforce
  define r5 where "r5 = (if has_peers r2 then emit (Forward (publish_buf env frame t) True) r4 else r4)"
  have i3: "rinv {#} r3" using nextTopicOffset_rinv [OF n] inv by (simp add: r3_def)
  note f = acquire_ref_facts [OF i3 a]
  have i5: "rinv {#m#} r5" "cnt r5 m = 1" using f by (simp_all add: r5_def)
  have t2: "same_table r r2" "r_queues r2 = r_queues r" "r_groups r2 = r_groups r" "r_quotaManager r2 = qm"
    by (simp_all add: r2 same_table_def)
  have t3: "static r2 r3" "r_queues r3 = r_queues r" "r_groups r3 = r_groups r" by (simp_all add: r3_def t2)
  have t5: "static r2 r5" "r_queues r5 = r_queues r" "r_groups r5 = r_groups r"
    using static_trans [OF t3(1) f(4)] static_trans [OF static_trans [OF t3(1) f(4)] static_small(1)] f(5,6) t3
    by (simp_all add: r5_def)
  have r5_r: "same_table r r5" "r_quotaManager r5 = qm"
    using same_table_trans [OF t2(1) static_same_table [OF t5(1)]] t5(1) t2(4) by (simp_all add: static_def)
  have rc: "receivers r5 t = receivers r t" using r5_r t5 by (simp add: receivers_def same_table_def)
  have rm5: "room (level (priority_of frame)) (receivers r5 t) r5"
    using rm r5_r t5 by (simp add: rc room_def same_table_def)
  note s = send_out_added [OF i5 rm5, unfolded rc]
  have nh: "m \<notin># handles r" using f(7) t3 t2 by (simp add: handles_def static_def same_table_def)
  note p = publish_unfold [OF pay q e n a [unfolded r3_def] r5_def]
  show ?thesis
  proof (cases "nobody t r2 \<and> \<not> has_peers r2")
    case True
    then have "receivers r t = []" "r_groups r ?h = []" "added m l [] r r2" for l
      using t2 by (auto simp: nobody_def receivers_def added_def same_table_def)
    then show ?thesis using p True nh t2 by auto
  next
    case False
    have "Buf (Some m) (r_heap r5) = Some (publish_buf env frame t)" "mr_expiresAt (mr (r_heap r5) m) = e"
      "mr_offset (mr (r_heap r5) m) = off"
      using f(8,9,10) by (simp_all add: r5_def)
    moreover have "added m (level (priority_of frame)) (receivers r t) r (send_out m (priority_of frame) t r5)"
      using s(1) r5_r t5 by (simp add: added_def same_table_def)
    moreover have "same_table r (send_out m (priority_of frame) t r5)"
      "r_quotaManager (send_out m (priority_of frame) t r5) = qm"
      using same_table_trans [OF r5_r(1) static_same_table [OF s(2)]] s(2) r5_r(2) by (simp_all add: static_def)
    ultimately show ?thesis using p False s nh t5 off by auto
  qed
qed

section \<open>A small run\<close>

text \<open>One subscriber of a topic, and one message for it.\<close>

definition env0 :: env where
  "env0 = \<lparr>e_acq = (\<lambda>_. None), e_raw = None, e_pick = 0, e_now = 1\<rparr>"

definition frame_of :: "byte \<Rightarrow> bytes \<Rightarrow> Frame" where
  "frame_of cmd p = \<lparr>f_Command = cmd, f_StreamID = 5, f_PayloadLen = of_nat (length p), f_Payload = p, f_Extensions = []\<rparr>"

definition topic_a :: bytes where "topic_a = str ''a''"

definition demo1 :: Router where
  "demo1 = snd (Subscribe (Some 7) (frame_of CmdSubscribe (str ''topic:'' @ topic_a)) (NewRouter False []))"

definition demo2 :: Router where
  "demo2 = snd (PublishWithClientID env0 (frame_of CmdPublish topic_a) [] demo1)"

definition demo3 :: Router where
  "demo3 = snd (PublishWithClientID env0 (frame_of CmdPublish topic_a) [] (NewRouter False [OptPeers (Some 1)]))"

lemma topic_a_plain: "topic_a \<noteq> []" "colon \<notin> set topic_a" "length topic_a = 1" "\<not> IsWildcardTopic topic_a"
  by (simp_all add: topic_a_def str_def of_char_def IsWildcardTopic_def)

lemma demo1_reach: "router_reach False [] demo1"
  unfolding demo1_def
  by (rule subscribe [OF start]) (simp add: NewRouter_def empty_router_def)

lemma demo2_reach: "router_reach False [] demo2"
  unfolding demo2_def by (rule publish [OF demo1_reach])

lemma demo3_reach: "router_reach False [OptPeers (Some 1)] demo3"
  unfolding demo3_def by (rule publish [OF start])

lemma demo3_fields: "handles demo3 = {#}" "r_nextBuf demo3 = 1"
  using topic_a_plain
  by (simp_all add: demo3_def PublishWithClientID_def publishWithClientID_def frame_of_def maxPayloadSize_def
      NewRouter_def empty_router_def WithPeerForwarder_def Manager_TryAcquire_def priority_of_def HasExtensions_def
      expiry_and_topic_def plain_publish nextTopicOffset_def has_peers_def Let_def acquire_ref_def AcquireMessageRef_def
      pool_get_def empty_heap_def dispatch_exact_def emit_def handles_def env0_def release_ref_def)

lemma demo1_fields:
  "slots demo1 = 1" "r_active demo1 = [True]" "r_queues demo1 = [[None, None, None, None]]"
  "r_topicIndex demo1 (topicHashKey topic_a) = [0]" "r_wildcardSubs demo1 = []" "r_groups demo1 h = []"
  "r_queueSize demo1 = 1024" "r_quotaManager demo1 = None" "r_priorityTTLs demo1 = [0, 0, 0, 0]"
  "r_writers demo1 = [new_writer]" "r_topics demo1 = [topic_a]" "r_subGroups demo1 = [[]]"
  using topic_a_plain
  by (simp_all add: demo1_def Subscribe_def frame_of_def plain_subscription Let_def empty_spec_def append_slot_def
      report_active_def NewRouter_def empty_router_def GetTopicOffset_def defaultQueueSize_def)

lemma demo1_receivers: "receivers demo1 topic_a = [0]"
  by (simp add: receivers_def demo1_fields)

lemma demo_frame:
  "unat (f_PayloadLen (frame_of CmdPublish topic_a)) \<le> maxPayloadSize" "priority_of (frame_of CmdPublish topic_a) = 2"
  "expiry_and_topic env0 2 (f_Payload (frame_of CmdPublish topic_a)) demo1 = (0, topic_a)" "level 2 = 2"
  using topic_a_plain
  by (simp_all add: frame_of_def maxPayloadSize_def priority_of_def HasExtensions_def expiry_and_topic_def env0_def
      demo1_fields plain_publish level_def)

lemma demo1_room: "room 2 [0] demo1"
  by (simp add: room_def demo1_fields)

lemma demo2_queued: "\<exists>m. m \<in># handles demo2"
proof -
  let ?f = "frame_of CmdPublish topic_a"
  have q: "Manager_TryAcquire (r_quotaManager demo1) [] = (True, None)" by (simp add: demo1_fields Manager_TryAcquire_def)
  have e: "expiry_and_topic env0 (priority_of ?f) (f_Payload ?f) demo1 = (0, topic_a)" by (simp add: demo_frame)
  have rm: "room (level (priority_of ?f)) (receivers demo1 topic_a) demo1"
    by (simp add: demo_frame demo1_receivers demo1_room)
  obtain m r' where p: "publishWithClientID env0 ?f [] demo1 = (None, r')" and a: "added m 2 [0] demo1 r'"
    and s: "same_table demo1 r'"
    using publish_added [OF reach_rinv [OF demo1_reach] demo_frame(1) q e rm]
    unfolding demo_frame demo1_receivers by blast
  have d: "demo2 = r'" using p by (simp add: demo2_def PublishWithClientID_def)
  have c: "content (queue r' 0 2) = [m]" using a by (simp add: added_def demo1_fields)
  have w: "rinv {#} r'" using reach_rinv [OF demo2_reach] d by simp
  have "0 < length (r_queues r')" "2 < length (r_queues r' ! 0)"
    using w s queue_bound(1) [of r' 0 2] demo1_fields(1) by (auto simp: rinv_def lengths_ok_def same_table_def)
  then obtain Y where "handles r' = Y + mset [m]" using content_queue_subset [of 0 r' 2] c by auto
  then show ?thesis unfolding d by auto
qed

section \<open>Properties\<close>





text \<open>C4: A published message reaches exactly its receivers. When no receiver's queue is full, publishing appends
  the message, once for every receiver in the receiver list, to the queue of its priority and changes no other
  queue; subscribers stay connected, every consumer group moves on to its next member, and the queued message
  is the serialised frame with its expiry and the next offset of the topic.\<close>

theorem publish_delivers:
  assumes "router_reach mt opts r" "unat (f_PayloadLen frame) \<le> maxPayloadSize"
    and "fst (Manager_TryAcquire (r_quotaManager r) c)"
    and "expiry_and_topic env (priority_of frame) (f_Payload frame) r = (e, t)"
    and "room (level (priority_of frame)) (receivers r t) r"
  shows "\<exists>m r'. PublishWithClientID env frame c r = (None, r') \<and>
    added m (level (priority_of frame)) (receivers r t) r r' \<and> m \<notin># handles r \<and> r_active r' = r_active r \<and>
    r_groups r' (topicHashKey t) = map advance (r_groups r (topicHashKey t)) \<and>
    (receivers r t \<noteq> [] \<longrightarrow> Buf (Some m) (r_heap r') = Some (publish_buf env frame t) \<and>
       mr_expiresAt (mr (r_heap r') m) = e \<and> mr_offset (mr (r_heap r') m) = GetTopicOffset t r + 1)"
proof -
  obtain qm where "Manager_TryAcquire (r_quotaManager r) c = (True, qm)" using assms(3) by (metis prod.collapse)
  from publish_added [OF reach_rinv [OF assms(1)] assms(2) this assms(4,5)]
  show ?thesis unfolding PublishWithClientID_def same_table_def by blast
qed

theorem publish_delivers_witness:
  "\<exists>m r'. PublishWithClientID env0 (frame_of CmdPublish topic_a) [] demo1 = (None, r') \<and> added m 2 [0] demo1 r' \<and>
     Buf (Some m) (r_heap r') = Some (publish_buf env0 (frame_of CmdPublish topic_a) topic_a)"
  using publish_delivers [OF demo1_reach demo_frame(1), of "[]" env0 0 topic_a]
  by (auto simp: demo_frame demo1_receivers demo1_room demo1_fields Manager_TryAcquire_def)

text \<open>C6: The receivers of a message are the right slots. A slot gets the message once if it is an individual
  subscriber of that topic (of a topic with the same routing key), once more if its topic is a pattern that matches,
  and once for every consumer group of the topic whose turn it is; disconnected slots get nothing.\<close>

theorem receivers_characterised:
  assumes "router_reach mt opts r"
  shows "count_list (receivers r t) i =
    (if i < slots r \<and> r_active r ! i
     then of_bool (r_subGroups r ! i = [] \<and> topicHashKey (r_topics r ! i) = topicHashKey t) +
          of_bool (IsWildcardTopic (r_topics r ! i) \<and> MatchWildcard (r_topics r ! i) t) +
          count_list (concat (map next_member (r_groups r (topicHashKey t)))) i
     else 0)"
proof -
  have "index_ok r" using reach_rinv [OF assms] by (simp add: rinv_def)
  then show ?thesis by (rule receivers_count)
qed

theorem receivers_characterised_witness: "count_list (receivers demo1 topic_a) 0 = 1"
  using receivers_characterised [OF demo1_reach, of topic_a 0] topic_a_plain by (simp add: demo1_fields)

end
