(* ===== verification/Router_Flow.thy ===== *)
theory Router_Flow
  imports Router_Props
begin

text \<open>
  What the writers do with the queues: messages leave in strict priority order, the bytes on the stream are the
  queued frames one after the other, and after \<^verbatim>\<open>Close\<close> every writer stops.
\<close>

section \<open>Delivery order\<close>

text \<open>A source of items in an order, and what repeated fetching gets from it.\<close>

fun fetches :: "('s \<Rightarrow> 'a option \<times> 's) \<Rightarrow> nat \<Rightarrow> 's \<Rightarrow> 'a list \<times> 's" where
  "fetches fetch 0 s = ([], s)"
| "fetches fetch (Suc n) s =
     (case fetch s of
        (None, s) \<Rightarrow> ([], s)
      | (Some x, s) \<Rightarrow> (case fetches fetch n s of (xs, s) \<Rightarrow> (x # xs, s)))"

locale ordered_source =
  fixes ok :: "'s \<Rightarrow> bool" and view :: "'s \<Rightarrow> 'a list" and fetch :: "'s \<Rightarrow> 'a option \<times> 's"
  assumes fetch_none: "ok s \<Longrightarrow> view s = [] \<Longrightarrow> fetch s = (None, s)"
    and fetch_some: "ok s \<Longrightarrow> view s = x # xs \<Longrightarrow> \<exists>s'. fetch s = (Some x, s') \<and> ok s' \<and> view s' = xs"
begin

lemma fetches_take:
  "ok s \<Longrightarrow> \<exists>s'. fetches fetch n s = (take n (view s), s') \<and> ok s' \<and> view s' = drop n (view s)"
proof (induction n arbitrary: s)
  case (Suc n)
  show ?case
  proof (cases "view s")
    case Nil
    then show ?thesis using Suc.prems fetch_none by simp
  next
    case (Cons x xs)
    then obtain s1 where s1: "fetch s = (Some x, s1)" "ok s1" "view s1 = xs" using fetch_some Suc.prems by blast
    then show ?thesis using Suc.IH [OF s1(2)] Cons by auto
  qed
qed simp

lemma fetch_view: "ok s \<Longrightarrow> fst (fetch s) = (case view s of [] \<Rightarrow> None | x # xs \<Rightarrow> Some x)"
  using fetch_none fetch_some by (cases "view s") fastforce+

end

text \<open>What a slot has queued, in the order in which it will be delivered: level by level, oldest first.\<close>

definition at_level :: "Router \<Rightarrow> nat \<Rightarrow> nat \<Rightarrow> (nat \<times> byte) list" where
  "at_level r i p = map (\<lambda>m. (m, of_nat p)) (content (queue r i p))"

definition pending :: "Router \<Rightarrow> nat \<Rightarrow> (nat \<times> byte) list" where
  "pending r i = concat (map (at_level r i) [0, 1, 2, 3])"

definition slot_ok :: "nat \<Rightarrow> Router \<Rightarrow> bool" where
  "slot_ok i r \<longleftrightarrow> i < length (r_queues r) \<and> length (r_queues r ! i) = 4"

lemma at_level_set_queue:
  "slot_ok i r \<Longrightarrow> p < 4 \<Longrightarrow> at_level (set_queue i p q r) i k =
     (if k = p then map (\<lambda>m. (m, of_nat p)) (content q) else at_level r i k)"
  by (simp add: at_level_def slot_ok_def set_queue_def nth_list_update)

lemma slot_ok_set_queue [simp]: "slot_ok i (set_queue j p q r) = slot_ok i r"
  by (auto simp: slot_ok_def set_queue_def nth_update_any split: if_splits)

lemma cleanup_at_level: "slot_ok i r \<Longrightarrow> p < 4 \<Longrightarrow> at_level (cleanupEmptyQueue i p r) i k = at_level r i k"
proof (cases "queue r i p = Some []")
  case True
  then have "at_level r i p = []" by (simp add: at_level_def)
  then show "slot_ok i r \<Longrightarrow> p < 4 \<Longrightarrow> ?thesis"
    using True by (simp add: cleanupEmptyQueue_def returnQueueToPool_def at_level_set_queue)
qed (auto simp: cleanupEmptyQueue_def split: option.split list.split)

lemma cleanup_slot_ok [simp]: "slot_ok i (cleanupEmptyQueue j p r) = slot_ok i r"
  by (auto simp: cleanupEmptyQueue_def returnQueueToPool_def split: option.split list.split)

lemma fetch_from_pending:
  assumes ok: "slot_ok i r" and ps: "distinct ps" "set ps \<subseteq> {..<4}"
  shows "concat (map (at_level r i) ps) = [] \<Longrightarrow> fetch_from ps i r = (None, r)"
    and "concat (map (at_level r i) ps) = x # xs \<Longrightarrow> \<exists>r'. fetch_from ps i r = (Some x, r') \<and> slot_ok i r' \<and>
      concat (map (at_level r' i) ps) = xs \<and> (\<forall>k. k \<notin> set ps \<longrightarrow> at_level r' i k = at_level r i k)"
proof -
  show "concat (map (at_level r i) ps) = [] \<Longrightarrow> fetch_from ps i r = (None, r)"
    using ps by (induction ps) (auto simp: at_level_def content_def split: option.split list.split)
  show "concat (map (at_level r i) ps) = x # xs \<Longrightarrow> \<exists>r'. fetch_from ps i r = (Some x, r') \<and> slot_ok i r' \<and>
      concat (map (at_level r' i) ps) = xs \<and> (\<forall>k. k \<notin> set ps \<longrightarrow> at_level r' i k = at_level r i k)"
    using ps
  proof (induction ps)
    case (Cons p ps)
    show ?case
    proof (cases "content (queue r i p)")
      case Nil
      then have "fetch_from (p # ps) i r = fetch_from ps i r" "at_level r i p = []"
        by (auto simp: content_def at_level_def split: option.splits)
      then show ?thesis using Cons by fastforce
    next
      case (Cons m q)
      then have q: "queue r i p = Some (m # q)" by (auto simp: content_def split: option.splits)
      let ?r = "cleanupEmptyQueue i p (set_queue i p (Some q) r)"
      have p: "p < 4" using Cons.prems by simp
      have lv: "at_level ?r i k = (if k = p then map (\<lambda>m. (m, of_nat p)) q else at_level r i k)" for k
        using p ok by (simp add: cleanup_at_level at_level_set_queue)
      have level: "at_level r i p = (m, of_nat p) # map (\<lambda>m. (m, of_nat p)) q" by (simp add: at_level_def q)
      have rest: "concat (map (at_level ?r i) ps) = concat (map (at_level r i) ps)"
        using Cons.prems(2) by (intro arg_cong [where f = concat] map_cong) (auto simp: lv)
      have "concat (map (at_level ?r i) (p # ps)) = xs" "x = (m, of_nat p)"
        using Cons.prems(1) by (simp_all add: rest lv level)
      moreover have "fetch_from (p # ps) i r = (Some (m, of_nat p), ?r)" by (simp add: q)
      ultimately show ?thesis using ok lv by auto
    qed
  qed simp
qed

interpretation wq: ordered_source "slot_ok i" "\<lambda>r. pending r i" "fetchNextMessage i" for i
proof unfold_locales
  fix r
  assume "slot_ok i r"
  then show "pending r i = [] \<Longrightarrow> fetchNextMessage i r = (None, r)"
    unfolding pending_def fetchNextMessage_def by (intro fetch_from_pending) auto
next
  fix r x xs
  assume "slot_ok i r"
  then show "pending r i = x # xs \<Longrightarrow> \<exists>r'. fetchNextMessage i r = (Some x, r') \<and> slot_ok i r' \<and> pending r' i = xs"
    using fetch_from_pending(2) [of i r "[0, 1, 2, 3]" x xs] unfolding pending_def fetchNextMessage_def by fastforce
qed


section \<open>The bytes of a stream\<close>

text \<open>What was written to the stream of a slot so far, followed by what waits in the batch of its writer.\<close>

fun written :: "nat \<Rightarrow> effect \<Rightarrow> bytes" where
  "written s (StreamWrite s' b) = (if s' = s then b else [])"
| "written s e = []"

definition wire :: "nat \<Rightarrow> Router \<Rightarrow> bytes" where
  "wire i r = concat (map (written (r_streams r ! i)) (r_log r)) @ w_buf (r_writers r ! i)"

text \<open>What the writer of a slot sends for a message: nothing if it is expired, else its frame, with the offset for a group.\<close>

definition outgoing :: "env \<Rightarrow> nat \<Rightarrow> Router \<Rightarrow> nat \<Rightarrow> bytes" where
  "outgoing env i r m =
     (if IsExpired (Some m) (e_now env) (r_heap r) then []
      else case Buf (Some m) (r_heap r) of
        None \<Rightarrow> []
      | Some buf \<Rightarrow> append_offset (r_subGroups r ! i) buf (delivery_offset buf (Offset (Some m) (r_heap r))))"

text \<open>A step of the writer of slot \<open>i\<close> that goes on running and leaves the queues and the queued messages alone.\<close>

definition steady :: "nat \<Rightarrow> Router \<Rightarrow> Router \<Rightarrow> bool" where
  "steady i r r' \<longleftrightarrow> r_queues r' = r_queues r \<and> r_streams r' = r_streams r \<and> r_subGroups r' = r_subGroups r \<and>
     r_active r' = r_active r \<and> r_cancelled r' = r_cancelled r \<and> slots r' = slots r \<and>
     length (r_writers r') = length (r_writers r) \<and> w_running (r_writers r' ! i) = w_running (r_writers r ! i) \<and>
     (\<forall>j. j \<noteq> i \<longrightarrow> r_writers r' ! j = r_writers r ! j)"

definition keeps :: "nat multiset \<Rightarrow> Router \<Rightarrow> Router \<Rightarrow> bool" where
  "keeps H r r' \<longleftrightarrow> (\<forall>x\<in>#H. same_message (r_heap r) (r_heap r') x)"

abbreviation queued :: "Router \<Rightarrow> nat multiset" where
  "queued r \<equiv> sum_list (map slot_handles (r_queues r))"

lemma steady_refl [simp]: "steady i r r"
  by (simp add: steady_def)

lemma steady_trans: "steady i r r' \<Longrightarrow> steady i r' r'' \<Longrightarrow> steady i r r''"
  by (simp add: steady_def)

lemma keeps_refl [simp]: "keeps H r r"
  by (simp add: keeps_def same_message_def)

lemma keeps_trans: "keeps H r r' \<Longrightarrow> keeps H r' r'' \<Longrightarrow> keeps H r r''"
  using same_message_trans by (auto simp: keeps_def)

lemma keeps_heap: "r_heap r' = r_heap r \<Longrightarrow> keeps H r r'"
  by (simp add: keeps_def same_message_def)

lemma keeps_subset: "keeps H r r' \<Longrightarrow> H' \<subseteq># H \<Longrightarrow> keeps H' r r'"
  by (auto simp: keeps_def dest: mset_subset_eqD)

lemma steady_small [simp]:
  "steady i r (emit e r)" "steady i r (release_ref m r)"
  "w_running w = w_running (r_writers r ! i) \<Longrightarrow> i < length (r_writers r) \<Longrightarrow> steady i r (set_writer i w r)"
  by (simp_all add: steady_def emit_def release_ref_def set_writer_def)

lemma queued_handles: "queued r \<subseteq># handles r"
  by (simp add: handles_def)

lemma keeps_release:
  assumes "rinv (add_mset m X) r"
  shows "keeps (queued r) r (release_ref m r)"
proof -
  have inv: "ref_inv (r_heap r) (handles r + add_mset m X) {..<r_nextBuf r}" using assms by (simp add: rinv_def refs_ok_def)
  show ?thesis
    unfolding keeps_def heap_release_ref
    by (intro ballI Release_msg_keeps [OF inv]) (use mset_subset_eqD [OF queued_handles] in auto)
qed

lemma queued_cong [simp]:
  "queued (release_ref m r) = queued r" "queued (emit e r) = queued r" "queued (set_writer i w r) = queued r"
  by (simp_all add: set_writer_def)

lemma release_all_flow:
  "rinv (mset ms + X) r \<Longrightarrow> steady i r (fold release_ref ms r) \<and> keeps (queued r) r (fold release_ref ms r) \<and>
     r_log (fold release_ref ms r) = r_log r"
proof (induction ms arbitrary: r)
  case (Cons m ms)
  have inv: "rinv (add_mset m (mset ms + X)) r" using Cons.prems by simp
  from Cons.IH [OF rinv_release [OF this]] keeps_release [OF this]
  show ?case using keeps_trans steady_trans [OF steady_small(2)] by auto
qed simp

lemma flush_flow:
  assumes inv: "rinv X r" and i: "i < slots r" and f: "flush ok i r = (b, r')"
  shows "steady i r r'" "keeps (queued r) r r'" "b \<Longrightarrow> wire i r' = wire i r" "b \<Longrightarrow> w_buf (r_writers r' ! i) = []"
    "ok \<Longrightarrow> b"
proof -
  let ?w = "r_writers r ! i"
  have len: "i < length (r_writers r)" using inv i by (simp add: rinv_def lengths_ok_def)
  have "steady i r r' \<and> keeps (queued r) r r' \<and> (b \<longrightarrow> wire i r' = wire i r \<and> w_buf (r_writers r' ! i) = []) \<and> (ok \<longrightarrow> b)"
  proof (cases "w_buf ?w = []")
    case True
    then show ?thesis using f by (simp add: flush_def)
  next
    case False
    let ?r1 = "set_writer i (?w\<lparr>w_buf := [], w_refs := []\<rparr>) r"
    let ?r2 = "if ok then emit (StreamWrite (r_streams r ! i) (w_buf ?w)) ?r1 else ?r1"
    have i1: "rinv (mset (w_refs ?w) + X) ?r1" by (rule rinv_set_writer [OF inv i]) simp
    then have i2: "rinv (mset (w_refs ?w) + X) ?r2" by simp
    have r': "r' = fold release_ref (w_refs ?w) ?r2" "b = ok"
      using f False by (simp_all add: flush_def Let_def) (auto simp: set_writer_def)
    note rel = release_all_flow [OF i2, of i, folded r'(1)]
    have s2: "steady i r ?r2"
      using steady_trans [OF steady_small(3) steady_small(1)] steady_small(3) len by simp
    have k2: "keeps (queued r) r ?r2" by (rule keeps_heap) (simp add: set_writer_def)
    have q2: "queued ?r2 = queued r" by simp
    have "wire i r' = wire i r \<and> w_buf (r_writers r' ! i) = []" if ok
    proof -
      have "r_log r' = r_log r @ [StreamWrite (r_streams r ! i) (w_buf ?w)]"
        using rel that by (simp add: set_writer_def)
      moreover have "r_streams r' = r_streams r" using rel s2 by (simp add: steady_def)
      moreover have "w_buf (r_writers r' ! i) = []" using len by (simp add: r' set_writer_def)
      ultimately show ?thesis by (simp add: wire_def)
    qed
    then show ?thesis
      using rel s2 k2 r'(2) unfolding q2 by (blast intro: steady_trans keeps_trans)
  qed
  then show "steady i r r'" "keeps (queued r) r r'" "b \<Longrightarrow> wire i r' = wire i r" "b \<Longrightarrow> w_buf (r_writers r' ! i) = []"
    "ok \<Longrightarrow> b" by blast+
qed

lemma steady_queued: "steady i r r' \<Longrightarrow> queued r' = queued r"
  by (simp add: steady_def)

lemma maybe_flush_flow:
  assumes inv: "rinv X r" and i: "i < slots r" and f: "(if c then flush True i r else (True, r)) = (b, r')"
  shows "b" "steady i r r'" "keeps (queued r) r r'" "wire i r' = wire i r" "rinv X r'" "slots r' = slots r"
proof -
  have "b \<and> steady i r r' \<and> keeps (queued r) r r' \<and> wire i r' = wire i r \<and> rinv X r' \<and> slots r' = slots r"
  proof (cases c)
    case True
    then have f': "flush True i r = (b, r')" using f by simp
    show ?thesis using flush_flow [OF inv i f'] flush_rinv [OF inv i, of True] f' by simp
  qed (use f inv in auto)
  then show "b" "steady i r r'" "keeps (queued r) r r'" "wire i r' = wire i r" "rinv X r'" "slots r' = slots r" by auto
qed

lemma append_message_flow:
  assumes "rinv (add_mset m X) r" "i < slots r"
  shows "steady i r (append_message i m buf r)" "keeps H r (append_message i m buf r)"
    "wire i (append_message i m buf r) = wire i r @ buf" "rinv X (append_message i m buf r)"
    "slots (append_message i m buf r) = slots r"
proof -
  have len: "i < length (r_writers r)" using assms by (simp add: rinv_def lengths_ok_def)
  show "steady i r (append_message i m buf r)" "wire i (append_message i m buf r) = wire i r @ buf"
    "slots (append_message i m buf r) = slots r"
    using len by (simp_all add: append_message_def Let_def wire_def) (simp_all add: set_writer_def)
  show "keeps H r (append_message i m buf r)" by (rule keeps_heap) (simp add: append_message_def set_writer_def Let_def)
  show "rinv X (append_message i m buf r)"
    using rinv_set_writer [OF assms(1,2), of X] by (simp add: append_message_def Let_def)
qed

lemma deliver_flow:
  assumes inv: "rinv (add_mset m X) r" and i: "i < slots r"
  shows "steady i r (deliver (True, True) i m buf r)" "keeps (queued r) r (deliver (True, True) i m buf r)"
    "wire i (deliver (True, True) i m buf r) = wire i r @ buf"
proof -
  let ?big = "w_buf (r_writers r ! i) \<noteq> [] \<and> length (w_buf (r_writers r ! i)) + length buf > r_batchSize r"
  obtain b1 r1 where f1: "(if ?big then flush True i r else (True, r)) = (b1, r1)" by fastforce
  note m1 = maybe_flush_flow [OF inv i f1]
  let ?r2 = "append_message i m buf r1"
  have i1: "i < slots r1" using m1(6) i by simp
  note m2 = append_message_flow [OF m1(5) i1]
  obtain b3 r3 where f3: "(if length (w_buf (r_writers ?r2 ! i)) \<ge> r_batchSize ?r2 then flush True i ?r2 else (True, ?r2)) = (b3, r3)"
    by fastforce
  have i2: "i < slots ?r2" using m2(5) i1 by simp
  note m3 = maybe_flush_flow [OF m2(4) i2 f3]
  have eq: "deliver (True, True) i m buf r = (if r_metrics r3 then emit (OnDeliver (r_topics r3 ! i)) r3 else r3)"
    unfolding deliver_def Let_def fst_conv snd_conv f1 using f3 m1(1) m3(1) by simp
  have s3: "steady i r r3" using m1(2) m2(1) m3(2) by (blast intro: steady_trans)
  have q: "queued ?r2 = queued r" "queued r1 = queued r"
    using steady_queued [OF m1(2)] steady_queued [OF m2(1)] by simp_all
  have k3: "keeps (queued r) r r3"
    using m1(3) m2(2) m3(3) unfolding q by (blast intro: keeps_trans)
  have w3: "wire i r3 = wire i r @ buf" using m1(4) m2(3) m3(4) by simp
  show "steady i r (deliver (True, True) i m buf r)" unfolding eq using s3 steady_trans [OF s3 steady_small(1)] by simp
  have "keeps (queued r) r3 (deliver (True, True) i m buf r)" unfolding eq by (rule keeps_heap) simp
  then show "keeps (queued r) r (deliver (True, True) i m buf r)" using k3 keeps_trans by blast
  have "r_streams (emit e r3) = r_streams r3" for e by (simp add: emit_def)
  then show "wire i (deliver (True, True) i m buf r) = wire i r @ buf" unfolding eq using w3 by (simp add: wire_def)
qed

lemma append_offset_Nil [simp]: "append_offset g [] off = []"
  by (simp add: append_offset_def HeaderSize_def)

lemma writer_message_flow:
  fixes r :: Router and env :: env and i m :: nat and p :: byte
  assumes inv: "rinv (add_mset m X) r" and i: "i < slots r"
  defines "r' \<equiv> writer_message env (True, True) i m p r"
  shows "steady i r r'" "keeps (queued r) r r'" "wire i r' = wire i r @ outgoing env i r m"
proof -
  have drop: "steady i r (release_ref m r)" "keeps (queued r) r (release_ref m r)" "wire i (release_ref m r) = wire i r"
    using keeps_release [OF inv] by (simp_all add: wire_def) (simp_all add: release_ref_def)
  have wire_emit: "wire i (emit e q) = wire i q" if "written s e = []" "\<And>s. written s e = []" for e q s
    using that by (simp add: wire_def) (simp add: emit_def)
  have "steady i r r' \<and> keeps (queued r) r r' \<and> wire i r' = wire i r @ outgoing env i r m"
  proof (cases "IsExpired (Some m) (e_now env) (r_heap r)")
    case True
    let ?e = "MessageExpired (r_topics r ! i) p"
    have "r' = emit ?e (release_ref m r)" using True by (simp add: r'_def writer_message_def release_ref_def)
    moreover have "steady i r (emit ?e (release_ref m r))" using drop(1) steady_small(1) by (rule steady_trans)
    moreover have "keeps (queued r) r (emit ?e (release_ref m r))"
      by (rule keeps_trans [OF drop(2) keeps_heap]) simp
    ultimately show ?thesis using True drop(3) wire_emit by (simp add: outgoing_def)
  next
    case False
    show ?thesis
    proof (cases "Buf (Some m) (r_heap r) = None \<or> Buf (Some m) (r_heap r) = Some []")
      case True
      then have "r' = release_ref m r" using False by (auto simp: r'_def writer_message_def)
      then show ?thesis using True False drop by (auto simp: outgoing_def)
    next
      case N: False
      then obtain buf where buf: "Buf (Some m) (r_heap r) = Some buf" "buf \<noteq> []" by auto
      define off where "off = delivery_offset buf (Offset (Some m) (r_heap r))"
      define r1 where "r1 = set_writer i (storeFrame off (r_topics r ! i) (r_writers r ! i)) r"
      let ?b = "append_offset (r_subGroups r ! i) buf off"
      have len: "i < length (r_writers r)" using inv i by (simp add: rinv_def lengths_ok_def)
      have w: "w_running (storeFrame o' t w) = w_running w" "w_buf (storeFrame o' t w) = w_buf w" for o' t w
        by (simp_all add: storeFrame_def Let_def)
      have r': "r' = deliver (True, True) i m ?b r1"
        using False buf by (simp add: r'_def writer_message_def off_def r1_def Let_def) (simp add: set_writer_def)
      have i1: "rinv (add_mset m X) r1" "i < slots r1"
        using set_writer_same_refs [OF inv i] i by (simp_all add: r1_def)
      note d = deliver_flow [OF i1, of ?b, folded r']
      have s1: "steady i r r1" using len w by (simp add: r1_def)
      have k1: "keeps (queued r) r r1" by (rule keeps_heap) (simp add: r1_def set_writer_def)
      have w1: "wire i r1 = wire i r" using len w by (simp add: wire_def r1_def set_writer_def)
      have "keeps (queued r) r r'" using k1 d(2) unfolding steady_queued [OF s1] by (rule keeps_trans)
      then show ?thesis
        using steady_trans [OF s1 d(1)] d(3) w1 False buf by (simp add: outgoing_def off_def)
    qed
  qed
  then show "steady i r r'" "keeps (queued r) r r'" "wire i r' = wire i r @ outgoing env i r m" by blast+
qed

text \<open>One round with a message, and many of them.\<close>

lemma fetch_from_keeps:
  "fetch_from ps i r = (res, r') \<Longrightarrow> static r r' \<and> r_heap r' = r_heap r \<and> r_log r' = r_log r \<and>
     (\<forall>j. j \<noteq> i \<longrightarrow> r_queues r' ! j = r_queues r ! j)"
proof (induction ps)
  case (Cons p ps)
  show ?case
  proof (cases "\<exists>m q. queue r i p = Some (m # q)")
    case True
    then show ?thesis using Cons.prems
      by (auto simp: cleanupEmptyQueue_def returnQueueToPool_def set_queue_def static_def split: option.splits list.splits)
  qed (use Cons in \<open>auto split: option.splits list.splits\<close>)
qed simp

lemma in_sum_list_mset: "x \<in># sum_list (map f ys) \<longleftrightarrow> (\<exists>y\<in>set ys. x \<in># f y)"
  by (induction ys) auto

lemma pending_queued:
  assumes "slot_ok i r" "(m, p) \<in> set (pending r i)"
  shows "m \<in># queued r"
proof -
  have "\<exists>k\<in>set [0, 1, 2, 3]. (m, p) \<in> set (at_level r i k)"
    using assms(2) by (simp add: pending_def)
  then obtain k where "k < 4" "m \<in> set (content (queue r i k))"
    by (fastforce simp: at_level_def)
  then have "m \<in># slot_handles (r_queues r ! i)"
    using assms(1) nth_mem [of k "r_queues r ! i"] by (auto simp: slot_handles_def slot_ok_def in_sum_list_mset simp del: nth_mem)
  then show ?thesis using assms(1) by (auto simp: in_sum_list_mset slot_ok_def)
qed

lemma outgoing_cong: "same_message (r_heap r) (r_heap r') m \<Longrightarrow> r_subGroups r' = r_subGroups r \<Longrightarrow>
    outgoing env i r' m = outgoing env i r m"
  by (simp add: outgoing_def same_message_def IsExpired_def Offset_def split: option.split)

lemma rinv_slot_ok: "rinv X r \<Longrightarrow> i < slots r \<Longrightarrow> slot_ok i r"
  using queue_bound(1) [of r i 0] by (auto simp: rinv_def lengths_ok_def slot_ok_def)

lemma pending_cong: "r_queues r' ! i = r_queues r ! i \<Longrightarrow> pending r' i = pending r i"
  by (simp add: pending_def at_level_def)

lemma fetch_facts:
  assumes inv: "rinv X r" and i: "i < slots r" and p: "pending r i = (m, p) # rest"
  shows "\<exists>r1. fetchNextMessage i r = (Some (m, p), r1) \<and> rinv (add_mset m X) r1 \<and> pending r1 i = rest \<and>
    static r r1 \<and> r_heap r1 = r_heap r \<and> r_log r1 = r_log r \<and> (\<forall>j. j \<noteq> i \<longrightarrow> r_queues r1 ! j = r_queues r ! j)"
proof -
  obtain r1 where r1: "fetchNextMessage i r = (Some (m, p), r1)" "pending r1 i = rest"
    using wq.fetch_some [OF rinv_slot_ok [OF inv i] p] by blast
  then show ?thesis
    using fetch_from_keeps [of "[0, 1, 2, 3]" i r] fetch_from_rinv [OF inv i, of "[0, 1, 2, 3]"]
    by (fastforce simp: fetchNextMessage_def)
qed

lemma writer_step:
  assumes inv: "rinv {#} r" and i: "i < slots r" "w_running (r_writers r ! i)" and p: "pending r i = (m, p) # rest"
  shows "\<exists>r'. writer_round env (True, True) ev i r = r' \<and> rinv {#} r' \<and> slots r' = slots r \<and> w_running (r_writers r' ! i) \<and>
    pending r' i = rest \<and> wire i r' = wire i r @ outgoing env i r m \<and>
    (\<forall>env x. x \<in> fst ` set rest \<longrightarrow> outgoing env i r' x = outgoing env i r x)"
proof -
  obtain r1 where r1: "fetchNextMessage i r = (Some (m, p), r1)" "rinv {#m#} r1" "pending r1 i = rest" "static r r1"
    "r_heap r1 = r_heap r" "r_log r1 = r_log r"
    using fetch_facts [OF inv i(1) p] by auto
  have st: "slots r1 = slots r" "r_writers r1 = r_writers r" "r_subGroups r1 = r_subGroups r" "r_streams r1 = r_streams r"
    using r1(4) by (simp_all add: static_def)
  let ?r' = "writer_message env (True, True) i m p r1"
  have len: "i < length (r_writers r)" using inv i by (simp add: rinv_def lengths_ok_def)
  have eq: "writer_round env (True, True) ev i r = ?r'" using r1(1) len i(2) by (simp add: writer_round_def)
  have i1: "i < slots r1" using i st by simp
  note f = writer_message_flow [OF r1(2) i1, of env p]
  have sub: "r_subGroups ?r' = r_subGroups r" using f(1) st by (simp add: steady_def)
  have w: "wire i r1 = wire i r" "outgoing env i r1 m = outgoing env i r m"
    using r1(5,6) st by (simp_all add: wire_def outgoing_def split: option.split)
  have "outgoing e i ?r' x = outgoing e i r x" if x: "x \<in> fst ` set rest" for e x
  proof (rule outgoing_cong [OF _ sub])
    have "x \<in># queued r1" using x pending_queued [OF rinv_slot_ok [OF r1(2) i1]] r1(3) by auto
    then show "same_message (r_heap r) (r_heap ?r') x" using f(2) r1(5) unfolding keeps_def by auto
  qed
  moreover have "rinv {#} ?r'" using writer_round_rinv [OF inv, of env "(True, True)" ev i] eq by simp
  moreover have "pending ?r' i = rest" "slots ?r' = slots r" "w_running (r_writers ?r' ! i)"
    using f(1) r1(3) pending_cong [of ?r' i r1] i(2) st by (simp_all add: steady_def)
  ultimately show ?thesis using eq f(3) w by simp
qed

definition run_writer :: "nat \<Rightarrow> (env \<times> writer_event) list \<Rightarrow> Router \<Rightarrow> Router" where
  "run_writer i es r = fold (\<lambda>(env, ev). writer_round env (True, True) ev i) es r"

lemma run_writer_sends:
  assumes "rinv {#} r" "i < slots r" "w_running (r_writers r ! i)" "length es \<le> length (pending r i)"
  shows "wire i (run_writer i es r) = wire i r @ concat (map2 (\<lambda>e x. outgoing (fst e) i r (fst x)) es (pending r i)) \<and>
    pending (run_writer i es r) i = drop (length es) (pending r i)"
  using assms
proof (induction es arbitrary: r)
  case (Cons e es)
  obtain env ev where e: "e = (env, ev)" by fastforce
  obtain m p rest where p: "pending r i = (m, p) # rest" using Cons.prems(4) by (cases "pending r i") auto
  obtain r' where r': "writer_round env (True, True) ev i r = r'" "rinv {#} r'" "slots r' = slots r"
    "w_running (r_writers r' ! i)" "pending r' i = rest" "wire i r' = wire i r @ outgoing env i r m"
    "\<And>env x. x \<in> fst ` set rest \<Longrightarrow> outgoing env i r' x = outgoing env i r x"
    using writer_step [OF Cons.prems(1-3) p, of env ev] by blast
  have eq: "run_writer i (e # es) r = run_writer i es r'" using r'(1) by (simp add: run_writer_def e)
  have m2: "map2 (\<lambda>e x. outgoing (fst e) i r' (fst x)) es rest = map2 (\<lambda>e x. outgoing (fst e) i r (fst x)) es rest"
    by (rule map_cong) (auto dest!: set_zip_rightD intro!: r'(7))
  have "wire i (run_writer i es r') = wire i r' @ concat (map2 (\<lambda>e x. outgoing (fst e) i r' (fst x)) es rest) \<and>
      pending (run_writer i es r') i = drop (length es) rest"
    using Cons.IH [of r'] Cons.prems r' p by simp
  then show ?case
    unfolding eq m2 r'(6) using p by (simp add: e)
qed (simp add: run_writer_def)

section \<open>Shutdown\<close>

text \<open>Steps that add nothing to any queue and start no writer.\<close>

definition winding :: "Router \<Rightarrow> Router \<Rightarrow> bool" where
  "winding r r' \<longleftrightarrow> slots r' = slots r \<and> r_active r' = r_active r \<and>
     (\<forall>i < slots r. length (pending r' i) \<le> length (pending r i) \<and>
        (w_running (r_writers r' ! i) \<longrightarrow> w_running (r_writers r ! i)))"

lemma winding_refl [simp]: "winding r r"
  by (simp add: winding_def)

lemma winding_trans: "winding r r' \<Longrightarrow> winding r' r'' \<Longrightarrow> winding r r''"
  by (auto simp: winding_def intro: le_trans)

lemma steady_winding: "steady j r r' \<Longrightarrow> winding r r'"
  unfolding winding_def steady_def using pending_cong by (metis order_refl)

lemma fold_release_static: "static r (fold release_ref ms r) \<and> r_queues (fold release_ref ms r) = r_queues r"
proof (induction ms arbitrary: r)
  case (Cons m ms)
  show ?case
    using Cons [of "release_ref m r"] static_trans [OF static_small(2), of m r "fold release_ref ms (release_ref m r)"]
    by simp
qed simp

lemma drain_queue_facts:
  assumes "slot_ok j r" "p < 4"
  shows "static r (drain_queue j p r)" "slot_ok j (drain_queue j p r)"
    "at_level (drain_queue j p r) j k = (if k = p then [] else at_level r j k)"
    "i \<noteq> j \<Longrightarrow> r_queues (drain_queue j p r) ! i = r_queues r ! i"
proof -
  have "static r (drain_queue j p r) \<and> slot_ok j (drain_queue j p r) \<and>
      at_level (drain_queue j p r) j k = (if k = p then [] else at_level r j k) \<and>
      (i \<noteq> j \<longrightarrow> r_queues (drain_queue j p r) ! i = r_queues r ! i)"
  proof (cases "queue r j p")
    case None
    then have "drain_queue j p r = r" "at_level r j p = []" by (simp_all add: drain_queue_def at_level_def)
    then show ?thesis using assms by simp
  next
    case (Some q)
    let ?r1 = "set_queue j p None r"
    have eq: "drain_queue j p r = fold release_ref q ?r1" using Some by (simp add: drain_queue_def returnQueueToPool_def)
    have st: "static ?r1 (drain_queue j p r)" and q: "r_queues (drain_queue j p r) = r_queues ?r1"
      using fold_release_static [of ?r1 q] eq by simp_all
    have "at_level (drain_queue j p r) j k = at_level ?r1 j k" "slot_ok j (drain_queue j p r)"
      using q assms by (simp_all add: at_level_def) (simp add: slot_ok_def set_queue_def)
    moreover have "static r (drain_queue j p r)" using static_small(4) st by (rule static_trans)
    moreover have "i \<noteq> j \<Longrightarrow> r_queues ?r1 ! i = r_queues r ! i" by (simp add: set_queue_def)
    ultimately show ?thesis using q assms by (simp add: at_level_set_queue)
  qed
  then show "static r (drain_queue j p r)" "slot_ok j (drain_queue j p r)"
    "at_level (drain_queue j p r) j k = (if k = p then [] else at_level r j k)"
    "i \<noteq> j \<Longrightarrow> r_queues (drain_queue j p r) ! i = r_queues r ! i" by blast+
qed

lemma drain_facts:
  assumes "slot_ok j r"
  shows "static r (drainSubscriberQueues j r)" "pending (drainSubscriberQueues j r) j = []"
    "i \<noteq> j \<Longrightarrow> r_queues (drainSubscriberQueues j r) ! i = r_queues r ! i"
proof -
  have "static r (fold (drain_queue j) ps r) \<and>
      (\<forall>k. at_level (fold (drain_queue j) ps r) j k = (if k \<in> set ps then [] else at_level r j k)) \<and>
      (\<forall>i. i \<noteq> j \<longrightarrow> r_queues (fold (drain_queue j) ps r) ! i = r_queues r ! i)" if "set ps \<subseteq> {..<4}" for ps
    using that assms
  proof (induction ps arbitrary: r)
    case (Cons p ps)
    have p: "p < 4" using Cons.prems by simp
    note d = drain_queue_facts [OF Cons.prems(2) p]
    show ?case using Cons.IH [OF _ d(2)] Cons.prems(1) d static_trans [OF d(1)] by auto
  qed simp
  from this [of "[0, 1, 2, 3]"] show "static r (drainSubscriberQueues j r)" "pending (drainSubscriberQueues j r) j = []"
    "i \<noteq> j \<Longrightarrow> r_queues (drainSubscriberQueues j r) ! i = r_queues r ! i"
    by (simp_all add: drainSubscriberQueues_def pending_def)
qed

lemma writer_exit_winding:
  assumes inv: "rinv X r" and j: "j < slots r"
  shows "winding r (writer_exit ok j r)" "\<not> w_running (r_writers (writer_exit ok j r) ! j)"
proof -
  obtain b r1 where f: "flush ok j r = (b, r1)" by fastforce
  note s1 = flush_flow(1) [OF inv j f]
  let ?r2 = "set_writer j ((r_writers r1 ! j)\<lparr>w_running := False, w_timer := False\<rparr>) r1"
  have len: "j < length (r_writers r1)" using inv j s1 by (simp add: rinv_def lengths_ok_def steady_def)
  have w2: "winding r1 ?r2" using len by (simp add: winding_def set_writer_def pending_def at_level_def nth_list_update)
  have "slot_ok j r1" using s1 rinv_slot_ok [OF inv j] by (simp add: steady_def slot_ok_def)
  then have ok2: "slot_ok j ?r2" by (simp add: slot_ok_def set_writer_def)
  note d = drain_facts [OF ok2]
  have "winding ?r2 (drainSubscriberQueues j ?r2)"
    unfolding winding_def
  proof (intro conjI allI impI)
    fix i
    show "length (pending (drainSubscriberQueues j ?r2) i) \<le> length (pending ?r2 i)"
      using d(2) pending_cong [OF d(3), of i] by (cases "i = j") simp_all
  qed (use d(1) in \<open>simp_all add: static_def\<close>)
  moreover have eq: "writer_exit ok j r = drainSubscriberQueues j ?r2" using f by (simp add: writer_exit_def)
  ultimately show "winding r (writer_exit ok j r)"
    using winding_trans [OF steady_winding [OF s1] w2] winding_trans by metis
  show "\<not> w_running (r_writers (writer_exit ok j r) ! j)"
    unfolding eq using d(1) len by (simp add: static_def set_writer_def)
qed

text \<open>A message either leaves the writer running or stops it.\<close>

lemma winding_small:
  "winding r (emit e r)" "winding r (release_ref m r)"
  by (rule steady_winding, simp)+

lemma deliver_winding:
  assumes inv: "rinv (add_mset m X) r" and i: "i < slots r"
  shows "winding r (deliver oks i m buf r)"
proof -
  let ?big = "w_buf (r_writers r ! i) \<noteq> [] \<and> length (w_buf (r_writers r ! i)) + length buf > r_batchSize r"
  obtain b1 r1 where f1: "(if ?big then flush (fst oks) i r else (True, r)) = (b1, r1)" by fastforce
  have r1: "rinv (add_mset m X) r1" "slots r1 = slots r" "steady i r r1"
    using flush_rinv [OF inv i, of "fst oks"] flush_flow(1) [OF inv i, of "fst oks"] inv f1 by (auto split: if_splits)
  let ?r2 = "append_message i m buf r1"
  have i1: "i < slots r1" using r1(2) i by simp
  note m2 = append_message_flow [OF r1(1) i1, where buf = buf]
  have i2: "i < slots ?r2" using m2(5) i1 by simp
  obtain b3 r3 where f3: "(if length (w_buf (r_writers ?r2 ! i)) \<ge> r_batchSize ?r2 then flush (snd oks) i ?r2 else (True, ?r2)) = (b3, r3)"
    by fastforce
  have r3: "rinv X r3" "slots r3 = slots ?r2" "steady i ?r2 r3"
    using flush_rinv [OF m2(4) i2, of "snd oks"] flush_flow(1) [OF m2(4) i2, of "snd oks"] m2(4) f3 by (auto split: if_splits)
  have i3: "i < slots r3" using r3(2) i2 by simp
  have w1: "winding r r1" by (rule steady_winding [OF r1(3)])
  have w3: "winding r r3" using steady_winding [OF m2(1)] steady_winding [OF r3(3)] w1 by (blast intro: winding_trans)
  have e1: "winding r (writer_exit (fst oks) i (release_ref m r1))"
    by (rule winding_trans [OF winding_trans [OF w1 winding_small(2)] writer_exit_winding(1) [OF rinv_release [OF r1(1)]]])
      (use i1 in simp)
  have e3: "winding r (writer_exit (snd oks) i r3)" using w3 writer_exit_winding(1) [OF r3(1) i3] by (rule winding_trans)
  have e4: "winding r (emit (OnDeliver t) r3)" for t using w3 winding_small(1) by (rule winding_trans)
  show ?thesis unfolding deliver_def Let_def f1 using e1 e3 e4 w3 f3 by (simp add: Let_def)
qed

lemma writer_message_winding:
  assumes inv: "rinv (add_mset m X) r" and i: "i < slots r"
  shows "winding r (writer_message env oks i m p r)"
proof -
  have "winding r (deliver oks i m buf (set_writer i (storeFrame off t (r_writers r ! i)) r))" for buf off t
  proof (rule winding_trans)
    have len: "i < length (r_writers r)" using inv i by (simp add: rinv_def lengths_ok_def)
    show "winding r (set_writer i (storeFrame off t (r_writers r ! i)) r)"
      by (rule steady_winding [of i]) (use len in \<open>simp add: storeFrame_def Let_def\<close>)
    show "winding (set_writer i (storeFrame off t (r_writers r ! i)) r)
        (deliver oks i m buf (set_writer i (storeFrame off t (r_writers r ! i)) r))"
      by (rule deliver_winding [OF set_writer_same_refs [OF inv i]]) (use i in simp_all)
  qed
  then show ?thesis
    using winding_small winding_trans [OF winding_small(2) winding_small(1)]
    by (auto simp: writer_message_def Let_def split: option.split)
qed

text \<open>Publishing when no slot is active.\<close>

definition inactive :: "Router \<Rightarrow> bool" where
  "inactive r \<longleftrightarrow> (\<forall>i < slots r. \<not> r_active r ! i)"

lemma publish_inactive:
  assumes inv: "rinv {#} r" and off: "inactive r"
  shows "winding r (snd (publishWithClientID env frame c r))"
proof -
  obtain ok qm where q: "Manager_TryAcquire (r_quotaManager r) c = (ok, qm)" by fastforce
  obtain e t where e: "expiry_and_topic env (priority_of frame) (f_Payload frame) r = (e, t)" by fastforce
  show ?thesis
  proof (cases "unat (f_PayloadLen frame) \<le> maxPayloadSize \<and> ok")
    case True
    have rc: "receivers r t = []" using off by (auto simp: receivers_def inactive_def filter_empty_conv)
    have "queues_ok r" "length (r_queues r) = slots r" using inv by (simp_all add: rinv_def lengths_ok_def)
    then have rm: "room (level (priority_of frame)) (receivers r t) r"
      using queue_bound(2) level_less by (simp add: rc room_def)
    obtain m r' where r': "publishWithClientID env frame c r = (None, r')" "added m (level (priority_of frame)) [] r r'"
      "r_active r' = r_active r" "slots r' = slots r" "r_writers r' = r_writers r"
      using publish_added [OF inv _ _ e rm, of c qm] True q unfolding rc same_table_def by auto
    have "pending r' i = pending r i" if "i < slots r" for i
      using r'(2) that by (simp add: added_def pending_def at_level_def)
    then show ?thesis using r' by (simp add: winding_def)
  next
    case False
    then have "snd (publishWithClientID env frame c r) = r \<or>
        (\<exists>e. snd (publishWithClientID env frame c r) = emit e (r\<lparr>r_quotaManager := qm\<rparr>)) \<or>
        snd (publishWithClientID env frame c r) = r\<lparr>r_quotaManager := qm\<rparr>"
      using q by (auto simp: publishWithClientID_def Let_def)
    then show ?thesis by (auto simp: winding_def emit_def pending_def at_level_def)
  qed
qed

lemma inactive_winding: "winding r r' \<Longrightarrow> inactive r' = inactive r"
  by (simp add: winding_def inactive_def)

lemma handleNack_winding:
  assumes inv: "rinv {#} r" and off: "inactive r"
  shows "winding r (handleNack env i nackOffset r)"
proof (cases "w_cache (r_writers r ! i) nackOffset")
  case (Some t)
  have "winding r (snd (Publish env f (emit e1 (r\<lparr>r_nackCounters := N\<rparr>))))"
    "winding r (snd (Publish env f ((emit e2 (emit e1 (r\<lparr>r_nackCounters := N\<rparr>)))\<lparr>r_nackCounters := N'\<rparr>)))" for f e1 e2 N N'
  proof -
    have w: "winding r (emit e1 (r\<lparr>r_nackCounters := N\<rparr>))"
      "winding r ((emit e2 (emit e1 (r\<lparr>r_nackCounters := N\<rparr>)))\<lparr>r_nackCounters := N'\<rparr>)"
      by (simp_all add: winding_def emit_def pending_def at_level_def)
    show "winding r (snd (Publish env f (emit e1 (r\<lparr>r_nackCounters := N\<rparr>))))"
      "winding r (snd (Publish env f ((emit e2 (emit e1 (r\<lparr>r_nackCounters := N\<rparr>)))\<lparr>r_nackCounters := N'\<rparr>)))"
      unfolding Publish_def
      by (rule winding_trans [OF w(1) publish_inactive], use inv off inactive_winding [OF w(1)] in simp_all)
        (rule winding_trans [OF w(2) publish_inactive], use inv off inactive_winding [OF w(2)] in simp_all)
  qed
  then show ?thesis using Some by (simp add: handleNack_def Let_def)
qed (simp add: handleNack_def)

lemma writer_select_winding:
  assumes inv: "rinv {#} r" and off: "inactive r" and j: "j < slots r"
  shows "winding r (writer_select env ok ev j r)"
proof (cases ev)
  case CtxDone
  then show ?thesis using writer_exit_winding(1) [OF inv j] by simp
next
  case TimerFired
  let ?r = "set_writer j ((r_writers r ! j)\<lparr>w_timer := False\<rparr>) r"
  have len: "j < length (r_writers r)" using inv j by (simp add: rinv_def lengths_ok_def)
  have r: "rinv {#} ?r" "winding r ?r"
    using set_writer_same_refs [OF inv j] steady_winding [of j r ?r] len by simp_all
  obtain b r1 where f: "flush ok j ?r = (b, r1)" by fastforce
  have r1: "rinv {#} r1" "slots r1 = slots r" using flush_rinv [OF r(1), of j ok] f j by simp_all
  have w1: "winding r r1"
    using winding_trans [OF r(2) steady_winding [OF flush_flow(1) [OF r(1) _ f]]] j by simp
  then have "winding r (writer_exit ok j r1)"
    using writer_exit_winding(1) [OF r1(1), of j ok] r1(2) j winding_trans by auto
  then show ?thesis using TimerFired f w1 by simp
next
  case NackReady
  have "winding r (handleNack env j off' (r\<lparr>r_nackChs := (r_nackChs r)[j := rest]\<rparr>))"
    if c: "r_nackChs r ! j = off' # rest" for off' rest
  proof -
    let ?r = "r\<lparr>r_nackChs := (r_nackChs r)[j := rest]\<rparr>"
    have n: "\<forall>ch\<in>set (r_nackChs r). length ch \<le> 8" "length (r_nackChs r) = slots r"
      using inv by (simp_all add: rinv_def queues_ok_def lengths_ok_def)
    then have "length (r_nackChs r ! j) \<le> 8" using j by simp
    then have "\<forall>ch\<in>set ((r_nackChs r)[j := rest]). length ch \<le> 8"
      using n c set_update_subset_insert [of "r_nackChs r" j rest] by auto
    then have i: "rinv {#} ?r" by (intro rinv_nackChs [OF inv]) simp_all
    have w: "winding r ?r" by (simp add: winding_def pending_def at_level_def)
    show ?thesis using w handleNack_winding [OF i] inactive_winding [OF w] off by (auto intro: winding_trans)
  qed
  then show ?thesis using NackReady by (auto split: list.split)
next
  case Notified
  then show ?thesis by (simp add: winding_def pending_def at_level_def)
qed

lemma writer_round_winding:
  assumes inv: "rinv {#} r" and off: "inactive r"
  shows "winding r (writer_round env oks ev j r)"
proof (cases "j < length (r_writers r) \<and> w_running (r_writers r ! j)")
  case True
  then have j: "j < slots r" using inv by (simp add: rinv_def lengths_ok_def)
  show ?thesis
  proof (cases "pending r j")
    case Nil
    then show ?thesis
      using True wq.fetch_none [OF rinv_slot_ok [OF inv j] Nil] writer_select_winding [OF inv off j]
      by (simp add: writer_round_def)
  next
    case (Cons x rest)
    then obtain m p r1 where r1: "x = (m, p)" "fetchNextMessage j r = (Some (m, p), r1)" "rinv {#m#} r1" "pending r1 j = rest"
      "static r r1" "\<And>i. i \<noteq> j \<Longrightarrow> r_queues r1 ! i = r_queues r ! i"
      using fetch_facts [OF inv j] by (metis surj_pair)
    have "length (pending r1 i) \<le> length (pending r i)" for i
      using r1(4,6) Cons pending_cong [of r1 i r] by (cases "i = j") simp_all
    then have w1: "winding r r1" using r1(5) by (simp add: winding_def static_def)
    have j1: "j < slots r1" using r1(5) j by (simp add: static_def)
    show ?thesis
      using True r1(2) winding_trans [OF w1 writer_message_winding [OF r1(3) j1]] by (simp add: writer_round_def)
  qed
qed (auto simp: writer_round_def)

lemma cancelled_round:
  fixes env :: env and oks :: "bool \<times> bool"
  assumes inv: "rinv {#} r" and off: "inactive r" and i: "i < slots r"
  defines "r' \<equiv> writer_round env oks CtxDone i r"
  shows "\<not> w_running (r_writers r' ! i) \<or> length (pending r' i) < length (pending r i)"
proof (cases "w_running (r_writers r ! i)")
  case True
  have len: "i < length (r_writers r)" "r_cancelled r ! i"
    using inv off i by (auto simp: rinv_def lengths_ok_def inactive_def)
  show ?thesis
  proof (cases "pending r i")
    case Nil
    have "r' = writer_exit (fst oks) i r"
      using True len wq.fetch_none [OF rinv_slot_ok [OF inv i] Nil] by (simp add: r'_def writer_round_def)
    then show ?thesis using writer_exit_winding(2) [OF inv i] by simp
  next
    case (Cons x rest)
    then obtain m p r1 where r1: "fetchNextMessage i r = (Some (m, p), r1)" "rinv {#m#} r1" "pending r1 i = rest" "static r r1"
      using fetch_facts [OF inv i] by (metis surj_pair)
    have i1: "i < slots r1" using r1(4) i by (simp add: static_def)
    have "r' = writer_message env oks i m p r1" using True len r1(1) by (simp add: r'_def writer_round_def)
    then have "length (pending r' i) \<le> length (pending r1 i)"
      using writer_message_winding [OF r1(2) i1, of env oks p] i1 by (simp add: winding_def)
    then show ?thesis using Cons r1(3) by simp
  qed
qed (use writer_round_winding [OF inv off, of env oks CtxDone i] i in \<open>auto simp: winding_def r'_def\<close>)

type_synonym round = "env \<times> (bool \<times> bool) \<times> writer_event \<times> nat"

definition run_rounds :: "round list \<Rightarrow> Router \<Rightarrow> Router" where
  "run_rounds sch r = fold (\<lambda>(env, oks, ev, i). writer_round env oks ev i) sch r"

definition stop_rounds :: "nat \<Rightarrow> round list \<Rightarrow> nat" where
  "stop_rounds i sch = length (filter (\<lambda>(env, oks, ev, j). ev = CtxDone \<and> j = i) sch)"

lemma run_rounds_stops:
  assumes "rinv {#} r" "inactive r" "i < slots r"
    and "\<not> w_running (r_writers r ! i) \<or> length (pending r i) < stop_rounds i sch"
  shows "\<not> w_running (r_writers (run_rounds sch r) ! i)"
  using assms
proof (induction sch arbitrary: r)
  case (Cons x sch)
  obtain env oks ev j where x: "x = (env, oks, ev, j)" by (cases x)
  let ?r = "writer_round env oks ev j r"
  have w: "winding r ?r" by (rule writer_round_winding [OF Cons.prems(1,2)])
  have "\<not> w_running (r_writers ?r ! i) \<or> length (pending ?r i) < stop_rounds i sch"
  proof (cases "ev = CtxDone \<and> j = i")
    case True
    then show ?thesis
      using Cons.prems(4) w Cons.prems(3) cancelled_round [OF Cons.prems(1-3), of env oks]
      by (auto simp: x stop_rounds_def winding_def)
  next
    case False
    then have "stop_rounds i (x # sch) = stop_rounds i sch" by (auto simp: x stop_rounds_def)
    then show ?thesis using Cons.prems(3,4) w le_less_trans by (auto simp: winding_def)
  qed
  then have "\<not> w_running (r_writers (run_rounds sch ?r) ! i)"
    using Cons.IH [of ?r] writer_round_rinv [OF Cons.prems(1)] Cons.prems(2,3) inactive_winding [OF w] w
    by (simp add: winding_def)
  then show ?case by (simp add: run_rounds_def x)
qed (simp add: run_rounds_def stop_rounds_def)

lemma run_rounds_winding:
  "rinv {#} r \<Longrightarrow> inactive r \<Longrightarrow> winding r (run_rounds sch r) \<and> rinv {#} (run_rounds sch r)"
proof (induction sch arbitrary: r)
  case (Cons x sch)
  obtain env oks ev j where x: "x = (env, oks, ev, j)" by (cases x)
  let ?r = "writer_round env oks ev j r"
  have w: "winding r ?r" by (rule writer_round_winding [OF Cons.prems])
  have "winding ?r (run_rounds sch ?r) \<and> rinv {#} (run_rounds sch ?r)"
    using Cons.IH [of ?r] writer_round_rinv [OF Cons.prems(1)] inactive_winding [OF w] Cons.prems(2) by simp
  then show ?case using winding_trans [OF w] by (simp add: run_rounds_def x)
qed (simp add: run_rounds_def)

lemma Close_begin_inactive:
  assumes "rinv {#} r"
  shows "inactive (Close_begin r)" "slots (Close_begin r) = slots r" "r_queues (Close_begin r) = r_queues r"
proof -
  have "r_streamIDs (fold close_slot js r) = r_streamIDs r \<and> r_queues (fold close_slot js r) = r_queues r \<and>
      length (r_active (fold close_slot js r)) = length (r_active r) \<and>
      (\<forall>i < length (r_active r). r_active (fold close_slot js r) ! i \<longleftrightarrow> r_active r ! i \<and> i \<notin> set js)" for js
  proof (induction js arbitrary: r)
    case (Cons j js)
    then show ?case by (auto simp: close_slot_def nth_update_any)
  qed simp
  from this [of "[0..<length (r_active r)]"]
  show "inactive (Close_begin r)" "slots (Close_begin r) = slots r" "r_queues (Close_begin r) = r_queues r"
    using assms by (auto simp: Close_begin_def inactive_def rinv_def lengths_ok_def)
qed

lemma demo2_pending: "slots demo2 = 1" "\<exists>m. pending demo2 0 = [(m, 2)]" "w_running (r_writers demo2 ! 0)"
proof -
  let ?f = "frame_of CmdPublish topic_a"
  have q: "Manager_TryAcquire (r_quotaManager demo1) [] = (True, None)" by (simp add: demo1_fields Manager_TryAcquire_def)
  have e: "expiry_and_topic env0 (priority_of ?f) (f_Payload ?f) demo1 = (0, topic_a)" by (simp add: demo_frame)
  have rm: "room (level (priority_of ?f)) (receivers demo1 topic_a) demo1"
    by (simp add: demo_frame demo1_receivers demo1_room)
  obtain m r' where p: "publishWithClientID env0 ?f [] demo1 = (None, r')" and a: "added m 2 [0] demo1 r'"
    and s: "r_streamIDs r' = r_streamIDs demo1" "r_writers r' = r_writers demo1"
    using publish_added [OF reach_rinv [OF demo1_reach] demo_frame(1) q e rm]
    unfolding demo_frame demo1_receivers same_table_def by blast
  have d: "demo2 = r'" using p by (simp add: demo2_def PublishWithClientID_def)
  show "slots demo2 = 1" "w_running (r_writers demo2 ! 0)" using s by (simp_all add: d demo1_fields new_writer_def)
  have "at_level r' 0 k = (if k = 2 then [(m, 2)] else [])" if "k < 4" for k
    using that a by (auto simp: added_def at_level_def demo1_fields less_Suc_eq numeral_eq_Suc)
  then show "\<exists>m. pending demo2 0 = [(m, 2)]" by (simp add: d pending_def)
qed

section \<open>Properties\<close>

text \<open>C18: A subscriber receives its messages in strict priority order, first in first out within a priority, and
  byte for byte. In every state of a run, while the stream takes the writes, each round of a writer takes the next
  message of that order; what was written and what waits in the batch is then exactly what it was before followed by
  the frames of those messages (a consumer group's frames with their offset, expired messages left out), whatever
  the batch size and however the rounds are batched.\<close>

theorem writer_sends_in_order:
  assumes "router_reach mt opts r" "i < slots r" "w_running (r_writers r ! i)" "length es \<le> length (pending r i)"
  shows "wire i (run_writer i es r) = wire i r @ concat (map2 (\<lambda>e x. outgoing (fst e) i r (fst x)) es (pending r i)) \<and>
    pending (run_writer i es r) i = drop (length es) (pending r i)"
  by (rule run_writer_sends [OF reach_rinv [OF assms(1)] assms(2-4)])

theorem writer_sends_in_order_witness:
  "\<exists>m. pending demo2 0 = [(m, 2)] \<and> pending (run_writer 0 [(env0, Notified)] demo2) 0 = [] \<and>
     wire 0 (run_writer 0 [(env0, Notified)] demo2) = wire 0 demo2 @ outgoing env0 0 demo2 m"
proof -
  obtain m where m: "pending demo2 0 = [(m, 2)]" using demo2_pending(2) by blast
  show ?thesis
    using writer_sends_in_order [OF demo2_reach, of 0 "[(env0, Notified)]"] demo2_pending(1,3) m by simp
qed



end
