(* ===== verification/Router_Effects.thy ===== *)
theory Router_Effects
  imports Router_Flow
begin

text \<open>
  What the router does to the outside: forwarding to peers, negative acknowledgements and dead letters, the
  policies for a full queue, the turns of a consumer group, and the replay for a durable subscriber.
\<close>

section \<open>What a publication logs\<close>

text \<open>The effects of a dispatch, and what a dispatch leaves alone besides them.\<close>

fun dispatch_effect :: "effect \<Rightarrow> bool" where
  "dispatch_effect (MessageDropped t p) = True"
| "dispatch_effect SlowConsumerDisconnected = True"
| "dispatch_effect (StreamClosed s) = True"
| "dispatch_effect (SetActiveSubscribers n) = True"
| "dispatch_effect e = False"

definition logs :: "(effect \<Rightarrow> bool) \<Rightarrow> Router \<Rightarrow> Router \<Rightarrow> bool" where
  "logs P r r' \<longleftrightarrow> (\<exists>es. r_log r' = r_log r @ es \<and> list_all P es) \<and> r_nackCounters r' = r_nackCounters r \<and>
     r_maxRetries r' = r_maxRetries r \<and> r_writers r' = r_writers r \<and> r_streamIDs r' = r_streamIDs r \<and>
     r_compression r' = r_compression r \<and> r_peers r' = r_peers r"

lemma logs_refl [simp]: "logs P r r"
  by (simp add: logs_def)

lemma logs_trans: "logs P r r' \<Longrightarrow> logs P r' r'' \<Longrightarrow> logs P r r''"
  by (auto simp: logs_def)

lemma logs_mono: "logs P r r' \<Longrightarrow> (\<And>e. P e \<Longrightarrow> Q e) \<Longrightarrow> logs Q r r'"
  unfolding logs_def using list.pred_mono_strong by metis

lemma logs_small [simp]:
  "logs P r (release_ref m r') = logs P r r'" "logs P r (retain_ref m r') = logs P r r'"
  "logs P r (set_queue i p q r') = logs P r r'" "logs P r (r'\<lparr>r_notify := n\<rparr>) = logs P r r'"
  "logs P r (r'\<lparr>r_groups := g\<rparr>) = logs P r r'" "logs P r (r'\<lparr>r_heap := h\<rparr>) = logs P r r'"
  "logs P r (r'\<lparr>r_active := a\<rparr>) = logs P r r'" "logs P r (r'\<lparr>r_cancelled := c\<rparr>) = logs P r r'"
  "logs P r (r'\<lparr>r_quotaManager := qm\<rparr>) = logs P r r'" "logs P r (r'\<lparr>r_topicOffsets := T\<rparr>) = logs P r r'"
  "logs P r r' \<Longrightarrow> P e \<Longrightarrow> logs P r (emit e r')"
  by (auto simp: logs_def release_ref_def retain_ref_def set_queue_def emit_def)

abbreviation quietly :: "Router \<Rightarrow> Router \<Rightarrow> bool" where
  "quietly \<equiv> logs dispatch_effect"

lemma handleOverflow_logs: "handleOverflow idx t q m r = (dc, q', r') \<Longrightarrow> quietly r r'"
  by (auto simp: handleOverflow_def send_or_release_def split: if_splits list.splits)

lemma enqueue_logs: "enqueueToSubscriber idx m p r = (dc, r') \<Longrightarrow> quietly r r'"
  by (auto simp: enqueueToSubscriber_def Let_def dest: handleOverflow_logs split: if_splits prod.splits)

lemma dispatch_one_logs: "quietly (snd st) (snd (dispatch_one m p idx st))"
  using logs_trans [of _ r "retain_ref m r" for r, OF _ enqueue_logs]
  by (auto simp: dispatch_one_def split: prod.splits option.splits)

lemma fold_logs:
  assumes "\<And>x st. logs P (snd st) (snd (f x st))"
  shows "logs P (snd st) (snd (fold f xs st))"
proof (induction xs arbitrary: st)
  case (Cons x xs)
  show ?case using logs_trans [OF assms Cons] by simp
qed simp

lemma dispatch_group_logs: "quietly (snd st) (snd (dispatch_group m p h j st))"
  using logs_trans [of _ r "r\<lparr>r_groups := g\<rparr>" for r g, OF _ dispatch_one_logs [of "(dcs, r\<lparr>r_groups := g\<rparr>)" for dcs r g, unfolded snd_conv]]
  by (auto simp: dispatch_group_def Let_def split: prod.splits option.splits)

lemma dispatch_all_logs: "quietly (snd st) (snd (dispatch_all m p t w g st))"
proof -
  have e: "quietly (snd st) (snd (dispatch_exact m p xs st))" for xs st
    unfolding dispatch_exact_def by (rule fold_logs [OF dispatch_one_logs])
  have w: "quietly (snd st) (snd (dispatch_wildcards m p t ws st))" for ws st
    unfolding dispatch_wildcards_def by (rule fold_logs) (simp add: dispatch_one_logs)
  have g: "quietly (snd st) (snd (dispatch_groups m p h st))" for h st
    unfolding dispatch_groups_def by (rule fold_logs [OF dispatch_group_logs])
  show ?thesis
    unfolding dispatch_all_def Let_def
    using e [of st] logs_trans [OF e w] logs_trans [OF e g] logs_trans [OF logs_trans [OF e w] g] by simp
qed

lemma report_active_logs: "quietly r (report_active r)"
  by (simp add: report_active_def)

lemma disconnect_logs: "quietly r (disconnectSubscriber i r)"
proof (cases "i < length (r_active r) \<and> r_active r ! i")
  case True
  let ?r1 = "r\<lparr>r_active := (r_active r)[i := False], r_cancelled := (r_cancelled r)[i := True]\<rparr>"
  let ?r2 = "emit (StreamClosed (r_streams ?r1 ! i)) ?r1"
  have "quietly r (leave_group i ?r2)" by (simp add: leave_group_def Let_def)
  then have "quietly r (report_active (leave_group i ?r2))" by (rule logs_trans [OF _ report_active_logs])
  then show ?thesis using True by (simp add: disconnectSubscriber_def Let_def)
qed (auto simp: disconnectSubscriber_def)

lemma disconnect_all_logs: "quietly r (fold disconnectSubscriber dcs r)"
proof (induction dcs arbitrary: r)
  case (Cons d dcs)
  show ?case using logs_trans [OF disconnect_logs Cons] by simp
qed simp

lemma send_out_logs: "quietly r (send_out m p t r)"
proof -
  obtain dcs r' where d: "dispatch_all m p t (r_wildcardSubs r \<noteq> []) (r_groups r (topicHashKey t) \<noteq> []) ([], r) = (dcs, r')"
    by fastforce
  have "quietly r r'" using dispatch_all_logs [of "([], r)"] d by (metis snd_conv)
  then have "quietly r (release_ref m r')" by simp
  then show ?thesis
    using logs_trans [OF _ disconnect_all_logs [of "release_ref m r'" dcs]] d by (simp add: send_out_def)
qed

text \<open>A publication also reports itself and is forwarded.\<close>

fun publish_effect :: "effect \<Rightarrow> bool" where
  "publish_effect (OnPublish t) = True"
| "publish_effect (Forward b f) = True"
| "publish_effect (OnRateLimited c) = True"
| "publish_effect e = dispatch_effect e"

lemma dispatch_publish_effect: "dispatch_effect e \<Longrightarrow> publish_effect e"
  by (cases e) simp_all

definition forwards :: "Router \<Rightarrow> (bytes \<times> bool) list" where
  "forwards r = concat (map (\<lambda>e. case e of Forward b f \<Rightarrow> [(b, f)] | _ \<Rightarrow> []) (r_log r))"

definition dead_letters :: "Router \<Rightarrow> bytes list" where
  "dead_letters r = concat (map (\<lambda>e. case e of MessageDeadLettered t \<Rightarrow> [t] | _ \<Rightarrow> []) (r_log r))"

lemma quietly_forwards:
  assumes "quietly r r'"
  shows "forwards r' = forwards r"
proof -
  obtain es where es: "r_log r' = r_log r @ es" "list_all dispatch_effect es" using assms by (auto simp: logs_def)
  have "(case e of Forward b f \<Rightarrow> [(b, f)] | _ \<Rightarrow> []) = []" if "e \<in> set es" for e
    using that es(2) by (auto simp: list_all_iff split: effect.split)
  then show ?thesis using es(1) by (simp add: forwards_def)
qed

lemma publish_logs_dead_letters:
  assumes "logs publish_effect r r'"
  shows "dead_letters r' = dead_letters r"
proof -
  obtain es where es: "r_log r' = r_log r @ es" "list_all publish_effect es" using assms by (auto simp: logs_def)
  have "(case e of MessageDeadLettered t \<Rightarrow> [t] | _ \<Rightarrow> []) = []" if "e \<in> set es" for e
    using that es(2) by (auto simp: list_all_iff split: effect.split)
  then show ?thesis using es(1) by (simp add: dead_letters_def)
qed

lemma acquire_ref_logs: "acquire_ref env buf e off r = (m, r') \<Longrightarrow> logs P r r' \<and> r_log r' = r_log r \<and> r_peers r' = r_peers r"
  by (auto simp: acquire_ref_def logs_def Let_def split: prod.splits)

lemma nextTopicOffset_logs: "nextTopicOffset h r = (off, r') \<Longrightarrow> logs P r r' \<and> r_log r' = r_log r \<and> r_peers r' = r_peers r"
  by (auto simp: nextTopicOffset_def Let_def)

lemma publish_effects:
  fixes c :: bytes
  assumes e: "expiry_and_topic env (priority_of frame) (f_Payload frame) r = (e, t)"
  defines "r' \<equiv> snd (publishWithClientID env frame c r)"
  shows "logs publish_effect r r'"
    "forwards r' = forwards r @ (if unat (f_PayloadLen frame) \<le> maxPayloadSize \<and>
        fst (Manager_TryAcquire (r_quotaManager r) c) \<and> has_peers r then [(publish_buf env frame t, True)] else [])"
proof -
  obtain ok qm where q: "Manager_TryAcquire (r_quotaManager r) c = (ok, qm)" by fastforce
  have "logs publish_effect r r' \<and> forwards r' = forwards r @ (if unat (f_PayloadLen frame) \<le> maxPayloadSize \<and>
      ok \<and> has_peers r then [(publish_buf env frame t, True)] else [])"
  proof (cases "unat (f_PayloadLen frame) \<le> maxPayloadSize \<and> ok")
    case True
    let ?r1 = "r\<lparr>r_quotaManager := qm\<rparr>"
    obtain off r2 where n: "nextTopicOffset (topicHashKey t) ?r1 = (off, r2)" by fastforce
    define r3 where "r3 = (if r_metrics r2 then emit (OnPublish t) r2 else r2)"
    obtain m r4 where a: "acquire_ref env (publish_buf env frame t) e off r3 = (m, r4)" by fastforce
    define r5 where "r5 = (if has_peers r2 then emit (Forward (publish_buf env frame t) True) r4 else r4)"
    have hp: "has_peers r2 = has_peers r" using nextTopicOffset_logs [OF n] by (simp add: has_peers_def)
    have r': "r' = (if nobody t r2 \<and> \<not> has_peers r2 then r2 else send_out m (priority_of frame) t r5)"
      using publish_unfold [OF _ _ e n a [unfolded r3_def] r5_def, of c] True q by (simp add: r'_def)
    have l2: "logs publish_effect r r2" "r_log r2 = r_log r"
      using nextTopicOffset_logs [OF n] logs_trans [of publish_effect r ?r1 r2] by simp_all
    have l4: "logs publish_effect r r4" "r_log r4 = r_log r3"
      using acquire_ref_logs [OF a] l2(1) logs_trans [of publish_effect r r3 r4] by (simp_all add: r3_def)
    then have l5: "logs publish_effect r r5" by (simp add: r5_def)
    have lo: "logs publish_effect r (send_out m (priority_of frame) t r5)"
      using l5 logs_mono [OF send_out_logs dispatch_publish_effect] by (rule logs_trans)
    have "forwards r5 = forwards r @ (if has_peers r2 then [(publish_buf env frame t, True)] else [])"
      using l4(2) l2(2) by (simp add: r5_def r3_def forwards_def)
    then have "forwards (send_out m (priority_of frame) t r5) =
        forwards r @ (if has_peers r2 then [(publish_buf env frame t, True)] else [])"
      using quietly_forwards [OF send_out_logs] by simp
    moreover have "forwards r2 = forwards r" using l2(2) by (simp add: forwards_def)
    ultimately show ?thesis using True r' lo l2(1) hp by auto
  next
    case False
    then show ?thesis using q by (auto simp: r'_def publishWithClientID_def Let_def forwards_def)
  qed
  then show "logs publish_effect r r'"
    "forwards r' = forwards r @ (if unat (f_PayloadLen frame) \<le> maxPayloadSize \<and>
        fst (Manager_TryAcquire (r_quotaManager r) c) \<and> has_peers r then [(publish_buf env frame t, True)] else [])"
    by (simp_all add: q)
qed

lemma peer_effects: "forwards (snd (PublishFromPeer env frame r)) = forwards r \<and> slots (snd (PublishFromPeer env frame r)) = slots r"
proof -
  let ?f = "frame\<lparr>f_Command := OpcodeOf (f_Command frame)\<rparr>" and ?r = "emit FrameReceivedFromPeer r"
  obtain e t where e: "expiry_and_topic env (priority_of ?f) (f_Payload ?f) ?r = (e, t)" by fastforce
  obtain off r2 where n: "nextTopicOffset (topicHashKey t) ?r = (off, r2)" by fastforce
  define r3 where "r3 = (if r_metrics r2 then emit (OnPublish t) r2 else r2)"
  obtain m r4 where a: "acquire_ref env (publish_buf env ?f t) e off r3 = (m, r4)" by fastforce
  have same: "forwards x' = forwards x \<and> slots x' = slots x" if "quietly x x'" for x x'
    using quietly_forwards [OF that] that by (simp add: logs_def)
  have "forwards ?r = forwards r" "forwards r3 = forwards r2" "slots r3 = slots r2" by (simp_all add: forwards_def r3_def)
  moreover have "forwards r2 = forwards ?r \<and> slots r2 = slots ?r" using nextTopicOffset_logs [OF n] by (intro same) blast
  moreover have "forwards r4 = forwards r3 \<and> slots r4 = slots r3" using acquire_ref_logs [OF a] by (intro same) blast
  moreover have "forwards (send_out m (priority_of ?f) t r4) = forwards r4 \<and> slots (send_out m (priority_of ?f) t r4) = slots r4"
    by (rule same [OF send_out_logs])
  ultimately show ?thesis
    using publishLocal_unfold [OF _ e n a [unfolded r3_def]]
    by (cases "unat (f_PayloadLen ?f) \<le> maxPayloadSize") (auto simp: PublishFromPeer_def publishLocal_def emit_def)
qed

lemma peer_forwards: "forwards (snd (PublishFromPeer env frame r)) = forwards r"
  using peer_effects by blast

text \<open>A batch is forwarded as a whole, also one that came from a peer.\<close>

lemma publish_sub_logs: "quietly (snd st) (snd (fst (publish_sub env b st f)))"
proof (cases "ParseFrame f")
  case (Ok sub)
  obtain dcs r where st: "st = (dcs, r)" by (cases st)
  define t where "t = snd (parsePublishTopic (e_now env) (f_Payload sub))"
  obtain off r2 where o: "nextTopicOffset (topicHashKey t) r = (off, r2)" by fastforce
  obtain m h where acq: "AcquireChildMessageRef (e_pick env) b f off 0 (r_heap r2) = (m, h)" by fastforce
  let ?d = "dispatch_all m (priority_of sub) t True (r_groups r2 (topicHashKey t) \<noteq> []) (dcs, r2\<lparr>r_heap := h\<rparr>)"
  have r2: "quietly r r2" using nextTopicOffset_logs [OF o] by blast
  have "quietly (r2\<lparr>r_heap := h\<rparr>) (snd ?d)" using dispatch_all_logs [of "(dcs, r2\<lparr>r_heap := h\<rparr>)"] by simp
  then have "quietly r (release_ref m (snd ?d))" using logs_trans [of _ r "r2\<lparr>r_heap := h\<rparr>"] r2 by simp
  moreover have "fst (publish_sub env b st f) =
      (if r_topicIndex r2 (topicHashKey t) = [] \<and> \<not> list_ex (\<lambda>w. MatchWildcard (ws_pattern w) t) (r_wildcardSubs r2) \<and>
          r_groups r2 (topicHashKey t) = [] then (dcs, r2) else (fst ?d, release_ref m (snd ?d)))"
    using Ok o acq by (simp add: st publish_sub_def Let_def dispatch_all_def case_prod_beta flip: t_def)
  ultimately show ?thesis using r2 by (simp add: st)
qed (auto simp: publish_sub_def split: prod.splits)

lemma batch_effects:
  shows "logs publish_effect r (snd (PublishBatch env frame r))"
    "\<exists>buf. (r_compression r = None \<longrightarrow> buf = batch_buf env frame) \<and> forwards (snd (PublishBatch env frame r)) =
       forwards r @ (if unat (f_PayloadLen frame) \<le> maxPayloadSize \<and> has_peers r then [(buf, True)] else [])"
proof -
  have "logs publish_effect r (snd (PublishBatch env frame r)) \<and> (\<exists>buf. (r_compression r = None \<longrightarrow> buf = batch_buf env frame) \<and>
      forwards (snd (PublishBatch env frame r)) =
      forwards r @ (if unat (f_PayloadLen frame) \<le> maxPayloadSize \<and> has_peers r then [(buf, True)] else []))"
  proof (cases "unat (f_PayloadLen frame) \<le> maxPayloadSize")
    case True
    obtain b r1 where a: "acquire_ref env (batch_buf env frame) 0 0 r = (b, r1)" by fastforce
    have l1: "quietly r r1" "has_peers r1 = has_peers r" using acquire_ref_logs [OF a] by (simp_all add: has_peers_def)
    obtain dcs r2 e where p: "ParseBatch (f_Payload frame) (publish_sub env b) ([], r1) = ((dcs, r2), e)"
      by (metis prod.exhaust)
    have "\<exists>n'\<le>length (f_Payload frame). quietly r (snd (fst (ParseBatch_loop (f_Payload frame) (publish_sub env b) ([], r1) 0)))"
      by (rule ParseBatch_loop_inv [where P = "\<lambda>n st. quietly r (snd st)" and n = 0])
        (use l1(1) logs_trans [OF _ publish_sub_logs] in auto)
    then have l2: "quietly r r2" using p by (simp add: ParseBatch_def)
    define r3 where "r3 = fold disconnectSubscriber dcs r2"
    have l3: "quietly r r3" unfolding r3_def by (rule logs_trans [OF l2 disconnect_all_logs])
    define buf where "buf = (case compressed_batch env frame r3 of Some x \<Rightarrow> x | None \<Rightarrow> batch_buf env frame)"
    have r': "snd (PublishBatch env frame r) = release_ref b (if has_peers r then emit (Forward buf True) r3 else r3)"
      using True a p l1(2) by (simp add: PublishBatch_def Let_def r3_def [symmetric] buf_def split: option.split)
    have "logs publish_effect r r3" by (rule logs_mono [OF l3 dispatch_publish_effect])
    moreover have "forwards (emit (Forward buf True) r3) = forwards r3 @ [(buf, True)]" by (simp add: forwards_def)
    moreover have "forwards (release_ref b x) = forwards x" for x by (simp add: forwards_def)
    moreover have "r_compression r = None \<longrightarrow> buf = batch_buf env frame"
      using l3 by (simp add: buf_def compressed_batch_def logs_def split: option.split)
    ultimately show ?thesis using True quietly_forwards [OF l3] by (auto simp: r')
  next
    case False
    then show ?thesis by (auto simp: PublishBatch_def)
  qed
  then show "logs publish_effect r (snd (PublishBatch env frame r))"
    "\<exists>buf. (r_compression r = None \<longrightarrow> buf = batch_buf env frame) \<and> forwards (snd (PublishBatch env frame r)) =
       forwards r @ (if unat (f_PayloadLen frame) \<le> maxPayloadSize \<and> has_peers r then [(buf, True)] else [])" by simp_all
qed

text \<open>Only a subscription makes a new slot.\<close>

lemma slots_unchanged:
  "slots (snd (PublishWithClientID env frame c r)) = slots r" "slots (snd (PublishFromPeer env frame r)) = slots r"
  "slots (snd (PublishBatch env frame r)) = slots r" "slots (NackByStream sid off r) = slots r"
  "slots (AckOffset cid t off r) = slots r"
proof -
  obtain e t' where "expiry_and_topic env (priority_of frame) (f_Payload frame) r = (e, t')" by fastforce
  then show "slots (snd (PublishWithClientID env frame c r)) = slots r"
    using publish_effects(1) by (simp add: PublishWithClientID_def logs_def)
  show "slots (snd (PublishFromPeer env frame r)) = slots r" using peer_effects by blast
  show "slots (snd (PublishBatch env frame r)) = slots r" using batch_effects(1) by (simp add: logs_def)
  show "slots (NackByStream sid off r) = slots r" by (simp add: NackByStream_def split: option.split)
  have "slots (fold (ack_slot cid t off) xs r) = slots r" for xs r
    by (induction xs arbitrary: r) (simp_all add: ack_slot_def Let_def emit_def)
  then show "slots (AckOffset cid t off r) = slots r" by (simp add: AckOffset_def Let_def)
qed

lemma slots_Subscribe: "slots (snd (Subscribe stream frame r)) \<le> Suc (slots r)"
proof (cases "\<exists>s spec. stream = Some s \<and> parseSubscriptionPayload (f_Payload frame) = Ok spec")
  case True
  then obtain s spec where t: "stream = Some s" "parseSubscriptionPayload (f_Payload frame) = Ok spec" by blast
  have e: "slots (strip_meta x) = slots x" for x by (simp add: strip_meta_def)
  have "slots (snd (Subscribe (Some s) frame r)) = slots (registered (f_StreamID frame) s spec r)"
    using arg_cong [OF Subscribe_registered [OF t(2), of s r], of slots] unfolding e .
  then show ?thesis by (simp add: t(1) registered_def Let_def append_slot_def)
next
  case False
  then show ?thesis by (auto simp: Subscribe_def split: option.split res.split)
qed

section \<open>Negative acknowledgements\<close>

text \<open>The counter of a message at slot \<open>i\<close>, and what one negative acknowledgement does to it.\<close>

definition nack_key :: "bytes \<Rightarrow> u64 \<Rightarrow> nackKey" where
  "nack_key t off = \<lparr>nk_topicHash = topicHashKey t, nk_offset = off\<rparr>"

lemma handleNack_step:
  fixes env :: env
  assumes t: "w_cache (r_writers r ! i) off = Some t"
  defines "r' \<equiv> handleNack env i off r" and "c \<equiv> r_nackCounters r (nack_key t off) + 1"
  shows "r_writers r' = r_writers r" "r_maxRetries r' = r_maxRetries r"
    "r_nackCounters r' (nack_key t off) = (if sint c < r_maxRetries r then c else 0)"
    "dead_letters r' = dead_letters r @ (if sint c < r_maxRetries r then [] else [t])"
proof -
  let ?k = "nack_key t off"
  let ?r1 = "emit (MessageNacked t) (r\<lparr>r_nackCounters := (r_nackCounters r)(?k := c)\<rparr>)"
  let ?r2 = "(emit (MessageDeadLettered t) ?r1)\<lparr>r_nackCounters := (r_nackCounters r)(?k := c, ?k := 0)\<rparr>"
  have k: "\<lparr>nk_topicHash = CombineHashStrings (str ''topic'') t, nk_offset = off\<rparr> = ?k"
    by (simp add: nack_key_def topicHashKey_def)
  have pub: "logs publish_effect q (snd (Publish env f q))" for f q
    unfolding Publish_def using publish_effects(1) by (metis surj_pair)
  have d: "dead_letters (snd (Publish env f q)) = dead_letters q" for f q by (rule publish_logs_dead_letters [OF pub])
  show "r_writers r' = r_writers r" "r_maxRetries r' = r_maxRetries r"
    "r_nackCounters r' ?k = (if sint c < r_maxRetries r then c else 0)"
    "dead_letters r' = dead_letters r @ (if sint c < r_maxRetries r then [] else [t])"
  proof -
    have r': "r' = (if sint c < r_maxRetries r then snd (Publish env (topic_frame t (retry_ext off)) ?r1)
        else snd (Publish env (topic_frame (str ''__dlq__'' @ t) []) ?r2))"
      using t by (simp add: r'_def handleNack_def Let_def k c_def [symmetric] emit_def)
    have "dead_letters ?r1 = dead_letters r" "dead_letters ?r2 = dead_letters r @ [t]"
      by (simp_all add: dead_letters_def emit_def)
    then show "r_writers r' = r_writers r" "r_maxRetries r' = r_maxRetries r"
      "r_nackCounters r' ?k = (if sint c < r_maxRetries r then c else 0)"
      "dead_letters r' = dead_letters r @ (if sint c < r_maxRetries r then [] else [t])"
      using pub [where q = ?r1 and f = "topic_frame t (retry_ext off)"] pub [where q = ?r2 and f = "topic_frame (str ''__dlq__'' @ t) []"]
        d [where q = ?r1 and f = "topic_frame t (retry_ext off)"] d [where q = ?r2 and f = "topic_frame (str ''__dlq__'' @ t) []"]
      by (simp_all add: r' logs_def emit_def)
  qed
qed

definition nacks :: "nat \<Rightarrow> u64 \<Rightarrow> env list \<Rightarrow> Router \<Rightarrow> Router" where
  "nacks i off envs r = fold (\<lambda>env. handleNack env i off) envs r"

lemma sint_byte_nat: "n < 128 \<Longrightarrow> sint (of_nat n :: byte) = int n"
  by (simp add: signed_of_nat signed_take_bit_int_eq_self)

lemma nacks_dead_letters:
  assumes "w_cache (r_writers r ! i) off = Some t" "r_nackCounters r (nack_key t off) = of_nat k" "k < n" "n < 128"
    and "r_maxRetries r = int n"
  shows "dead_letters (nacks i off envs r) = dead_letters r @ replicate ((k + length envs) div n) t"
  using assms
proof (induction envs arbitrary: r k)
  case Nil
  then show ?case by (simp add: nacks_def)
next
  case (Cons env envs)
  let ?r = "handleNack env i off r"
  note h = handleNack_step [OF Cons.prems(1), of env]
  have c: "r_nackCounters r (nack_key t off) + 1 = of_nat (Suc k)" using Cons.prems(2) by simp
  have s: "sint (of_nat (Suc k) :: byte) = int (Suc k)" using Cons.prems(3,4) by (intro sint_byte_nat) simp
  have run: "nacks i off (env # envs) r = nacks i off envs ?r" by (simp add: nacks_def)
  show ?case
  proof (cases "Suc k < n")
    case True
    then have "r_nackCounters ?r (nack_key t off) = of_nat (Suc k)" "dead_letters ?r = dead_letters r"
      using h(3,4) Cons.prems(5) unfolding c s by simp_all
    then show ?thesis
      using Cons.IH [of ?r "Suc k"] Cons.prems h(1,2) True run by simp
  next
    case False
    then have n: "Suc k = n" using Cons.prems(3) by simp
    have "r_nackCounters ?r (nack_key t off) = of_nat 0" "dead_letters ?r = dead_letters r @ [t]"
      using h(3,4) Cons.prems(5) n unfolding c s by simp_all
    moreover have sum: "k + length (env # envs) = n + length envs" using n by simp
    then have "(k + length (env # envs)) div n = Suc (length envs div n)"
      using div_add_self1 [of n "length envs"] Cons.prems(3) unfolding sum by simp
    ultimately show ?thesis
      using Cons.IH [of ?r 0] Cons.prems h(1,2) run by simp
  qed
qed

lemma sint_byte_less: "sint (w :: byte) < 128"
  using sint_lt [of w] by simp

lemma nacks_never_dead:
  assumes "w_cache (r_writers r ! i) off = Some t" "128 \<le> r_maxRetries r"
  shows "dead_letters (nacks i off envs r) = dead_letters r"
  using assms
proof (induction envs arbitrary: r)
  case (Cons env envs)
  let ?r = "handleNack env i off r"
  note h = handleNack_step [OF Cons.prems(1), of env]
  have "sint (r_nackCounters r (nack_key t off) + 1) < r_maxRetries r"
    using sint_byte_less Cons.prems(2) by (rule less_le_trans)
  then have "dead_letters ?r = dead_letters r" using h(4) by simp
  then show ?case using Cons.IH [of ?r] Cons.prems h(1,2) by (simp add: nacks_def)
qed (simp add: nacks_def)

text \<open>The offset a retried message carries, and the offset that is appended for a consumer group.\<close>

lemma retry_ext_block: "retry_ext off = enc_block [(ExtRetryOffset, put_u64 off)]"
  by (simp add: retry_ext_def SetExtTotalLen_def fill_simps enc_block_def enc_entry_def Let_def)

definition with_offset :: "u64 \<Rightarrow> Frame \<Rightarrow> Frame" where
  "with_offset off f = f\<lparr>f_Payload := f_Payload f @ put_u64 off, f_PayloadLen := f_PayloadLen f + 8\<rparr>"

lemma with_offset_wf:
  assumes wf: "wf_frame f" and len: "length (f_Extensions f) + length (f_Payload f) + 8 < 2 ^ 32"
  shows "wf_frame (with_offset off f)" "DataLen (with_offset off f) = DataLen f + 8"
proof -
  have "unat (f_PayloadLen f + 8) = unat (f_PayloadLen f) + unat (8 :: u32)"
    using wf len by (intro unat_plus_simple [THEN iffD1]) (simp add: wf_frame_def word_le_nat_alt unat_word_ariths)
  then show "wf_frame (with_offset off f)" using wf len by (auto simp: wf_frame_def with_offset_def split: if_splits)
  show "DataLen (with_offset off f) = DataLen f + 8" by (simp add: DataLen_def with_offset_def)
qed

lemma append_offset_frame:
  assumes wf: "wf_frame f" and g: "g \<noteq> []"
  shows "append_offset g (enc_frame f) off = enc_frame (with_offset off f)"
proof -
  let ?h = "header_bytes (f_Command f) (f_StreamID f)" and ?b = "f_Extensions f @ f_Payload f"
  have e: "enc_frame f = ?h (DataLen f) @ ?b" by (simp add: enc_frame_def)
  have l: "length (enc_frame f) = 10 + unat (DataLen f)" by (rule length_enc_frame [OF wf])
  have d: "get_u32 (slice (enc_frame f) 6 10) = DataLen f"
    by (simp add: e header_bytes_def slice_def)
  have "write_at (?h n @ ?b) 6 (put_u32 k) = ?h k @ ?b" for n k
    by (simp add: write_at_def header_bytes_def)
  then show ?thesis
    using g l d by (simp add: append_offset_def Let_def e enc_frame_def with_offset_def DataLen_def add.assoc)
qed

lemma retry_buffer:
  fixes off :: u64
  assumes src: "buffer_source (e_acq env)" and len: "length t + 12 < 2 ^ 32"
  defines "f \<equiv> ext_frame CmdPublish 0 (retry_ext off) t"
  shows "publish_buf env (topic_frame t (retry_ext off)) t = enc_frame f" "wf_frame f"
    "delivery_offset (enc_frame f) dflt = off"
proof -
  have es: "wf_entries [(ExtRetryOffset, put_u64 off)]" by (simp add: wf_entries_def)
  have l: "length (retry_ext off) = 12" by (simp add: retry_ext_block enc_block_def enc_entry_def)
  have g: "get_u16 (retry_ext off) = 10"
    by (simp add: retry_ext_block enc_block_def enc_entry_def get_u16_append)
  have i: "wf_frame f" "enc_frame f = header_bytes (CmdPublish OR HasExtensionsBit) 0 (of_nat (12 + length t)) @ retry_ext off @ t"
    unfolding f_def using ext_frame_image [of CmdPublish "retry_ext off" t 0] len l g
    by (simp_all add: valid_opcode_def OpcodeOf_def wire_consts)
  show "wf_frame f" by (rule i(1))
  have "retry_ext off \<noteq> []" using l by auto
  then show "publish_buf env (topic_frame t (retry_ext off)) t = enc_frame f"
    using buffer_source.SerializeFrameWithExtensions_eq [OF src, of "retry_ext off" t CmdPublish 0] len l i(2)
    by (simp add: publish_buf_def topic_frame_def HasExtensions_def)
  have b: "enc_frame f ! 1 = CmdPublish OR HasExtensionsBit" by (simp add: i(2) header_bytes_def)
  have "put_u64 off \<noteq> []" using length_put(3) [of off] by (intro notI) simp
  then have x: "(FindExtension (drop 10 (enc_frame f)) ExtRetryOffset :: (unit, bytes option) res) = Ok (Some (put_u64 off))"
    using FindExtension_enc_block [OF es, of t ExtRetryOffset] by (simp add: i(2) retry_ext_block tlv_lookup_def)
  have "10 \<le> length (enc_frame f)" by (simp add: i(2))
  then show "delivery_offset (enc_frame f) dflt = off"
    using x b by (simp add: delivery_offset_def)
qed

section \<open>Consumer groups\<close>

text \<open>Without wrap-around, the turns of a group walk through its members.\<close>

lemma advance_pow:
  assumes "cg_members g = Some ms" "ms \<noteq> []"
  shows "(advance ^^ k) g = g\<lparr>cg_counter := cg_counter g + of_nat k\<rparr>"
proof (induction k)
  case (Suc k)
  have "advance (g\<lparr>cg_counter := c\<rparr>) = g\<lparr>cg_counter := c + 1\<rparr>" for c
    using assms by (simp add: advance_def next_member_def)
  then show ?case using Suc by (simp add: ac_simps)
qed simp

lemma next_member_pow:
  assumes ms: "cg_members g = Some ms" "ms \<noteq> []" and small: "unat (cg_counter g) + length ms < 2 ^ 64" and k: "k < length ms"
  shows "next_member ((advance ^^ k) g) = [rotate (unat (cg_counter g)) ms ! k]"
proof -
  let ?c = "unat (cg_counter g)"
  have n: "unat (of_nat (length ms) :: u64) = length ms" using small by (intro unat_of_nat_u64) simp
  have "cg_counter g + of_nat k = of_nat (?c + k)" by simp
  moreover have "unat (of_nat (?c + k) :: u64) = ?c + k" using small k by (intro unat_of_nat_u64) simp
  ultimately have "unat ((cg_counter g + of_nat k) mod of_nat (length ms)) = (?c + k) mod length ms"
    by (simp only: unat_mod n)
  then show ?thesis
    using ms k by (simp add: advance_pow [OF ms] next_member_def nth_rotate)
qed

lemma turns_of_group:
  assumes "cg_members g = Some ms" "ms \<noteq> []" "unat (cg_counter g) + length ms < 2 ^ 64"
  shows "concat (map (\<lambda>k. next_member ((advance ^^ k) g)) [0..<length ms]) = rotate (unat (cg_counter g)) ms"
proof -
  let ?l = "rotate (unat (cg_counter g)) ms"
  have "map (\<lambda>k. next_member ((advance ^^ k) g)) [0..<length ms] = map (\<lambda>k. [?l ! k]) [0..<length ms]"
    using next_member_pow [OF assms] by simp
  also have "concat \<dots> = map (\<lambda>k. ?l ! k) [0..<length ?l]" by (simp add: concat_map_singleton)
  finally show ?thesis by (simp only: map_nth)
qed

text \<open>Only its own group gives a member of a group a turn.\<close>

lemma member_in_one_group:
  assumes at: "groups_at r h gs" and g: "g \<in> set gs" "cg_members g = Some ms" "i \<in> set ms"
    and g': "g' \<in> set gs" "cg_members g' = Some ms'" "i \<in> set ms'"
  shows "g' = g"
proof -
  have "r_subGroups r ! i = cg_groupID x" if "x \<in> set gs" "cg_members x = Some xs" "i \<in> set xs" for x xs
  proof -
    have "group_ok r h x" using at that(1) by (simp add: groups_at_def)
    then obtain ms0 where "cg_members x = Some ms0" "\<forall>i\<in>set ms0. member_of r x i" unfolding group_ok_def by blast
    then show ?thesis using that(2,3) by (simp add: member_of_def)
  qed
  then have "cg_groupID g' = cg_groupID g" using g g' by metis
  moreover have "inj_on cg_groupID (set gs)" using at by (simp add: groups_at_def distinct_map)
  ultimately show ?thesis using g(1) g'(1) by (simp add: inj_on_eq_iff)
qed

lemma next_member_subset:
  assumes "cg_members g = Some ms" "length ms < 2 ^ 64"
  shows "set (next_member g) \<subseteq> set ms"
proof (cases "ms = []")
  case False
  have n: "unat (of_nat (length ms) :: u64) = length ms" using assms(2) by (intro unat_of_nat_u64) simp
  have "unat (cg_counter g mod of_nat (length ms)) = unat (cg_counter g) mod length ms"
    by (simp only: unat_mod n)
  then show ?thesis using assms(1) False by (simp add: next_member_def)
qed (use assms in \<open>simp add: next_member_def\<close>)

text \<open>How often slot \<open>i\<close> receives the publication that comes after \<open>k\<close> others for the same topic.\<close>

definition turns :: "Router \<Rightarrow> bytes \<Rightarrow> nat \<Rightarrow> nat \<Rightarrow> nat" where
  "turns r t i k =
     (if i < slots r \<and> r_active r ! i
      then of_bool (r_subGroups r ! i = [] \<and> topicHashKey (r_topics r ! i) = topicHashKey t) +
           of_bool (IsWildcardTopic (r_topics r ! i) \<and> MatchWildcard (r_topics r ! i) t) +
           count_list (concat (map (\<lambda>g. next_member ((advance ^^ k) g)) (r_groups r (topicHashKey t)))) i
      else 0)"

definition publishes :: "bytes \<Rightarrow> Router \<Rightarrow> env \<times> Frame \<Rightarrow> bool" where
  "publishes t r x \<longleftrightarrow> unat (f_PayloadLen (snd x)) \<le> maxPayloadSize \<and>
     snd (expiry_and_topic (fst x) (priority_of (snd x)) (f_Payload (snd x)) r) = t"

definition publish_run :: "(env \<times> Frame) list \<Rightarrow> bytes \<Rightarrow> Router \<Rightarrow> Router" where
  "publish_run pubs c r = fold (\<lambda>(env, f) r. snd (PublishWithClientID env f c r)) pubs r"

definition capacity :: "nat \<Rightarrow> Router \<Rightarrow> bool" where
  "capacity n r \<longleftrightarrow> (\<forall>i < slots r. \<forall>q < 4. length (content (queue r i q)) + n * (slots r + 2) \<le> r_queueSize r)"

lemma count_concat_le: "(\<And>x. x \<in> set xs \<Longrightarrow> length (f x) \<le> 1) \<Longrightarrow> count_list (concat (map f xs)) i \<le> length xs"
proof (induction xs)
  case (Cons x xs)
  have "count_list (f x) i \<le> 1" using Cons.prems [of x] count_le_length [of "f x" i] by simp
  then show ?case using Cons by simp
qed simp

lemma turns_le: "groups_ok r \<Longrightarrow> turns r t i k \<le> slots r + 2"
proof -
  assume "groups_ok r"
  then have "length (r_groups r (topicHashKey t)) \<le> slots r" by (simp add: groups_ok_def groups_at_def)
  moreover have "length (next_member g) \<le> 1" for g by (simp add: next_member_def split: option.split)
  then have "count_list (concat (map (\<lambda>g. next_member ((advance ^^ k) g)) (r_groups r (topicHashKey t)))) i
      \<le> length (r_groups r (topicHashKey t))" by (intro count_concat_le) simp
  ultimately show ?thesis by (simp add: turns_def of_bool_def)
qed

lemma length_pending_added:
  assumes "added m p L r r'" "i < slots r" "p < 4"
  shows "length (pending r' i) = length (pending r i) + count_list L i"
proof -
  have "length (at_level r' i k) = length (at_level r i k) + (if k = p then count_list L i else 0)" if "k < 4" for k
    using assms that by (simp add: added_def at_level_def)
  then show ?thesis using assms(3) by (auto simp: pending_def numeral_eq_Suc less_Suc_eq)
qed

lemma publish_turn:
  fixes c :: bytes
  assumes inv: "rinv {#} r" and q: "r_quotaManager r = None" and p: "publishes t r (env, f)" and cap: "capacity (Suc n) r"
  defines "r' \<equiv> snd (PublishWithClientID env f c r)"
  shows "rinv {#} r'" "r_quotaManager r' = None" "same_table r r'" "capacity n r'"
    "r_groups r' (topicHashKey t) = map advance (r_groups r (topicHashKey t))"
    "i < slots r \<Longrightarrow> length (pending r' i) = length (pending r i) + turns r t i 0"
proof -
  have ok: "index_ok r" "groups_ok r" using inv by (simp_all add: rinv_def)
  have cnt: "count_list (receivers r t) j = turns r t j 0" for j
    using receivers_count [OF ok(1), of t j] by (simp add: turns_def)
  obtain e where e: "expiry_and_topic env (priority_of f) (f_Payload f) r = (e, t)"
    using p by (metis publishes_def fst_conv snd_conv prod.collapse)
  have qm: "Manager_TryAcquire (r_quotaManager r) c = (True, None)" by (simp add: q Manager_TryAcquire_def)
  have rm: "room (level (priority_of f)) (receivers r t) r"
    unfolding room_def
  proof (intro allI impI)
    fix j
    assume j: "j < slots r"
    then have "length (content (queue r j (level (priority_of f)))) + Suc n * (slots r + 2) \<le> r_queueSize r"
      using cap level_less by (simp add: capacity_def)
    then show "length (content (queue r j (level (priority_of f)))) + count_list (receivers r t) j \<le> r_queueSize r"
      using turns_le [OF ok(2), of t j 0] by (simp add: cnt)
  qed
  obtain m where a: "publishWithClientID env f c r = (None, r')" "added m (level (priority_of f)) (receivers r t) r r'"
    "same_table r r'" "r_groups r' (topicHashKey t) = map advance (r_groups r (topicHashKey t))" "r_quotaManager r' = None"
    using publish_added [OF inv _ qm e rm] p by (auto simp: r'_def PublishWithClientID_def publishes_def)
  show "rinv {#} r'" unfolding r'_def PublishWithClientID_def by (rule publishWithClientID_rinv [OF inv])
  show "same_table r r'" "r_quotaManager r' = None" "r_groups r' (topicHashKey t) = map advance (r_groups r (topicHashKey t))"
    by (fact a)+
  show "i < slots r \<Longrightarrow> length (pending r' i) = length (pending r i) + turns r t i 0"
    using length_pending_added [OF a(2) _ level_less] by (simp add: cnt)
  show "capacity n r'"
    unfolding capacity_def
  proof (intro allI impI)
    fix j k :: nat
    assume j: "j < slots r'" "k < 4"
    have "slots r' = slots r" "r_queueSize r' = r_queueSize r" using a(3) by (simp_all add: same_table_def)
    moreover have "length (content (queue r' j k)) \<le> length (content (queue r j k)) + (slots r + 2)"
      using a(2) j calculation turns_le [OF ok(2), of t j 0] by (simp add: added_def cnt)
    moreover have "length (content (queue r j k)) + Suc n * (slots r + 2) \<le> r_queueSize r"
      using cap j calculation(1) by (simp add: capacity_def)
    ultimately show "length (content (queue r' j k)) + n * (slots r' + 2) \<le> r_queueSize r'" by simp
  qed
qed

lemma turns_after:
  assumes "same_table r r'" "r_groups r' (topicHashKey t) = map advance (r_groups r (topicHashKey t))"
  shows "turns r' t i k = turns r t i (Suc k)"
  using assms by (simp add: turns_def same_table_def comp_def funpow_swap1)

lemma publish_run_turns:
  assumes "rinv {#} r" "r_quotaManager r = None" "\<forall>x\<in>set pubs. publishes t r x" "capacity (length pubs) r" "i < slots r"
  shows "length (pending (publish_run pubs c r) i) = length (pending r i) + (\<Sum>k<length pubs. turns r t i k)"
  using assms
proof (induction pubs arbitrary: r)
  case (Cons x pubs)
  obtain env f where x: "x = (env, f)" by (cases x)
  let ?r = "snd (PublishWithClientID env f c r)"
  have p: "publishes t r (env, f)" "capacity (Suc (length pubs)) r" using Cons.prems x by simp_all
  note s = publish_turn [where c = c, OF Cons.prems(1,2) p]
  have "publishes t ?r y" if "y \<in> set pubs" for y
    using Cons.prems(3) that s(3) by (simp add: publishes_def expiry_and_topic_def same_table_def)
  then have "length (pending (publish_run pubs c ?r) i) = length (pending ?r i) + (\<Sum>k<length pubs. turns ?r t i k)"
    using Cons.IH [of ?r] s(1,2,3,4) Cons.prems(5) by (simp add: same_table_def)
  also have "\<dots> = length (pending r i) + (turns r t i 0 + (\<Sum>k<length pubs. turns r t i (Suc k)))"
    using s(6) [OF Cons.prems(5)] turns_after [OF s(3,5)] by simp
  also have "\<dots> = length (pending r i) + (\<Sum>k<Suc (length pubs). turns r t i k)"
    unfolding sum.lessThan_Suc_shift by simp
  finally show ?case by (simp add: publish_run_def x)
qed (simp add: publish_run_def)

lemma count_concat_single:
  assumes "g \<in> set gs" "distinct gs" "\<And>g'. g' \<in> set gs \<Longrightarrow> g' \<noteq> g \<Longrightarrow> i \<notin> set (f g')"
  shows "count_list (concat (map f gs)) i = count_list (f g) i"
  using assms
proof (induction gs)
  case (Cons x gs)
  have z: "count_list (concat (map f gs)) i = 0" if "g \<notin> set gs"
    using Cons.prems(3) that by (intro count_notin) auto
  show ?case
  proof (cases "x = g")
    case True
    then show ?thesis using z Cons.prems(2) by simp
  next
    case False
    then have "count_list (f x) i = 0" using Cons.prems(3) [of x] by (intro count_notin) simp
    then show ?thesis using Cons False by auto
  qed
qed simp

lemma count_concat_sum: "count_list (concat (map f [0..<n])) i = (\<Sum>k<n. count_list (f k) i)"
  by (induction n) simp_all

lemma count_rotate: "count_list (rotate n xs) i = count_list xs i"
proof (induction n)
  case (Suc n)
  have "count_list (rotate1 ys) i = count_list ys i" for ys :: "'a list" by (cases ys) simp_all
  then show ?case using Suc by simp
qed simp

lemma count_distinct: "distinct xs \<Longrightarrow> i \<in> set xs \<Longrightarrow> count_list xs i = 1"
  by (induction xs) (auto simp: count_notin)

text \<open>A member that is not also a wildcard subscriber has one turn in as many publications as its group has members.\<close>

lemma group_turns:
  assumes inv: "rinv {#} r" and g: "g \<in> set (r_groups r (topicHashKey t))" "cg_members g = Some ms" "i \<in> set ms"
    and live: "r_active r ! i" "\<not> IsWildcardTopic (cg_topic g)" and small: "unat (cg_counter g) + length ms < 2 ^ 64"
  shows "(\<Sum>k<length ms. turns r t i k) = 1" "i < slots r"
proof -
  let ?gs = "r_groups r (topicHashKey t)"
  have at: "groups_at r (topicHashKey t) ?gs" using inv by (simp add: rinv_def groups_ok_def)
  have ok: "group_ok r (topicHashKey t) g'" if "g' \<in> set ?gs" for g' using at that by (simp add: groups_at_def)
  have mem: "distinct xs" "\<forall>j\<in>set xs. member_of r g' j" if "g' \<in> set ?gs" "cg_members g' = Some xs" for g' xs
    using ok [OF that(1)] that(2) unfolding group_ok_def by auto
  have gid: "cg_groupID g \<noteq> []" using ok [OF g(1)] unfolding group_ok_def by blast
  have i: "member_of r g i" using mem(2) [OF g(1,2)] g(3) by blast
  then show lt: "i < slots r" by (simp add: member_of_def)
  have ne: "ms \<noteq> []" using g(3) by auto
  have len: "length xs < 2 ^ 64" if "g' \<in> set ?gs" "cg_members g' = Some xs" for g' xs
  proof -
    have "set xs \<subseteq> {..<slots r}" using mem(2) [OF that] by (auto simp: member_of_def)
    then have "length xs \<le> slots r" using mem(1) [OF that] card_mono [of "{..<slots r}" "set xs"] by (simp add: distinct_card)
    then show ?thesis using inv by (simp add: rinv_def)
  qed
  have pow_members: "cg_members ((advance ^^ k) g') = cg_members g'" for k g'
    by (induction k) (simp_all add: advance_def)
  have only: "i \<notin> set (next_member ((advance ^^ k) g'))" if g': "g' \<in> set ?gs" "g' \<noteq> g" for k g'
  proof -
    obtain xs where xs: "cg_members g' = Some xs" using ok [OF g'(1)] unfolding group_ok_def by blast
    then have "i \<notin> set xs" using member_in_one_group [OF at g g'(1) xs] g'(2) by blast
    moreover have "set (next_member ((advance ^^ k) g')) \<subseteq> set xs"
      using next_member_subset [of "(advance ^^ k) g'" xs] len [OF g'(1) xs] by (simp add: pow_members xs)
    ultimately show ?thesis by blast
  qed
  have dist: "distinct ?gs" using at by (auto simp: groups_at_def distinct_map)
  have "turns r t i k = count_list (next_member ((advance ^^ k) g)) i" for k
    using i gid live lt count_concat_single [where f = "\<lambda>g. next_member ((advance ^^ k) g)", OF g(1) dist only]
    by (simp add: turns_def member_of_def)
  then have "(\<Sum>k<length ms. turns r t i k) = count_list (rotate (unat (cg_counter g)) ms) i"
    by (simp add: count_concat_sum [symmetric] turns_of_group [OF g(2) ne small])
  then show "(\<Sum>k<length ms. turns r t i k) = 1"
    using count_distinct [OF mem(1) [OF g(1,2)] g(3)] by (simp add: count_rotate)
qed

text \<open>C25: Consumer groups share the load evenly. In every reachable router without quotas, when a group of a topic
  has \<open>n\<close> members and \<open>n\<close> messages for that topic are published one after the other (and the queues have room for
  them), every active member of the group has exactly one more message waiting, whatever the group's counter was and
  whichever other subscribers, groups and patterns the topic has.\<close>

theorem group_round_robin:
  assumes "router_reach mt opts r" "r_quotaManager r = None"
    and "g \<in> set (r_groups r (topicHashKey t))" "cg_members g = Some ms" "i \<in> set ms"
    and "r_active r ! i" "\<not> IsWildcardTopic (cg_topic g)" "unat (cg_counter g) + length ms < 2 ^ 64"
    and "length pubs = length ms" "\<forall>x\<in>set pubs. publishes t r x" "capacity (length pubs) r"
  shows "length (pending (publish_run pubs c r) i) = length (pending r i) + 1"
proof -
  have inv: "rinv {#} r" by (rule reach_rinv [OF assms(1)])
  note g = group_turns [OF inv assms(3-8)]
  show ?thesis using publish_run_turns [OF inv assms(2,10,11) g(2), of c] g(1) assms(9) by simp
qed

definition group_frame :: Frame where "group_frame = frame_of CmdSubscribe (str ''topic:a:group:g'')"

definition demo_g1 :: Router where "demo_g1 = snd (Subscribe (Some 7) group_frame (NewRouter False []))"

definition demo_g2 :: Router where "demo_g2 = snd (Subscribe (Some 8) group_frame demo_g1)"

lemma group_payload: "parseSubscriptionPayload (str ''topic:a:group:g'') =
    Ok (empty_spec\<lparr>sp_Topic := topic_a, sp_GroupID := str ''g''\<rparr>)"
  by code_simp

lemma group_g: "str ''g'' \<noteq> []"
  by (simp add: str_def)

lemma demo_g_fields:
  "slots demo_g1 = 1" "slots demo_g2 = 2" "r_active demo_g2 = [True, True]" "r_quotaManager demo_g2 = None"
  "r_groups demo_g2 (topicHashKey topic_a) =
     [\<lparr>cg_groupID = str ''g'', cg_topic = topic_a, cg_counter = 0, cg_members = Some [0, 1]\<rparr>]"
  "r_priorityTTLs demo_g2 = [0, 0, 0, 0]" "r_queueSize demo_g2 = 1024"
  "r_queues demo_g2 = [[None, None, None, None], [None, None, None, None]]"
  using topic_a_plain
  by (simp_all add: demo_g1_def demo_g2_def group_frame_def Subscribe_def frame_of_def group_payload Let_def append_slot_def
      empty_spec_def report_active_def NewRouter_def empty_router_def register_group_def rebuildGroupMembersLocked_def
      GetTopicOffset_def defaultQueueSize_def group_g)

lemma demo_g2_reach: "router_reach False [] demo_g2"
proof -
  have "router_reach False [] demo_g1"
    unfolding demo_g1_def by (rule subscribe [OF start]) (simp add: NewRouter_def empty_router_def)
  then show ?thesis unfolding demo_g2_def by (rule subscribe) (simp add: demo_g_fields)
qed

theorem group_round_robin_witness:
  "length (pending (publish_run (replicate 2 (env0, frame_of CmdPublish topic_a)) [] demo_g2) 1) = 1"
proof -
  have p: "publishes topic_a demo_g2 (env0, frame_of CmdPublish topic_a)"
    using demo_frame(1) topic_a_plain
    by (simp add: publishes_def expiry_and_topic_def plain_publish frame_of_def Let_def split: prod.split)
  have c: "capacity 2 demo_g2" and e: "pending demo_g2 1 = []"
    by (auto simp: capacity_def demo_g_fields less_Suc_eq numeral_eq_Suc pending_def at_level_def)
  show ?thesis
    using group_round_robin [OF demo_g2_reach demo_g_fields(4), of _ topic_a "[0, 1]" 1 "replicate 2 (env0, frame_of CmdPublish topic_a)" "[]"]
      demo_g_fields topic_a_plain p c e by simp
qed

section \<open>Full queues\<close>

text \<open>What a queue of at most \<open>n\<close> messages holds after one more message, and whether its owner is disconnected.\<close>

definition backpressure :: "BackpressurePolicy \<Rightarrow> nat \<Rightarrow> nat list \<Rightarrow> nat \<Rightarrow> nat list \<times> bool" where
  "backpressure policy n q m =
     (if length q < n then (q @ [m], False)
      else if policy = PolicyDropOldest then (tl q @ [m], False)
      else (q, policy = PolicyDisconnect))"

lemma enqueue_backpressure:
  fixes p :: byte and m :: nat
  assumes wf: "lengths_ok r" "queues_ok r" and i: "i < slots r" "r_active r ! i"
  defines "b \<equiv> backpressure (r_policy r) (r_queueSize r) (content (queue r i (level p))) m"
  obtains r' where "enqueueToSubscriber i m p r = (if snd b then Some i else None, r')"
    "r_queues r' = r_queues (set_queue i (level p) (Some (fst b)) r)" "static r r'" "queues_ok r'"
proof -
  have len: "i < length (r_queues r)" and pos: "0 < r_queueSize r"
    using wf i by (auto simp: lengths_ok_def queues_ok_def)
  have bd: "length (content (queue r i (level p))) \<le> r_queueSize r"
    using queue_bound(2) [OF wf(2) len level_less] .
  note e = enqueue_eq [OF len i(2) refl, of m p]
  have "\<exists>r'. enqueueToSubscriber i m p r = (if snd b then Some i else None, r') \<and>
      r_queues r' = r_queues (set_queue i (level p) (Some (fst b)) r) \<and> static r r'"
  proof (cases "content (queue r i (level p))")
    case Nil
    then show ?thesis using pos by (simp add: e b_def backpressure_def set_queue_def static_def)
  next
    case (Cons a q)
    then have "length q < r_queueSize r" using bd by simp
    then show ?thesis
      using Cons by (simp add: e b_def backpressure_def handleOverflow_def send_or_release_def set_queue_def static_def
        release_ref_def emit_def PolicyDropOldest_def PolicyDropNewest_def PolicyDisconnect_def)
  qed
  then obtain r' where r': "enqueueToSubscriber i m p r = (if snd b then Some i else None, r')"
    "r_queues r' = r_queues (set_queue i (level p) (Some (fst b)) r)" "static r r'" by blast
  have "length (fst b) \<le> r_queueSize r" using bd pos by (auto simp: b_def backpressure_def)
  then have "queues_ok (set_queue i (level p) (Some (fst b)) r)" using wf(2) by (intro queues_ok_set_queue) simp_all
  then have "queues_ok r'" using r'(2,3) by (subst queues_ok_cong) (simp_all add: static_def set_queue_def)
  then show thesis using that r' by blast
qed

lemma backpressure_run:
  fixes policy :: BackpressurePolicy and m :: nat
  assumes "length q \<le> n" "0 < n"
  defines "q' \<equiv> fst (backpressure policy n q m)"
  shows "(if policy = PolicyDropOldest then drop (length q' + length ms - n) (q' @ ms) else take n (q' @ ms)) =
    (if policy = PolicyDropOldest then drop (length q + length (m # ms) - n) (q @ m # ms) else take n (q @ m # ms))"
proof (cases "length q < n")
  case True
  then show ?thesis by (simp add: q'_def backpressure_def del: drop_append take_append)
next
  case False
  then have n: "n = length q" using assms(1) by simp
  then obtain a l where "q = a # l" using assms(2) by (cases q) auto
  then show ?thesis using n by (simp add: q'_def backpressure_def del: drop_append)
qed

definition enqueue_all :: "nat \<Rightarrow> byte \<Rightarrow> nat list \<Rightarrow> Router \<Rightarrow> Router" where
  "enqueue_all i p ms r = fold (\<lambda>m r. snd (enqueueToSubscriber i m p r)) ms r"

lemma enqueue_all_content:
  fixes p :: byte
  assumes "lengths_ok r" "queues_ok r" "i < slots r" "r_active r ! i"
  defines "q \<equiv> content (queue r i (level p))"
  shows "content (queue (enqueue_all i p ms r) i (level p)) =
    (if r_policy r = PolicyDropOldest then drop (length q + length ms - r_queueSize r) (q @ ms)
     else take (r_queueSize r) (q @ ms))"
  using assms(1-4) unfolding q_def
proof (induction ms arbitrary: r)
  case Nil
  have "i < length (r_queues r)" using Nil by (simp add: lengths_ok_def)
  then show ?case using queue_bound(2) [OF Nil(2) _ level_less, of i p] by (simp add: enqueue_all_def)
next
  case (Cons m ms)
  let ?q = "content (queue r i (level p))"
  obtain r' where r': "snd (enqueueToSubscriber i m p r) = r'" "static r r'" "queues_ok r'"
    "r_queues r' = r_queues (set_queue i (level p) (Some (fst (backpressure (r_policy r) (r_queueSize r) ?q m))) r)"
    by (rule enqueue_backpressure [OF Cons.prems, of m p]) auto
  have len: "i < length (r_queues r)" "level p < length (r_queues r ! i)"
    using Cons.prems queue_bound(1) [of r i "level p"] level_less [of p] by (auto simp: lengths_ok_def)
  have st: "slots r' = slots r" "r_active r' = r_active r" "r_policy r' = r_policy r" "r_queueSize r' = r_queueSize r"
    using r'(2) by (simp_all add: static_def)
  have q': "content (queue r' i (level p)) = fst (backpressure (r_policy r) (r_queueSize r) ?q m)"
    using len by (simp add: r'(4) set_queue_def)
  have bd: "length ?q \<le> r_queueSize r" "0 < r_queueSize r"
    using queue_bound(2) [OF Cons.prems(2) len(1) level_less] Cons.prems(2) by (auto simp: queues_ok_def)
  have "content (queue (enqueue_all i p ms r') i (level p)) =
    (if r_policy r = PolicyDropOldest then drop (length (content (queue r' i (level p))) + length ms - r_queueSize r) (content (queue r' i (level p)) @ ms)
     else take (r_queueSize r) (content (queue r' i (level p)) @ ms))"
    using Cons.IH [of r'] lengths_ok_static [OF r'(2) Cons.prems(1)] r'(3) Cons.prems(3,4) st by simp
  also have "\<dots> = (if r_policy r = PolicyDropOldest then drop (length ?q + length (m # ms) - r_queueSize r) (?q @ m # ms)
     else take (r_queueSize r) (?q @ m # ms))"
    unfolding q' by (rule backpressure_run [OF bd])
  finally show ?case using r'(1) by (simp add: enqueue_all_def)
qed

text \<open>C24: Backpressure is bounded and keeps the right messages. When a burst of messages is queued for an active
  subscriber, its queue of that priority never exceeds the configured size; with the drop-oldest policy it holds the
  newest messages of the old content followed by the burst, with drop-newest and disconnect the oldest ones, in order.\<close>

theorem queue_overflow_policy:
  assumes "router_reach mt opts r" "i < slots r" "r_active r ! i"
  shows "content (queue (enqueue_all i p ms r) i (level p)) =
    (if r_policy r = PolicyDropOldest
     then drop (length (content (queue r i (level p)) @ ms) - r_queueSize r) (content (queue r i (level p)) @ ms)
     else take (r_queueSize r) (content (queue r i (level p)) @ ms))"
  using enqueue_all_content [of r i p ms] reach_rinv [OF assms(1)] assms(2,3) by (simp add: rinv_def)

lemma demo1_policy: "r_policy demo1 = PolicyDropOldest" and demo1_cancelled: "r_cancelled demo1 = [False]"
  using topic_a_plain
  by (simp_all add: demo1_def Subscribe_def frame_of_def plain_subscription Let_def empty_spec_def append_slot_def
      report_active_def NewRouter_def empty_router_def GetTopicOffset_def)

theorem queue_overflow_policy_witness:
  "content (queue (enqueue_all 0 2 [0..<1500] demo1) 0 2) = [476..<1500]"
  using queue_overflow_policy [OF demo1_reach, of 0 2 "[0..<1500]"]
  by (simp add: demo1_fields level_def demo1_policy)

section \<open>A message of the log keeps a reference too many\<close>

text \<open>The backfill worker leaks. When the replay of the log delivers a message to an active subscriber, the
  message is queued once but counts two references, so that the one release of the writer does not bring the count
  to zero and its buffer is never given back; messages that are published are counted exactly.\<close>

theorem backfill_leaks:
  assumes "router_reach mt opts r" "i < slots r" "r_active r ! i" "\<not> r_cancelled r ! i"
    and "length (content (queue r i 2)) < r_queueSize r"
    and "ParseFrame fb = Ok frame" "f_Command frame = CmdPublish" "parsePublishTopic (e_now env) (f_Payload frame) = (e, topic)"
    and "s < n + 1" "n + 1 \<le> upto_off"
  shows "\<exists>m r'. backfill_frame env topic s upto_off i (n, r) fb = ((n + 1, r'), None) \<and>
    content (queue r' i 2) = content (queue r i 2) @ [m] \<and> count (handles r') m = 1 \<and> cnt r' m = 2"
proof -
  have inv: "rinv {#} r" by (rule reach_rinv [OF assms(1)])
  obtain m r1 where a: "acquire_ref env (SerializeFrame (e_acq env) (e_raw env) CmdPublish 0 topic) e (n + 1) r = (m, r1)"
    by fastforce
  note f = acquire_ref_facts [OF inv a]
  let ?r2 = "retain_ref m r1"
  let ?r3 = "(set_queue i 2 (Some (content (queue r i 2) @ [m])) ?r2)\<lparr>r_notify := (r_notify r1)[i := True]\<rparr>"
  have l2: "level PriorityNormal = 2" by (simp add: level_def)
  have st: "r_active r1 = r_active r" "r_queueSize r1 = r_queueSize r" using f(4) by (simp_all add: static_def)
  have len: "i < length (r_queues r)" "2 < length (r_queues r ! i)"
    using inv assms(2) queue_bound(1) [of r i 2] by (auto simp: rinv_def lengths_ok_def)
  have enq: "enqueueToSubscriber i m PriorityNormal ?r2 = (None, ?r3)"
    using enqueue_eq [of i ?r2 PriorityNormal _ m, OF _ _ refl] len assms(3,5) st f(6)
    unfolding l2 by (simp add: retain_ref_def)
  have refs: "refs_ok r1 {#m#}" using f(1) by (simp add: rinv_def)
  have c: "cnt ?r2 m = 2" using refs_ok_retain(2) [OF refs] f(2) by simp
  have "handles r1 = handles r" using f(4,6) by (intro handles_cong) (simp_all add: static_def)
  then have "handles (set_queue i 2 (Some (content (queue r i 2) @ [m])) ?r2) + mset (content (queue r i 2)) =
      handles r + mset (content (queue r i 2) @ [m])"
    using handles_set_queue [of i ?r2 2 "Some (content (queue r i 2) @ [m])"] len f(6)
    by (simp add: retain_ref_def handles_def)
  then have h: "handles ?r3 = add_mset m (handles r)" by (simp add: handles_def)
  have "count (handles r) m = 0" using f(7) by (simp add: not_in_iff)
  moreover have "cnt ?r3 m = cnt ?r2 m" by (simp add: cnt_def set_queue_def)
  moreover have "content (queue ?r3 i 2) = content (queue r i 2) @ [m]"
    using len f(6) by (simp add: set_queue_def retain_ref_def)
  moreover have "backfill_frame env topic s upto_off i (n, r) fb = ((n + 1, emit BackfillFrame ?r3), None)"
    using assms(4,6-10) a enq by (simp add: backfill_frame_def Let_def)
  moreover have "handles (emit BackfillFrame ?r3) = handles ?r3" "queue (emit BackfillFrame ?r3) = queue ?r3"
    "cnt (emit BackfillFrame ?r3) m = cnt ?r3 m" by (simp_all add: cnt_def)
  ultimately show ?thesis unfolding h c
    by (intro exI [of _ m] exI [of _ "emit BackfillFrame ?r3"]) (simp only: h c count_add_mset, simp)
qed

theorem backfill_leaks_witness:
  "\<exists>m r'. backfill_frame env0 topic_a 0 1 0 (0, demo1) [0x1F, CmdPublish, 0, 0, 0, 0, 1, 0, 0, 0, 97] = ((1, r'), None) \<and>
     content (queue r' 0 2) = [m] \<and> count (handles r') m = 1 \<and> cnt r' m = 2"
proof -
  have p: "(ParseFrame [0x1F, CmdPublish, 0, 0, 0, 0, 1, 0, 0, 0, 97] :: (parse_error, Frame) res) =
      Ok (plain_frame CmdPublish 0 topic_a)" by code_simp
  have "parsePublishTopic (e_now env0) (f_Payload (plain_frame CmdPublish 0 topic_a)) = (0, topic_a)"
    using plain_publish [OF topic_a_plain(1,2)] by (simp add: plain_frame_def)
  then show ?thesis
    using backfill_leaks [OF demo1_reach _ _ _ _ p, of 0 env0 0 topic_a 0 0 1]
    by (simp add: demo1_fields demo1_cancelled plain_frame_def)
qed

section \<open>Properties of negative acknowledgements\<close>


definition demo_sent :: Router where
  "demo_sent = set_writer 0 (new_writer\<lparr>w_cache := [1 \<mapsto> topic_a]\<rparr>) demo1"

lemma demo_sent_fields: "w_cache (r_writers demo_sent ! 0) 1 = Some topic_a" "r_nackCounters demo_sent k = 0"
  "r_maxRetries demo_sent = 3" "dead_letters demo_sent = []"
  using topic_a_plain
  by (simp_all add: demo_sent_def set_writer_def dead_letters_def demo1_def Subscribe_def frame_of_def plain_subscription Let_def
      empty_spec_def append_slot_def report_active_def NewRouter_def empty_router_def GetTopicOffset_def defaultMaxRetries_def)


text \<open>The offset of a retried message survives its way to a consumer group. The frame a rejected message is
  republished as carries its first offset in an extension; when the writer of a group member sends it, the receiver
  parses a frame with the topic followed by exactly that offset, not the offset the republished frame got.\<close>

theorem retry_offset_roundtrip:
  assumes "buffer_source (e_acq env)" "length t + 20 < 2 ^ 32" "g \<noteq> []"
    and "buf = publish_buf env (topic_frame t (retry_ext off)) t"
  shows "ParseFrame (append_offset g buf (delivery_offset buf dflt) @ tail) =
    Ok (ext_frame CmdPublish 0 (retry_ext off) (t @ put_u64 off))"
proof -
  let ?f = "ext_frame CmdPublish 0 (retry_ext off) t"
  have b: "buf = enc_frame ?f" "wf_frame ?f" "delivery_offset buf dflt = off"
    using retry_buffer(1,2) [OF assms(1), of t off] retry_buffer(3) [OF assms(1), of t off dflt] assms(2,4) by simp_all
  have l: "length (f_Extensions ?f) + length (f_Payload ?f) + 8 < 2 ^ 32"
    using assms(2) by (simp add: ext_frame_def retry_ext_block enc_block_def enc_entry_def)
  have "append_offset g buf off = enc_frame (with_offset off ?f)" unfolding b(1) by (rule append_offset_frame [OF b(2) assms(3)])
  moreover have "with_offset off ?f = ext_frame CmdPublish 0 (retry_ext off) (t @ put_u64 off)"
    by (simp add: with_offset_def ext_frame_def)
  ultimately show ?thesis using ParseFrame_enc_frame [where r = tail, OF with_offset_wf(1) [where off = off, OF b(2) l]] b(3) by simp
qed

theorem retry_offset_roundtrip_witness:
  "ParseFrame (append_offset [103] (publish_buf env0 (topic_frame topic_a (retry_ext 9)) topic_a)
       (delivery_offset (publish_buf env0 (topic_frame topic_a (retry_ext 9)) topic_a) 4)) =
     Ok (ext_frame CmdPublish 0 (retry_ext 9) (topic_a @ put_u64 9))"
proof -
  have "buffer_source (e_acq env0)" by unfold_locales (simp add: env0_def)
  then show ?thesis using retry_offset_roundtrip [of env0 topic_a "[103]" _ 9 4 "[]"] topic_a_plain(3) by simp
qed

section \<open>The subscriber table\<close>

text \<open>C27: The subscriber table stays well formed. In every reachable router all columns of the table have one entry
  for every slot, every slot has four queues within the configured size, a slot that is not active is cancelled, and
  the topic index, the wildcard list and the groups only name slots that exist, with the right topic, and name every
  active slot that belongs there.\<close>

theorem router_well_formed:
  assumes "router_reach mt opts r"
  shows "lengths_ok r \<and> queues_ok r \<and> index_ok r \<and> groups_ok r"
  using reach_rinv [OF assms] by (simp add: rinv_def)

theorem router_well_formed_witness:
  "lengths_ok demo_g2 \<and> queues_ok demo_g2 \<and> index_ok demo_g2 \<and> groups_ok demo_g2"
  using router_well_formed [OF demo_g2_reach] by simp

end
