(* ===== verification/Transport.thy ===== *)
theory Transport
  imports Router_Effects Authz Aal
begin

text \<open>
  The QUIC broker of \<^verbatim>\<open>internal/transport\<close>: from the bytes of a stream to the router. The buffer pool, the read
  loop with its growing buffer, the split into frames, decompression, authorisation and logging of a frame, the
  routing by command, the replay of the log at start, and closing. QUIC is a parameter: a stream is the bytes that
  are still to come and a list of read events, and what is written to it or cancelled is an effect in a list.
  The decompression engine, the handlers and the results of closing the listener are parameters as well.
\<close>

section \<open>State\<close>

definition defaultReadBufSize :: int where "defaultReadBufSize = 1024"
definition defaultMaxBufSize :: int where "defaultMaxBufSize = 64 * 1024"
definition defaultMaxDecompressedPerStream :: int where "defaultMaxDecompressedPerStream = 16 * 1024 * 1024"

datatype transport_error =
    errOversizedPayload
  | errBufferExceeded
  | errUnauthorized
  | errFrameDecompressionFailed
  | errParse parse_error

datatype decompress_error = errSizeLimit | errStreamLimit | errDecompress

record stream =
  s_obj :: nat
  s_id :: u64

text \<open>A span is logged with its name, the context it continues, the stream of the frame and whether it is a batch.\<close>

datatype stream_effect =
    CancelRead nat nat
  | CancelWrite nat nat
  | Response nat bytes
  | AuthzDenied bytes bytes
  | SpanStarted bytes bytes bytes byte u32 bool
  | LogClosed
  | ContextCancelled
  | ListenerClosed

type_synonym handler = "Frame \<Rightarrow> bytes option option"

record Broker =
  br_handlers :: "byte \<Rightarrow> handler option"
  br_router :: "Router option"
  br_aal :: "Log option"
  br_aalClosed :: bool
  br_authz :: "Engine option"
  br_aalPath :: bytes
  br_aalKey :: bytes
  br_listener :: bool
  br_cancel :: bool
  br_stopped :: bool
  br_readBufSize :: int
  br_maxBufSize :: int
  br_tracer :: bool
  br_compression :: "(bytes \<Rightarrow> int \<Rightarrow> bytes option) option"
  br_compressionMinSize :: int
  br_maxDecompressedPerStream :: int
  br_fs :: fs
  br_tick :: nat
  br_effects :: "stream_effect list"

text \<open>What the surroundings supply to the frame that is handled as number \<open>k\<close>: the router's environment and whether
  the disk takes the log record; \<open>te_sys\<close> also has the cipher of the log.\<close>

record te_sys =
  te_env :: "nat \<Rightarrow> env"
  te_short :: "nat \<Rightarrow> nat option"
  te_cipher :: cipher

definition note_effect :: "stream_effect \<Rightarrow> Broker \<Rightarrow> Broker" where
  "note_effect e b = b\<lparr>br_effects := br_effects b @ [e]\<rparr>"

definition cancel_stream :: "stream \<Rightarrow> nat \<Rightarrow> Broker \<Rightarrow> Broker" where
  "cancel_stream s code b = note_effect (CancelWrite (s_obj s) code) (note_effect (CancelRead (s_obj s) code) b)"

definition with_router :: "(Router \<Rightarrow> Router) \<Rightarrow> Broker \<Rightarrow> Broker" where
  "with_router f b = b\<lparr>br_router := map_option f (br_router b)\<rparr>"

section \<open>Construction\<close>

definition WithReadBufSize :: "int \<Rightarrow> Broker \<Rightarrow> Broker" where
  "WithReadBufSize n b = b\<lparr>br_readBufSize := n\<rparr>"

definition WithMaxBufSize :: "int \<Rightarrow> Broker \<Rightarrow> Broker" where
  "WithMaxBufSize n b = b\<lparr>br_maxBufSize := n\<rparr>"

definition WithRouter :: "Router option \<Rightarrow> Broker \<Rightarrow> Broker" where
  "WithRouter r b = b\<lparr>br_router := r\<rparr>"

definition WithTracer :: "bool \<Rightarrow> Broker \<Rightarrow> Broker" where
  "WithTracer t b = b\<lparr>br_tracer := t\<rparr>"

definition WithAAL :: "Log option \<Rightarrow> Broker \<Rightarrow> Broker" where
  "WithAAL l b = b\<lparr>br_aal := l\<rparr>"

definition WithAALReplay :: "bytes \<Rightarrow> bytes \<Rightarrow> Broker \<Rightarrow> Broker" where
  "WithAALReplay path key b = b\<lparr>br_aalPath := path, br_aalKey := key\<rparr>"

definition WithAuthz :: "Engine option \<Rightarrow> Broker \<Rightarrow> Broker" where
  "WithAuthz e b = b\<lparr>br_authz := e\<rparr>"

definition WithBrokerCompression :: "(bytes \<Rightarrow> int \<Rightarrow> bytes option) option \<Rightarrow> int \<Rightarrow> Broker \<Rightarrow> Broker" where
  "WithBrokerCompression engine minBatchSize b =
     b\<lparr>br_compression := engine, br_compressionMinSize := minBatchSize\<rparr>"

definition WithMaxDecompressedPerStream :: "int \<Rightarrow> Broker \<Rightarrow> Broker" where
  "WithMaxDecompressedPerStream n b = b\<lparr>br_maxDecompressedPerStream := n\<rparr>"

definition New :: "fs \<Rightarrow> (Broker \<Rightarrow> Broker) list \<Rightarrow> Broker" where
  "New files opts = fold (\<lambda>opt b. opt b) opts
     \<lparr>br_handlers = (\<lambda>_. None), br_router = None, br_aal = None, br_aalClosed = False, br_authz = None,
      br_aalPath = [], br_aalKey = [], br_listener = False, br_cancel = False, br_stopped = False,
      br_readBufSize = defaultReadBufSize, br_maxBufSize = defaultMaxBufSize, br_tracer = False,
      br_compression = None, br_compressionMinSize = 0,
      br_maxDecompressedPerStream = defaultMaxDecompressedPerStream,
      br_fs = files, br_tick = 0, br_effects = []\<rparr>"

definition Handle :: "byte \<Rightarrow> handler \<Rightarrow> Broker \<Rightarrow> Broker" where
  "Handle cmd h b = b\<lparr>br_handlers := (br_handlers b)(cmd := Some h)\<rparr>"

definition AuthzEngine :: "Broker \<Rightarrow> Engine option" where
  "AuthzEngine b = br_authz b"

definition SetAuthzEngine :: "Engine option \<Rightarrow> Broker \<Rightarrow> Broker" where
  "SetAuthzEngine e b = b\<lparr>br_authz := e\<rparr>"

section \<open>Read buffers\<close>

text \<open>A slice is its whole backing array and its length. \<open>raw\<close> is what the pool hands out.\<close>

record rbuf =
  rb_data :: bytes
  rb_len :: nat

abbreviation cap :: "rbuf \<Rightarrow> nat" where
  "cap buf \<equiv> length (rb_data buf)"

definition make_buf :: "nat \<Rightarrow> rbuf" where
  "make_buf n = \<lparr>rb_data = replicate n 0, rb_len = n\<rparr>"

definition GetBuf :: "bytes option \<Rightarrow> int \<Rightarrow> (unit, rbuf) res" where
  "GetBuf raw minCap =
     (case raw of
        None \<Rightarrow> if minCap < 0 then Panic else Ok (make_buf (nat minCap))
      | Some b \<Rightarrow>
          if int (length b) < minCap then Ok (make_buf (nat minCap))
          else if minCap < 0 then Panic
          else Ok \<lparr>rb_data = b, rb_len = nat minCap\<rparr>)"

definition PutBuf :: "rbuf \<Rightarrow> bytes option" where
  "PutBuf buf = (if int (cap buf) < defaultReadBufSize then None else Some (rb_data buf))"

definition growBuffer :: "Broker \<Rightarrow> rbuf \<Rightarrow> rbuf" where
  "growBuffer b buf =
     (let newCap = cap buf * 2;
          newCap = (if int newCap > br_maxBufSize b then nat (br_maxBufSize b) else newCap);
          newBuf = replicate newCap 0
      in \<lparr>rb_data = copy_into newBuf 0 (rb_data buf), rb_len = newCap\<rparr>)"

section \<open>Preparing one frame\<close>

definition decompressFrame :: "(nat \<Rightarrow> bytes option) \<Rightarrow> Broker \<Rightarrow> Frame \<Rightarrow> int \<Rightarrow>
    (decompress_error, Frame \<times> bytes option) res \<times> int" where
  "decompressFrame acq b frame decompressedBytes =
     (case br_compression b of None \<Rightarrow> (Ok (frame, None), decompressedBytes)
      | Some Decompress \<Rightarrow>
        (case FindExtension (f_Extensions frame) ExtCompression of
           Ok (Some extVal) \<Rightarrow>
             if length extVal < ExtCompressionValueLen then (Ok (frame, None), decompressedBytes)
             else let algo = extVal ! 0; uncompressedSize = get_u32 (slice extVal 1 5) in
               if algo \<noteq> AlgoZSTD \<or> uncompressedSize = 0 then (Ok (frame, None), decompressedBytes)
               else if uncompressedSize > (of_int (br_maxBufSize b) :: u32) * 16 then (Err errSizeLimit, decompressedBytes)
               else let newTotal = i64 (decompressedBytes + int (unat uncompressedSize)) in
                 if newTotal > br_maxDecompressedPerStream b then (Err errStreamLimit, decompressedBytes)
                 else
                   (case Decompress (f_Payload frame) (int (unat uncompressedSize)) of
                      None \<Rightarrow> (Err errDecompress, newTotal)
                    | Some decompressed \<Rightarrow>
                        (rbind (StripExtension acq (f_Extensions frame) ExtCompression) (\<lambda>cleanExt.
                           Ok (\<lparr>f_Command = f_Command frame, f_StreamID = f_StreamID frame,
                                f_PayloadLen = uncompressedSize, f_Payload = decompressed,
                                f_Extensions = cleanExt\<rparr>, Some cleanExt)), newTotal))
         | Ok None \<Rightarrow> (Ok (frame, None), decompressedBytes)
         | Err e \<Rightarrow> (Err e, decompressedBytes)
         | Panic \<Rightarrow> (Panic, decompressedBytes)))"

definition permissionForFrame :: "byte \<Rightarrow> Permission" where
  "permissionForFrame cmd =
     (if cmd = CmdPublish \<or> cmd = CmdPublishBatch then PermPublish
      else if cmd = CmdSubscribe then PermSubscribe
      else PermNone)"

definition extractTopicBytes :: "bytes \<Rightarrow> bytes" where
  "extractTopicBytes payload =
     (if length payload \<ge> 6 \<and> HasPrefix payload prefixTopic then drop 6 payload else payload)"

text \<open>The authorisation of a frame: whether it may pass.\<close>

definition authorized :: "Broker \<Rightarrow> bytes \<Rightarrow> Frame \<Rightarrow> bool" where
  "authorized b clientID frame =
     (case br_authz b of None \<Rightarrow> True
      | Some e \<Rightarrow>
          let requiredPerm = permissionForFrame (f_Command frame) in
          requiredPerm = PermNone \<or> Allowed (Some e) clientID (extractTopicBytes (f_Payload frame)) requiredPerm)"

text \<open>Logging: an error of the write is only reported, a panic of the write is a panic. A closed file takes nothing.\<close>

definition log_frame :: "te_sys \<Rightarrow> byte \<Rightarrow> bytes \<Rightarrow> Broker \<Rightarrow> (transport_error, Broker) res" where
  "log_frame te cmd raw b =
     (if (cmd = CmdPublish \<or> cmd = CmdPublishBatch) \<and> br_aal b \<noteq> None then
        (case WriteFrame (te_cipher te) (if br_aalClosed b then Some 0 else te_short te (br_tick b))
                (br_aal b) (br_fs b) raw of
           (Panic, _) \<Rightarrow> Panic
         | (_, l, files) \<Rightarrow> Ok (b\<lparr>br_aal := l, br_fs := files\<rparr>))
      else Ok b)"

text \<open>What is done with a frame once it is parsed: \<open>raw\<close> are its bytes.\<close>

definition admitFrame :: "te_sys \<Rightarrow> stream \<Rightarrow> bytes \<Rightarrow> Frame \<Rightarrow> bytes \<Rightarrow> int \<times> Broker \<Rightarrow>
    (transport_error, unit) res \<times> int \<times> Broker" where
  "admitFrame te s clientID frame raw st =
     (case st of (db, b) \<Rightarrow>
        case decompressFrame (e_acq (te_env te (br_tick b))) b frame db of
          (Err derr, db) \<Rightarrow> (Err errFrameDecompressionFailed, db, cancel_stream s 1 b)
        | (Panic, db) \<Rightarrow> (Panic, db, b)
        | (Ok _, db) \<Rightarrow>
            if authorized b clientID frame then
              (case log_frame te (f_Command frame) raw b of
                 Ok b \<Rightarrow> (Ok (), db, b)
               | Err e \<Rightarrow> (Err e, db, b)
               | Panic \<Rightarrow> (Panic, db, b))
            else (Err errUnauthorized, db,
                  note_effect (AuthzDenied clientID (extractTopicBytes (f_Payload frame))) b))"

text \<open>\<open>None\<close> is an incomplete frame.\<close>

definition prepareFrame :: "te_sys \<Rightarrow> stream \<Rightarrow> bytes \<Rightarrow> bytes \<Rightarrow> nat \<Rightarrow> nat \<Rightarrow> int \<times> Broker \<Rightarrow>
    (transport_error, (Frame \<times> nat) option) res \<times> int \<times> Broker" where
  "prepareFrame te s clientID buf off consumed st =
     (let remaining = off - consumed; maxBufSize = br_maxBufSize (snd st) in
      if remaining < HeaderSize then
        (if int remaining > maxBufSize then (Err errBufferExceeded, st) else (Ok None, st))
      else
        let payloadLen = unat (PayloadLen (drop consumed buf)); totalLen = HeaderSize + payloadLen in
        if int payloadLen > maxBufSize \<or> int totalLen > maxBufSize then (Err errOversizedPayload, st)
        else if remaining < totalLen then (Ok None, st)
        else
          (case ParseFrame (drop consumed buf) of
             Err perr \<Rightarrow> (Err (errParse perr), st)
           | Panic \<Rightarrow> (Panic, st)
           | Ok frame \<Rightarrow>
               (case admitFrame te s clientID frame (slice buf consumed (consumed + totalLen)) st of
                  (Ok _, st) \<Rightarrow> (Ok (Some (frame, totalLen)), st)
                | (Err e, st) \<Rightarrow> (Err e, st)
                | (Panic, st) \<Rightarrow> (Panic, st))))"

section \<open>Routing one frame\<close>

definition startPublishSpan :: "bytes \<Rightarrow> Frame \<Rightarrow> bool \<Rightarrow> Broker \<Rightarrow> Broker" where
  "startPublishSpan spanName frame batch b =
     (if \<not> br_tracer b \<or> \<not> HasExtensions frame then b
      else case (ExtractTraceContext (f_Extensions frame) :: (unit, (bytes \<times> bytes \<times> byte) option) res) of
        Ok (Some (traceID, spanID, traceFlags)) \<Rightarrow>
          note_effect (SpanStarted spanName traceID spanID traceFlags (f_StreamID frame) batch) b
      | _ \<Rightarrow> b)"

definition SpanNameProcess :: bytes where "SpanNameProcess = str ''aqueduct.process''"
definition SpanNameForward :: bytes where "SpanNameForward = str ''aqueduct.forward''"

definition sendResponse :: "env \<Rightarrow> stream option \<Rightarrow> u32 \<Rightarrow> bytes \<Rightarrow> Broker \<Rightarrow> Broker" where
  "sendResponse env stream streamID payload b =
     (case stream of None \<Rightarrow> b
      | Some s \<Rightarrow> note_effect (Response (s_obj s) (SerializeFrame (e_acq env) (e_raw env) CmdAck streamID payload)) b)"

definition parseAckPayload :: "bytes \<Rightarrow> (bytes \<times> bytes \<times> u64) option" where
  "parseAckPayload payload =
     (let parts = Split payload [colon] in
      if length parts \<ge> 6 \<and> parts ! 0 = str ''topic'' \<and> parts ! 2 = str ''consumer'' \<and> parts ! 4 = str ''offset''
      then (case ParseUint (parts ! 5) of
              (n, None) \<Rightarrow> Some (parts ! 3, parts ! 1, of_nat n)
            | (n, Some _) \<Rightarrow> None)
      else None)"

definition handleForwardedFrame :: "env \<Rightarrow> Frame \<Rightarrow> Broker \<Rightarrow> Broker" where
  "handleForwardedFrame env frame b =
     (if OpcodeOf (f_Command frame) = CmdPublish then
        with_router (\<lambda>r. snd (PublishFromPeer env frame r)) (startPublishSpan SpanNameForward frame False b)
      else if OpcodeOf (f_Command frame) = CmdPublishBatch then
        with_router (\<lambda>r. snd (PublishBatch env frame r)) (startPublishSpan SpanNameForward frame True b)
      else b)"

definition handleLocalFrame :: "env \<Rightarrow> stream \<Rightarrow> bytes \<Rightarrow> Frame \<Rightarrow> Broker \<Rightarrow> bool \<times> Broker" where
  "handleLocalFrame env s clientID frame b =
     (let op = OpcodeOf (f_Command frame) in
      if op = CmdSubscribe then (True, with_router (\<lambda>r. snd (Subscribe (Some (s_obj s)) frame r)) b)
      else if op = CmdPublish then
        (True, with_router (\<lambda>r. snd (PublishWithClientID env frame clientID r)) (startPublishSpan SpanNameProcess frame False b))
      else if op = CmdPublishBatch then
        (True, with_router (\<lambda>r. snd (PublishBatch env frame r)) (startPublishSpan SpanNameProcess frame True b))
      else if op = CmdAck then
        (True, (case parseAckPayload (f_Payload frame) of
                  Some (consumerID, topic, off) \<Rightarrow> with_router (AckOffset consumerID topic off) b
                | None \<Rightarrow> b))
      else if op = CmdNack then
        (True, if length (f_Payload frame) < 8 then b
               else with_router (NackByStream (ucast (s_id s)) (get_u64 (take 8 (f_Payload frame)))) b)
      else (False, b))"

definition call_handler :: "env \<Rightarrow> stream \<Rightarrow> Frame \<Rightarrow> Broker \<Rightarrow> Broker" where
  "call_handler env s frame b =
     (case br_handlers b (f_Command frame) of None \<Rightarrow> b
      | Some h \<Rightarrow>
          (case h frame of
             None \<Rightarrow> b
           | Some None \<Rightarrow> b
           | Some (Some resp) \<Rightarrow> sendResponse env (Some s) (f_StreamID frame) resp b))"

definition routeFrame :: "env \<Rightarrow> stream \<Rightarrow> bytes \<Rightarrow> Frame \<Rightarrow> Broker \<Rightarrow> Broker" where
  "routeFrame env s clientID frame b =
     (if br_router b \<noteq> None then
        if IsForwarded (f_Command frame) then handleForwardedFrame env frame b
        else case handleLocalFrame env s clientID frame b of
          (True, b) \<Rightarrow> b
        | (False, b) \<Rightarrow> call_handler env s frame b
      else call_handler env s frame b)"

section \<open>Splitting the buffer into frames\<close>

lemma prepareFrame_progress:
  "prepareFrame te s c buf off k st = (Ok (Some (f, n)), st') \<Longrightarrow> 10 \<le> n \<and> n \<le> off - k"
  by (auto simp: prepareFrame_def Let_def split: prod.splits if_splits res.splits)

text \<open>The loop of \<^verbatim>\<open>dispatchFrames\<close> returns how much of the buffer it has used; the frame that is handled gets the
  next number.\<close>

function dispatch_loop :: "te_sys \<Rightarrow> stream \<Rightarrow> bytes \<Rightarrow> bytes \<Rightarrow> nat \<Rightarrow> nat \<Rightarrow> int \<times> Broker \<Rightarrow>
    (transport_error, nat) res \<times> int \<times> Broker" where
  "dispatch_loop te s clientID buf off consumed st =
     (if consumed < off then
        (case prepareFrame te s clientID buf off consumed st of
           (Ok (Some (frame, totalLen)), (db, b)) \<Rightarrow>
             dispatch_loop te s clientID buf off (consumed + totalLen)
               (db, (routeFrame (te_env te (br_tick b)) s clientID frame b)\<lparr>br_tick := Suc (br_tick b)\<rparr>)
         | (Ok None, st) \<Rightarrow> (Ok consumed, st)
         | (Err e, st) \<Rightarrow> (Err e, st)
         | (Panic, st) \<Rightarrow> (Panic, st))
      else (Ok consumed, st))"
  by pat_completeness auto

termination
  by (relation "measure (\<lambda>(te, s, c, buf, off, k, st). off - k)")
    (auto dest: prepareFrame_progress [OF sym])

declare dispatch_loop.simps [simp del]

definition dispatchFrames :: "te_sys \<Rightarrow> stream \<Rightarrow> bytes \<Rightarrow> bytes \<Rightarrow> nat \<Rightarrow> int \<times> Broker \<Rightarrow>
    (transport_error, nat \<times> bytes) res \<times> int \<times> Broker" where
  "dispatchFrames te s clientID buf off st =
     (case dispatch_loop te s clientID buf off 0 st of
        (Ok consumed, st) \<Rightarrow> (Ok (off - consumed, copy_into buf 0 (slice buf consumed off)), st)
      | (Err e, st) \<Rightarrow> (Err e, st)
      | (Panic, st) \<Rightarrow> (Panic, st))"

definition handleDispatchError :: "stream \<Rightarrow> transport_error \<Rightarrow> Broker \<Rightarrow> Broker" where
  "handleDispatchError s err b =
     (if err = errUnauthorized then cancel_stream s 401 b else cancel_stream s 1 b)"

section \<open>Reading a stream\<close>

datatype outcome = Torn_down int Broker | Crashed int Broker | Reading rbuf nat int Broker

text \<open>The frames in the buffer are handled in place: the first \<open>off\<close> bytes of the array change.\<close>

definition dispatch_buffer :: "te_sys \<Rightarrow> stream \<Rightarrow> bytes \<Rightarrow> rbuf \<Rightarrow> nat \<Rightarrow> int \<times> Broker \<Rightarrow> outcome" where
  "dispatch_buffer te s clientID buf off st =
     (case dispatchFrames te s clientID (take off (rb_data buf)) off st of
        (Ok (newOff, front), (db, b)) \<Rightarrow> Reading (buf\<lparr>rb_data := write_at (rb_data buf) 0 front\<rparr>) newOff db b
      | (Err e, (db, b)) \<Rightarrow> Torn_down db (handleDispatchError s e b)
      | (Panic, (db, b)) \<Rightarrow> Crashed db b)"

definition drainAndMaybeGrow :: "te_sys \<Rightarrow> stream \<Rightarrow> bytes \<Rightarrow> rbuf \<Rightarrow> nat \<Rightarrow> int \<times> Broker \<Rightarrow> outcome" where
  "drainAndMaybeGrow te s clientID buf off st =
     (case dispatch_buffer te s clientID buf off st of
        Reading buf off db b \<Rightarrow>
          if off \<noteq> cap buf then Reading buf off db b
          else if int (cap buf) \<ge> br_maxBufSize b then Torn_down db (cancel_stream s 1 b)
          else Reading (growBuffer b buf) off db b
      | res \<Rightarrow> res)"

text \<open>
  One read gives at most \<open>k\<close> of the bytes \<open>inp\<close> that are still to come, and at most what fits in the slice; it may
  report an error. Every error ends the loop.
\<close>

type_synonym read_event = "nat \<times> bool"

definition read_count :: "nat \<Rightarrow> rbuf \<Rightarrow> nat \<Rightarrow> bytes \<Rightarrow> nat" where
  "read_count k buf off inp = min k (min (rb_len buf - off) (length inp))"

definition read_step :: "te_sys \<Rightarrow> stream \<Rightarrow> bytes \<Rightarrow> nat \<Rightarrow> bytes \<Rightarrow> outcome \<Rightarrow> outcome \<times> bytes" where
  "read_step te s clientID k inp cur =
     (case cur of
        Reading buf off db b \<Rightarrow>
          let n = read_count k buf off inp;
              got = take n inp
          in (if n > 0
              then dispatch_buffer te s clientID (buf\<lparr>rb_data := write_at (rb_data buf) off got\<rparr>) (off + n) (db, b)
              else Reading buf off db b,
              drop n inp)
      | res \<Rightarrow> (res, inp))"

fun runStreamReadLoop :: "te_sys \<Rightarrow> stream \<Rightarrow> bytes \<Rightarrow> read_event list \<Rightarrow> bytes \<Rightarrow> outcome \<Rightarrow> outcome \<times> bytes" where
  "runStreamReadLoop te s clientID ((k, err) # evs) inp (Reading buf off db b) =
     (case read_step te s clientID k inp
             (if off = cap buf then drainAndMaybeGrow te s clientID buf off (db, b) else Reading buf off db b) of
        (Reading buf off db b, inp) \<Rightarrow>
          if err then (Torn_down db b, inp)
          else runStreamReadLoop te s clientID evs inp (Reading buf off db b)
      | (res, inp) \<Rightarrow> (res, inp))"
| "runStreamReadLoop te s clientID evs inp res = (res, inp)"

definition unsubscribe_stream :: "stream \<Rightarrow> Broker \<Rightarrow> Broker" where
  "unsubscribe_stream s b = with_router (Unsubscribe (ucast (s_id s))) b"

text \<open>A stream is handled to its end, which unsubscribes it; an outcome \<open>Reading\<close> is a loop that still waits.\<close>

definition HandleStream :: "te_sys \<Rightarrow> bytes option \<Rightarrow> stream \<Rightarrow> bytes \<Rightarrow> read_event list \<Rightarrow> bytes \<Rightarrow> Broker \<Rightarrow> outcome" where
  "HandleStream te raw s clientID evs inp b =
     (case GetBuf raw (br_readBufSize b) of
        Ok buf \<Rightarrow>
          (case fst (runStreamReadLoop te s clientID evs inp (Reading buf 0 0 b)) of
             Torn_down db b \<Rightarrow> Torn_down db (unsubscribe_stream s b)
           | res \<Rightarrow> res)
      | _ \<Rightarrow> Crashed 0 b)"

text \<open>The identity of a client: the common name of its first certificate.\<close>

definition client_identity :: "bytes list \<Rightarrow> bytes" where
  "client_identity certs = (case certs of cn # _ \<Rightarrow> if cn \<noteq> [] then cn else str ''anonymous'' | [] \<Rightarrow> str ''anonymous'')"

section \<open>Replaying the log, listening and closing\<close>

datatype replay_error = replayParse parse_error | replayPublish router_error

text \<open>The handler of the replay; its state is the number of the next frame and the router.\<close>

definition replay_frame :: "te_sys \<Rightarrow> nat \<times> Router option \<Rightarrow> bytes \<Rightarrow> (nat \<times> Router option) \<times> replay_error option" where
  "replay_frame te st frameBytes =
     (case st of (k, ro) \<Rightarrow>
        case ParseFrame frameBytes of
          Err e \<Rightarrow> (st, Some (replayParse e))
        | Panic \<Rightarrow> (st, None)
        | Ok frame \<Rightarrow>
            (case ro of
               Some r \<Rightarrow>
                 if f_Command frame = CmdPublish
                 then (case Publish (te_env te k) frame r of (err, r) \<Rightarrow> ((Suc k, Some r), map_option replayPublish err))
                 else ((Suc k, ro), None)
             | None \<Rightarrow> ((Suc k, ro), None)))"

definition ReplayAAL :: "te_sys \<Rightarrow> bool \<Rightarrow> nat list \<Rightarrow> bytes \<Rightarrow> bytes \<Rightarrow> Broker \<Rightarrow>
    ((aal_error, nat \<times> replay_error option) res \<times> Broker) option" where
  "ReplayAAL te openable rs path key b =
     (if path = [] then Some (Ok (0, None), b)
      else map_option (\<lambda>res. case res of
          Ok (records, err, (k, ro)) \<Rightarrow> (Ok (records, err), b\<lparr>br_router := ro, br_tick := k\<rparr>)
        | Err e \<Rightarrow> (Err e, b)
        | Panic \<Rightarrow> (Panic, b))
        (Replay (te_cipher te) openable rs (br_fs b) path key (replay_frame te) (br_tick b, br_router b)))"

text \<open>\<open>Listen\<close> binds the socket after the replay, whatever the replay reports; \<open>bound\<close> says whether QUIC could bind.\<close>

definition Listen :: "te_sys \<Rightarrow> bool \<Rightarrow> nat list \<Rightarrow> bool \<Rightarrow> Broker \<Rightarrow> (bool \<times> Broker) option" where
  "Listen te openable rs bound b =
     map_option (\<lambda>(res, b). if bound then (True, b\<lparr>br_listener := True, br_cancel := True\<rparr>) else (False, b))
       (if br_aalPath b \<noteq> [] then ReplayAAL te openable rs (br_aalPath b) (br_aalKey b) b else Some (Ok (0, None), b))"

definition cancel_and_close :: "Broker \<Rightarrow> Broker" where
  "cancel_and_close b =
     (let b = (if br_cancel b then note_effect ContextCancelled b else b)
      in if br_listener b then note_effect ListenerClosed b else b)"

text \<open>The result of closing is the error of the listener, if there is one.\<close>

definition Close :: "'e option \<Rightarrow> Broker \<Rightarrow> 'e option \<times> Broker" where
  "Close listenerErr b =
     (if br_stopped b then (None, b)
      else let b = cancel_and_close (b\<lparr>br_stopped := True\<rparr>)
           in (if br_listener b then listenerErr else None, b))"

text \<open>\<open>drained\<close> says whether every goroutine has ended before the context did; \<open>ctxErr\<close> is the error of the context.\<close>

definition Shutdown :: "'e option \<Rightarrow> bool \<Rightarrow> 'e \<Rightarrow> Broker \<Rightarrow> 'e option \<times> Broker" where
  "Shutdown listenerErr drained ctxErr b =
     (if br_stopped b then (None, b)
      else let b = b\<lparr>br_stopped := True\<rparr>;
               b = (if br_aal b \<noteq> None then note_effect LogClosed (b\<lparr>br_aalClosed := True\<rparr>) else b);
               b = cancel_and_close b
           in (if drained then (if br_listener b then listenerErr else None) else Some ctxErr, b))"

end
