(* ===== verification/Transport_Loop.thy ===== *)
theory Transport_Loop
  imports Transport
begin

text \<open>
  The read loop of the QUIC broker is correct: with its growing buffer it handles a stream as if all its bytes had come
  at once, every frame once and in order. The specification \<open>process\<close> has all bytes in one buffer. A read buffer that
  is shorter than the pooled arrays stalls the loop.
\<close>

section \<open>Frames do not depend on the buffer they are found in\<close>

text \<open>Whether a buffer starts with a complete frame, and what is done with it, depends on its first bytes only.\<close>

lemma PayloadLen_prefix: "10 \<le> length xs \<Longrightarrow> PayloadLen (xs @ ys) = PayloadLen xs"
  by (simp add: PayloadLen_def slice_append_left)

lemma ParseFrame_prefix:
  assumes "10 + unat (PayloadLen xs) \<le> length xs"
  shows "ParseFrame (xs @ ys) = ParseFrame xs"
proof -
  have "10 \<le> length xs" using assms by simp
  then obtain m c sid n d where b: "xs = m # c # put_u32 sid @ put_u32 n @ d" by (rule buffer_header_split)
  have n: "PayloadLen xs = n" by (simp add: b PayloadLen_def slice_def)
  have len: "unat n \<le> length d" using assms unfolding n by (simp add: b)
  have p: "parse_body c sid n (d @ ys) = parse_body c sid n d"
  proof (cases "unat n < 2")
    case True
    then show ?thesis using len by (simp add: parse_body_def)
  next
    case False
    then have "get_u16 (d @ ys) = get_u16 d" using len by (intro get_u16_append) simp
    then show ?thesis using len by (auto simp: parse_body_def Let_def slice_append_left)
  qed
  have "xs @ ys = m # c # put_u32 sid @ put_u32 n @ (d @ ys)" by (simp add: b)
  then show ?thesis using len p by (simp only: b ParseFrame_header) simp
qed

lemma prepareFrame_shift:
  assumes "consumed \<le> off"
  shows "prepareFrame te s c buf off consumed st = prepareFrame te s c (drop consumed buf) (off - consumed) 0 st"
proof -
  have "slice buf consumed (consumed + n) = slice (drop consumed buf) 0 n" for n by (simp add: slice_def)
  then show ?thesis using assms by (simp only: prepareFrame_def diff_zero drop_0 add_0)
qed

lemma prepareFrame_append:
  assumes p: "prepareFrame te s c bs (length bs) 0 st = (res, st')" and ne: "res \<noteq> Ok None"
    and big: "10 \<le> br_maxBufSize (snd st)"
  shows "prepareFrame te s c (bs @ ys) (length (bs @ ys)) 0 st = (res, st')"
proof -
  have l: "10 \<le> length bs" by (rule ccontr) (use p ne big in \<open>auto simp: prepareFrame_def Let_def split: if_splits\<close>)
  note pl = PayloadLen_prefix [OF l]
  show ?thesis
  proof (cases "10 + unat (PayloadLen bs) \<le> length bs")
    case True
    have sl: "slice (bs @ ys) 0 (0 + (HeaderSize + unat (PayloadLen bs))) = slice bs 0 (0 + (HeaderSize + unat (PayloadLen bs)))"
      using True by simp
    have "prepareFrame te s c (bs @ ys) (length (bs @ ys)) 0 st = prepareFrame te s c bs (length bs) 0 st"
      unfolding prepareFrame_def Let_def drop_0 pl sl ParseFrame_prefix [OF True] using True by simp
    then show ?thesis using p by simp
  next
    case False
    then show ?thesis using p l ne by (auto simp: prepareFrame_def pl Let_def split: if_splits)
  qed
qed

section \<open>The stream as one sequence of bytes\<close>

text \<open>The specification of the read loop: all bytes in one buffer, and what is left of them.\<close>

definition process :: "te_sys \<Rightarrow> stream \<Rightarrow> bytes \<Rightarrow> bytes \<Rightarrow> int \<times> Broker \<Rightarrow>
    (transport_error, bytes) res \<times> int \<times> Broker" where
  "process te s clientID bs st =
     (case dispatch_loop te s clientID bs (length bs) 0 st of
        (Ok consumed, st) \<Rightarrow> (Ok (drop consumed bs), st)
      | (Err e, st) \<Rightarrow> (Err e, st)
      | (Panic, st) \<Rightarrow> (Panic, st))"

definition next_state :: "te_sys \<Rightarrow> stream \<Rightarrow> bytes \<Rightarrow> Frame \<Rightarrow> int \<times> Broker \<Rightarrow> int \<times> Broker" where
  "next_state te s clientID frame st =
     (case st of (db, b) \<Rightarrow>
        (db, (routeFrame (te_env te (br_tick b)) s clientID frame b)\<lparr>br_tick := Suc (br_tick b)\<rparr>))"

definition shift_res :: "nat \<Rightarrow> (transport_error, nat) res \<times> int \<times> Broker \<Rightarrow> (transport_error, nat) res \<times> int \<times> Broker" where
  "shift_res k x = (case x of (Ok n, st) \<Rightarrow> (Ok (k + n), st) | (Err e, st) \<Rightarrow> (Err e, st) | (Panic, st) \<Rightarrow> (Panic, st))"

lemma dispatch_loop_shift:
  "consumed \<le> off \<Longrightarrow> dispatch_loop te s c buf off consumed st =
     shift_res consumed (dispatch_loop te s c (drop consumed buf) (off - consumed) 0 st)"
proof (induction "off - consumed" arbitrary: buf off consumed st rule: less_induct)
  case less
  note sh = prepareFrame_shift [OF less.prems, of te s c buf st]
  show ?case
  proof (cases "consumed < off")
    case True
    obtain r st' where p: "prepareFrame te s c buf off consumed st = (r, st')" by (cases "prepareFrame te s c buf off consumed st")
    show ?thesis
    proof (cases "\<exists>f n. r = Ok (Some (f, n))")
      case False
      then show ?thesis
        using True p unfolding dispatch_loop.simps [of te s c buf off consumed st]
          dispatch_loop.simps [of te s c "drop consumed buf" "off - consumed" 0 st] sh [symmetric]
        by (cases st') (auto simp: shift_res_def split: res.splits option.splits)
    next
      case True1: True
      then obtain f n where r: "r = Ok (Some (f, n))" by blast
      obtain db b where st': "st' = (db, b)" by (cases st')
      have n: "10 \<le> n" "n \<le> off - consumed" using prepareFrame_progress p r by blast+
      let ?st = "next_state te s c f st'"
      have "dispatch_loop te s c buf off (consumed + n) ?st =
          shift_res (consumed + n) (dispatch_loop te s c (drop (consumed + n) buf) (off - (consumed + n)) 0 ?st)"
        using n True by (intro less.hyps) simp_all
      moreover have "dispatch_loop te s c (drop consumed buf) (off - consumed) n ?st =
          shift_res n (dispatch_loop te s c (drop n (drop consumed buf)) (off - consumed - n) 0 ?st)"
        using n True by (intro less.hyps) simp_all
      ultimately show ?thesis
        using True p r st' unfolding dispatch_loop.simps [of te s c buf off consumed st]
          dispatch_loop.simps [of te s c "drop consumed buf" "off - consumed" 0 st] sh [symmetric]
        by (simp add: next_state_def shift_res_def ac_simps split: res.split prod.split)
    qed
  next
    case False
    then show ?thesis
      using less.prems by (simp add: dispatch_loop.simps [of te s c buf off off st] dispatch_loop.simps [of _ _ _ _ 0 0] shift_res_def)
  qed
qed

lemma process_rec:
  "process te s c bs st =
     (if bs = [] then (Ok [], st)
      else case prepareFrame te s c bs (length bs) 0 st of
        (Ok (Some (f, n)), st) \<Rightarrow> process te s c (drop n bs) (next_state te s c f st)
      | (Ok None, st) \<Rightarrow> (Ok bs, st)
      | (Err e, st) \<Rightarrow> (Err e, st)
      | (Panic, st) \<Rightarrow> (Panic, st))"
proof (cases "bs = []")
  case False
  obtain r st' where p: "prepareFrame te s c bs (length bs) 0 st = (r, st')" by (cases "prepareFrame te s c bs (length bs) 0 st")
  show ?thesis
  proof (cases "\<exists>f n. r = Ok (Some (f, n))")
    case True
    then obtain f n db b where r: "r = Ok (Some (f, n))" "st' = (db, b)" by (cases st') blast
    have n: "n \<le> length bs" using prepareFrame_progress p r by fastforce
    show ?thesis
      using False p r dispatch_loop_shift [OF n, of te s c bs "next_state te s c f st'"]
      by (simp add: process_def dispatch_loop.simps [of te s c bs "length bs" 0 st] next_state_def shift_res_def
          ac_simps split: res.split prod.split)
  next
    case False1: False
    then show ?thesis
      using False p by (cases st') (auto simp: process_def dispatch_loop.simps [of te s c bs "length bs" 0 st] split: res.splits option.splits)
  qed
qed (simp add: process_def dispatch_loop.simps)

text \<open>Handling frames leaves the configuration of the broker alone.\<close>

definition same_config :: "Broker \<Rightarrow> Broker \<Rightarrow> bool" where
  "same_config b b' \<longleftrightarrow> br_handlers b' = br_handlers b \<and> br_aalClosed b' = br_aalClosed b \<and> br_authz b' = br_authz b \<and>
     br_listener b' = br_listener b \<and> br_cancel b' = br_cancel b \<and> br_stopped b' = br_stopped b \<and>
     br_readBufSize b' = br_readBufSize b \<and> br_maxBufSize b' = br_maxBufSize b \<and> br_tracer b' = br_tracer b \<and>
     br_compression b' = br_compression b \<and> br_maxDecompressedPerStream b' = br_maxDecompressedPerStream b"

lemma same_config_refl [simp]: "same_config b b"
  by (simp add: same_config_def)

lemma same_config_trans: "same_config b b' \<Longrightarrow> same_config b' b'' \<Longrightarrow> same_config b b''"
  by (simp add: same_config_def)

lemma small_config [simp]:
  "same_config b (note_effect e b)" "same_config b (with_router g b)" "same_config b (b\<lparr>br_tick := k\<rparr>)"
  "same_config b (cancel_stream s n b)" "same_config b (startPublishSpan nm fr ba b)"
  by (simp_all add: same_config_def note_effect_def with_router_def cancel_stream_def startPublishSpan_def
      split: res.split option.split prod.split)

lemma routeFrame_config: "same_config b (routeFrame env s c fr b)"
proof -
  have "same_config b (with_router g (startPublishSpan nm fr ba b))" for g nm ba
    by (rule same_config_trans [of _ "startPublishSpan nm fr ba b"]) simp_all
  then show ?thesis
    by (auto simp: routeFrame_def handleForwardedFrame_def handleLocalFrame_def call_handler_def sendResponse_def
        Let_def split: option.splits prod.splits)
qed

lemma log_frame_config: "log_frame te cmd raw b = Ok b' \<Longrightarrow> same_config b b' \<and> br_router b' = br_router b \<and>
    br_tick b' = br_tick b \<and> br_effects b' = br_effects b"
  by (auto simp: log_frame_def same_config_def split: if_splits prod.splits res.splits)

lemma admitFrame_config: "admitFrame te s c fr raw st = (r, st') \<Longrightarrow> same_config (snd st) (snd st') \<and>
    br_router (snd st') = br_router (snd st) \<and> br_tick (snd st') = br_tick (snd st)"
  by (auto simp: admitFrame_def note_effect_def cancel_stream_def split: prod.splits res.splits if_splits
      dest!: log_frame_config)
    (simp_all add: same_config_def)

lemma prepareFrame_config:
  assumes "prepareFrame te s c buf off k st = (r, st')"
  shows "same_config (snd st) (snd st')" "br_router (snd st') = br_router (snd st)" "br_tick (snd st') = br_tick (snd st)"
    "r = Ok None \<Longrightarrow> st' = st"
  using assms
  by (auto simp: prepareFrame_def Let_def split: prod.splits res.splits if_splits dest!: admitFrame_config)

lemma next_state_config: "same_config (snd st) (snd (next_state te s c fr st))"
  by (cases st) (use routeFrame_config in \<open>auto simp: next_state_def same_config_def\<close>)

text \<open>Bytes can be handled in two parts.\<close>

lemma process_append:
  assumes "10 \<le> br_maxBufSize (snd st)"
  shows "process te s c (bs @ more_bs) st =
    (case process te s c bs st of
       (Ok rest, st') \<Rightarrow> process te s c (rest @ more_bs) st'
     | (Err e, st') \<Rightarrow> (Err e, st')
     | (Panic, st') \<Rightarrow> (Panic, st'))"
  using assms
proof (induction "length bs" arbitrary: bs st rule: less_induct)
  case less
  show ?case
  proof (cases "bs = []")
    case False
    obtain r st' where p: "prepareFrame te s c bs (length bs) 0 st = (r, st')" by (cases "prepareFrame te s c bs (length bs) 0 st")
    show ?thesis
    proof (cases "r = Ok None")
      case True
      then show ?thesis using False p prepareFrame_config(4) [OF p] by (simp add: process_rec [of te s c bs st])
    next
      case ne: False
      note p2 = prepareFrame_append [OF p ne less.prems, of more_bs]
      show ?thesis
      proof (cases "\<exists>f n. r = Ok (Some (f, n))")
        case True
        then obtain f n where r: "r = Ok (Some (f, n))" by blast
        have n: "0 < n" "n \<le> length bs" using prepareFrame_progress p r by fastforce+
        have "10 \<le> br_maxBufSize (snd (next_state te s c f st'))"
          using less.prems prepareFrame_config(1) [OF p] next_state_config [of st' te s c f] by (simp add: same_config_def)
        then have "process te s c (drop n bs @ more_bs) (next_state te s c f st') =
            (case process te s c (drop n bs) (next_state te s c f st') of
               (Ok rest, st') \<Rightarrow> process te s c (rest @ more_bs) st'
             | (Err e, st') \<Rightarrow> (Err e, st') | (Panic, st') \<Rightarrow> (Panic, st'))"
          using n False by (intro less.hyps) simp_all
        then show ?thesis
          using False p p2 r n by (simp add: process_rec [of te s c bs st] process_rec [of te s c "bs @ more_bs" st])
      next
        case stop: False
        then show ?thesis
          using False p p2 ne by (auto simp: process_rec [of te s c bs st] process_rec [of te s c "bs @ more_bs" st]
              split: res.splits option.splits)
      qed
    qed
  qed (simp add: process_rec [of te s c "[]"])
qed

lemma process_config: "process te s c bs st = (r, st') \<Longrightarrow> same_config (snd st) (snd st')"
proof (induction "length bs" arbitrary: bs st rule: less_induct)
  case less
  show ?case
  proof (cases "bs = []")
    case False
    obtain r1 st1 where p: "prepareFrame te s c bs (length bs) 0 st = (r1, st1)" by (cases "prepareFrame te s c bs (length bs) 0 st")
    note c1 = prepareFrame_config(1) [OF p]
    show ?thesis
    proof (cases "\<exists>f n. r1 = Ok (Some (f, n))")
      case True
      then obtain f n where r: "r1 = Ok (Some (f, n))" by blast
      have n: "0 < n" "n \<le> length bs" using prepareFrame_progress p r by fastforce+
      have "same_config (snd (next_state te s c f st1)) (snd st')"
        using less.prems False p r n by (intro less.hyps [of "drop n bs"]) (simp_all add: process_rec [of te s c bs st])
      then show ?thesis using same_config_trans [OF same_config_trans [OF c1 next_state_config]] by blast
    next
      case stop: False
      then show ?thesis using less.prems False p c1
        by (auto simp: process_rec [of te s c bs st] split: res.splits option.splits)
    qed
  qed (use less.prems in \<open>simp add: process_rec [of te s c "[]"]\<close>)
qed

section \<open>The read loop\<close>

text \<open>Bytes without a complete frame at the front are left as they are, and are fewer than the largest buffer.\<close>

definition settled :: "te_sys \<Rightarrow> stream \<Rightarrow> bytes \<Rightarrow> bytes \<Rightarrow> int \<times> Broker \<Rightarrow> bool" where
  "settled te s clientID bs st \<longleftrightarrow> process te s clientID bs st = (Ok bs, st)"

lemma process_settled: "process te s c bs st = (Ok rest, st') \<Longrightarrow> settled te s c rest st'"
proof (induction "length bs" arbitrary: bs st rule: less_induct)
  case less
  show ?case
  proof (cases "bs = []")
    case False
    obtain r1 st1 where p: "prepareFrame te s c bs (length bs) 0 st = (r1, st1)" by (cases "prepareFrame te s c bs (length bs) 0 st")
    show ?thesis
    proof (cases "\<exists>f n. r1 = Ok (Some (f, n))")
      case True
      then obtain f n where r: "r1 = Ok (Some (f, n))" by blast
      have n: "0 < n" "n \<le> length bs" using prepareFrame_progress p r by fastforce+
      show ?thesis
        using less.prems False p r n by (intro less.hyps [of "drop n bs"]) (simp_all add: process_rec [of te s c bs st])
    next
      case stop: False
      then have "r1 = Ok None" "rest = bs" "st' = st1"
        using less.prems False p by (auto simp: process_rec [of te s c bs st] split: res.splits option.splits)
      then show ?thesis using p False prepareFrame_config(4) [OF p] by (simp add: settled_def process_rec [of te s c bs])
    qed
  qed (use less.prems in \<open>auto simp: process_rec [of te s c "[]"] settled_def\<close>)
qed

lemma settled_small:
  assumes "settled te s c bs st" "10 \<le> br_maxBufSize (snd st)"
  shows "int (length bs) < br_maxBufSize (snd st)"
proof (cases "bs = []")
  case False
  obtain r1 st1 where p: "prepareFrame te s c bs (length bs) 0 st = (r1, st1)" by (cases "prepareFrame te s c bs (length bs) 0 st")
  show ?thesis
  proof (cases "\<exists>f n. r1 = Ok (Some (f, n))")
    case True
    then obtain f n where r: "r1 = Ok (Some (f, n))" by blast
    have n: "0 < n" "n \<le> length bs" using prepareFrame_progress p r by fastforce+
    have "process te s c (drop n bs) (next_state te s c f st1) = (Ok bs, st)"
      using assms(1) False p r by (simp add: settled_def process_rec [of te s c bs])
    moreover have "length rest \<le> length xs" if "process te s c xs x = (Ok rest, x')" for xs x rest x'
      using that by (auto simp: process_def split: prod.splits res.splits)
    ultimately have "length bs \<le> length (drop n bs)" by blast
    then show ?thesis using n by simp
  next
    case stop: False
    then have "r1 = Ok None"
      using assms(1) False p by (auto simp: settled_def process_rec [of te s c bs st] split: res.splits option.splits)
    then have "length bs < 10 \<or> length bs < 10 + unat (PayloadLen bs) \<and> 10 + uint (PayloadLen bs) \<le> br_maxBufSize (snd st)"
      using p by (auto simp: prepareFrame_def Let_def split: if_splits res.splits prod.splits)
    moreover have "int (unat (PayloadLen bs)) = uint (PayloadLen bs)" by simp
    ultimately show ?thesis using assms(2) by linarith
  qed
qed (use assms in simp)

lemma process_suffix: "process te s c bs st = (Ok rest, st') \<Longrightarrow> \<exists>k. rest = drop k bs"
  by (auto simp: process_def split: prod.splits res.splits)

definition content_of :: "rbuf \<Rightarrow> nat \<Rightarrow> bytes" where
  "content_of buf off = take off (rb_data buf)"

lemma copy_front: "length xs \<le> length d \<Longrightarrow> copy_into d 0 xs = xs @ drop (length xs) d"
  by (simp add: copy_into_def write_at_def)

lemma dispatch_buffer_eq:
  assumes "off \<le> cap buf"
  shows "dispatch_buffer te s c buf off st =
    (case process te s c (content_of buf off) st of
       (Ok rest, (db, b)) \<Rightarrow> Reading (buf\<lparr>rb_data := rest @ drop (length rest) (rb_data buf)\<rparr>) (length rest) db b
     | (Err e, (db, b)) \<Rightarrow> Torn_down db (handleDispatchError s e b)
     | (Panic, (db, b)) \<Rightarrow> Crashed db b)"
proof -
  let ?d = "take off (rb_data buf)"
  have len: "length ?d = off" using assms by simp
  have e: "write_at (rb_data buf) 0 (copy_into ?d 0 (slice ?d k off)) =
      drop k ?d @ drop (length (drop k ?d)) (rb_data buf)" for k
  proof -
    have sl: "slice ?d k off = drop k ?d" using len by (simp add: slice_def)
    have "write_at (rb_data buf) 0 (drop k ?d @ drop (length (drop k ?d)) ?d) =
        drop k ?d @ (drop (length (drop k ?d)) ?d @ drop off (rb_data buf))"
      using len by (simp add: write_at_def)
    also have "drop (length (drop k ?d)) ?d @ drop off (rb_data buf) = drop (length (drop k ?d)) (?d @ drop off (rb_data buf))"
      by (simp only: drop_append len length_drop diff_diff_left) simp
    finally show ?thesis unfolding sl by (simp only: copy_front length_drop diff_le_self append_take_drop_id)
  qed
  have "off - k = length (drop k ?d)" for k using len by simp
  then show ?thesis
    unfolding dispatch_buffer_def dispatchFrames_def process_def content_of_def len
    by (auto simp: e split: prod.split res.split)
qed

text \<open>A buffer whose slice covers its array; growing keeps the content and makes room.\<close>

definition wf_buf :: "rbuf \<Rightarrow> nat \<Rightarrow> bool" where
  "wf_buf buf off \<longleftrightarrow> rb_len buf = cap buf \<and> off \<le> cap buf \<and> 0 < cap buf"

lemma growBuffer_facts:
  assumes "wf_buf buf off" "int (cap buf) < br_maxBufSize b"
  shows "wf_buf (growBuffer b buf) off" "content_of (growBuffer b buf) off = content_of buf off" "cap buf < cap (growBuffer b buf)"
proof -
  define n where "n = (if int (cap buf * 2) > br_maxBufSize b then nat (br_maxBufSize b) else cap buf * 2)"
  have n: "cap buf < n" using assms by (auto simp: n_def wf_buf_def)
  have "growBuffer b buf = \<lparr>rb_data = rb_data buf @ replicate (n - cap buf) 0, rb_len = n\<rparr>"
    unfolding growBuffer_def Let_def n_def [symmetric] using n by (simp add: copy_front)
  then show "wf_buf (growBuffer b buf) off" "content_of (growBuffer b buf) off = content_of buf off" "cap buf < cap (growBuffer b buf)"
    using n assms(1) by (simp_all add: wf_buf_def content_of_def)
qed

text \<open>The loop top: when the buffer is full of an incomplete frame, it grows, and there is room for the next read.\<close>

lemma loop_top:
  assumes wf: "wf_buf buf off" and st: "settled te s c (content_of buf off) (db, b)" and big: "10 \<le> br_maxBufSize b"
  obtains buf' where
    "(if off = cap buf then drainAndMaybeGrow te s c buf off (db, b) else Reading buf off db b) = Reading buf' off db b"
    "wf_buf buf' off" "content_of buf' off = content_of buf off" "off < cap buf'"
proof (cases "off = cap buf")
  case True
  have c: "content_of buf off = rb_data buf" using True by (simp add: content_of_def)
  have small: "int (cap buf) < br_maxBufSize b" using settled_small [OF st] big c by simp
  have "dispatch_buffer te s c buf off (db, b) = Reading buf off db b"
    using st c dispatch_buffer_eq [of off buf te s c "(db, b)"] True by (simp add: settled_def)
  then have "drainAndMaybeGrow te s c buf off (db, b) = Reading (growBuffer b buf) off db b"
    using True small by (simp add: drainAndMaybeGrow_def)
  then show ?thesis using that growBuffer_facts [OF wf small] True by simp
next
  case False
  then show ?thesis using that [of buf] wf by (simp add: wf_buf_def)
qed

text \<open>What the loop has made of the bytes it was given, in terms of the specification.\<close>

fun implements :: "stream \<Rightarrow> outcome \<Rightarrow> (transport_error, bytes) res \<times> int \<times> Broker \<Rightarrow> bool" where
  "implements s (Reading buf off db b) x \<longleftrightarrow> wf_buf buf off \<and> x = (Ok (content_of buf off), db, b)"
| "implements s (Torn_down db b) x \<longleftrightarrow> (\<exists>e b'. x = (Err e, db, b') \<and> b = handleDispatchError s e b')"
| "implements s (Crashed db b) x \<longleftrightarrow> x = (Panic, db, b)"

lemma dispatch_read:
  assumes wf: "wf_buf buf off" and n: "length got \<le> cap buf - off"
  defines "buf' \<equiv> buf\<lparr>rb_data := write_at (rb_data buf) off got\<rparr>"
  shows "implements s (dispatch_buffer te s c buf' (off + length got) st) (process te s c (content_of buf off @ got) st)"
proof -
  have d: "rb_data buf' = content_of buf off @ got @ drop (off + length got) (rb_data buf)"
    by (simp add: buf'_def write_at_def content_of_def)
  have len: "cap buf' = cap buf" "rb_len buf' = rb_len buf" "length (content_of buf off) = off"
    using wf n by (auto simp: buf'_def content_of_def write_at_def wf_buf_def)
  have cont: "content_of buf' (off + length got) = content_of buf off @ got"
    using len(3) by (simp add: content_of_def [of buf'] d)
  have "off + length got \<le> cap buf'" using wf n len by (auto simp: wf_buf_def)
  note e = dispatch_buffer_eq [OF this, of te s c st, unfolded cont]
  obtain r db b where p: "process te s c (content_of buf off @ got) st = (r, db, b)"
    by (cases "process te s c (content_of buf off @ got) st") auto
  show ?thesis
  proof (cases r)
    case (Ok rest)
    have "length rest \<le> off + length got" using process_suffix [of te s c _ st rest "(db, b)"] p Ok len(3) by fastforce
    moreover have "off + length got \<le> cap buf" using wf n by (auto simp: wf_buf_def)
    ultimately show ?thesis using p Ok len wf by (simp add: e wf_buf_def content_of_def)
  qed (use p in \<open>simp_all add: e\<close>)
qed

lemma implements_append:
  assumes "10 \<le> br_maxBufSize (snd st)" "\<not> (\<exists>x. fst (process te s c bs st) = Ok x)"
  shows "process te s c (bs @ ys) st = process te s c bs st"
  using process_append [OF assms(1), of te s c bs ys] assms(2) by (cases "process te s c bs st") (auto split: res.split)

text \<open>One turn of the loop: what it reads, and that it reads something when there is something.\<close>

lemma loop_turn:
  assumes "wf_buf buf off" "settled te s c (content_of buf off) (db, b)" "10 \<le> br_maxBufSize b"
  obtains got res inp' where
    "read_step te s c k inp
       (if off = cap buf then drainAndMaybeGrow te s c buf off (db, b) else Reading buf off db b) = (res, inp')"
    "inp = got @ inp'" "0 < k \<Longrightarrow> inp \<noteq> [] \<Longrightarrow> got \<noteq> []"
    "implements s res (process te s c (content_of buf off @ got) (db, b))"
proof -
  obtain buf1 where top: "(if off = cap buf then drainAndMaybeGrow te s c buf off (db, b) else Reading buf off db b) = Reading buf1 off db b"
    "wf_buf buf1 off" "content_of buf1 off = content_of buf off" "off < cap buf1"
    by (rule loop_top [OF assms])
  define n where "n = read_count k buf1 off inp"
  define got where "got = take n inp"
  define res where "res = (if n > 0
      then dispatch_buffer te s c (buf1\<lparr>rb_data := write_at (rb_data buf1) off got\<rparr>) (off + n) (db, b) else Reading buf1 off db b)"
  have n: "length got \<le> cap buf1 - off" "length got = n" using top(2) by (auto simp: n_def got_def read_count_def wf_buf_def)
  have "implements s res (process te s c (content_of buf off @ got) (db, b))"
    using dispatch_read [OF top(2) n(1), of s te c "(db, b)"] n(2) top(2,3) assms(2)
    by (cases "n > 0") (auto simp: res_def settled_def)
  moreover have "read_step te s c k inp (Reading buf1 off db b) = (res, drop n inp)"
    by (simp add: read_step_def Let_def n_def res_def got_def)
  moreover have "got \<noteq> []" if "0 < k" "inp \<noteq> []"
    using that top(2,4) by (auto simp: got_def n_def read_count_def wf_buf_def)
  moreover have "inp = got @ drop n inp" by (simp add: got_def)
  ultimately show thesis unfolding top(1) by (intro that [unfolded top(1)])
qed

text \<open>However the bytes arrive, the loop does what the specification does with the bytes it was given; a failing
  read ends it.\<close>

lemma loop_refines:
  assumes "wf_buf buf off" "settled te s c (content_of buf off) (db, b)" "10 \<le> br_maxBufSize b"
    and "runStreamReadLoop te s c evs inp (Reading buf off db b) = (out, inp')"
  shows "\<exists>got. inp = got @ inp' \<and> (implements s out (process te s c (content_of buf off @ got) (db, b)) \<or>
    (\<exists>ev rest db' b'. ev \<in> set evs \<and> snd ev \<and> process te s c (content_of buf off @ got) (db, b) = (Ok rest, db', b') \<and>
       out = Torn_down db' b'))"
  using assms
proof (induction evs arbitrary: buf off db b inp)
  case Nil
  then show ?case by (auto simp: settled_def)
next
  case (Cons ev evs)
  obtain k err where ev: "ev = (k, err)" by (cases ev)
  obtain got res inp1 where t: "read_step te s c k inp
       (if off = cap buf then drainAndMaybeGrow te s c buf off (db, b) else Reading buf off db b) = (res, inp1)"
    "inp = got @ inp1" "implements s res (process te s c (content_of buf off @ got) (db, b))"
    by (rule loop_turn [OF Cons.prems(1-3), of k inp]) blast
  show ?case
  proof (cases res)
    case (Reading buf2 off2 db2 b2)
    then have p: "process te s c (content_of buf off @ got) (db, b) = (Ok (content_of buf2 off2), db2, b2)" "wf_buf buf2 off2"
      using t(3) by simp_all
    have big: "10 \<le> br_maxBufSize b2" using process_config [OF p(1)] Cons.prems(3) by (simp add: same_config_def)
    show ?thesis
    proof (cases err)
      case True
      then show ?thesis using Cons.prems(4) t(1,2) Reading p by (intro exI [of _ got]) (auto simp: ev)
    next
      case False
      then have "runStreamReadLoop te s c evs inp1 (Reading buf2 off2 db2 b2) = (out, inp')"
        using Cons.prems(4) t(1) Reading by (simp add: ev)
      note ih = Cons.IH [OF p(2) process_settled [OF p(1)] big this]
      have "process te s c (content_of buf off @ got @ got2) (db, b) = process te s c (content_of buf2 off2 @ got2) (db2, b2)" for got2
        using process_append [of "(db, b)" te s c "content_of buf off @ got" got2] Cons.prems(3) p(1) by simp
      then show ?thesis using ih t(2) by (metis append_assoc list.set_intros(2))
    qed
  qed (use Cons.prems(4) t in \<open>auto simp: ev intro!: exI [of _ got]\<close>)
qed

text \<open>Every read without an error moves the stream on, so that enough reads give all of it.\<close>

lemma loop_reads_all:
  assumes "wf_buf buf off" "settled te s c (content_of buf off) (db, b)" "10 \<le> br_maxBufSize b"
    and "\<forall>(k, err)\<in>set evs. 0 < k \<and> \<not> err" "length inp \<le> length evs"
    and "runStreamReadLoop te s c evs inp (Reading buf off db b) = (Reading buf' off' db' b', inp')"
  shows "inp' = []"
  using assms
proof (induction evs arbitrary: buf off db b inp)
  case (Cons ev evs)
  obtain k where ev: "ev = (k, False)" "0 < k" using Cons.prems(4) by (cases ev) auto
  obtain got res inp1 where t: "read_step te s c k inp
       (if off = cap buf then drainAndMaybeGrow te s c buf off (db, b) else Reading buf off db b) = (res, inp1)"
    "inp = got @ inp1" "inp \<noteq> [] \<Longrightarrow> got \<noteq> []" "implements s res (process te s c (content_of buf off @ got) (db, b))"
    using loop_turn [OF Cons.prems(1-3), of k inp] ev(2) by (metis (lifting))
  obtain buf2 off2 db2 b2 where r: "res = Reading buf2 off2 db2 b2"
    using Cons.prems(6) t(1) by (cases res) (simp_all add: ev)
  then have p: "process te s c (content_of buf off @ got) (db, b) = (Ok (content_of buf2 off2), db2, b2)" "wf_buf buf2 off2"
    using t(4) by simp_all
  have big: "10 \<le> br_maxBufSize b2" using process_config [OF p(1)] Cons.prems(3) by (simp add: same_config_def)
  have run: "runStreamReadLoop te s c evs inp1 (Reading buf2 off2 db2 b2) = (Reading buf' off' db' b', inp')"
    using Cons.prems(6) t(1) r by (simp add: ev)
  have len: "length inp1 \<le> length evs" using Cons.prems(5) t(2,3) by (cases "inp = []"; cases got) auto
  show ?case using Cons.IH [OF p(2) process_settled [OF p(1)] big _ len run] Cons.prems(4) by simp
qed auto

section \<open>A stream of frames\<close>

text \<open>The frames of a stream, one after the other, until one is refused.\<close>

fun handle_frames :: "te_sys \<Rightarrow> stream \<Rightarrow> bytes \<Rightarrow> Frame list \<Rightarrow> int \<times> Broker \<Rightarrow> (transport_error, unit) res \<times> int \<times> Broker" where
  "handle_frames te s clientID [] st = (Ok (), st)"
| "handle_frames te s clientID (f # fs) st =
     (case admitFrame te s clientID f (enc_frame f) st of
        (Ok _, st) \<Rightarrow> handle_frames te s clientID fs (next_state te s clientID f st)
      | (Err e, st) \<Rightarrow> (Err e, st)
      | (Panic, st) \<Rightarrow> (Panic, st))"

definition fits :: "int \<Rightarrow> Frame \<Rightarrow> bool" where
  "fits maxBuf f \<longleftrightarrow> wf_frame f \<and> int (Size f) \<le> maxBuf"

lemma prepareFrame_enc:
  assumes "fits (br_maxBufSize (snd st)) f"
  shows "prepareFrame te s c (enc_frame f @ ys) (length (enc_frame f @ ys)) 0 st =
    (case admitFrame te s c f (enc_frame f) st of
       (Ok _, st) \<Rightarrow> (Ok (Some (f, length (enc_frame f))), st)
     | (Err e, st) \<Rightarrow> (Err e, st)
     | (Panic, st) \<Rightarrow> (Panic, st))"
proof -
  have wf: "wf_frame f" and sz: "int (Size f) \<le> br_maxBufSize (snd st)" using assms by (simp_all add: fits_def)
  have len: "length (enc_frame f) = HeaderSize + unat (DataLen f)" using length_enc_frame [OF wf] by simp
  have pl: "PayloadLen (enc_frame f @ ys) = DataLen f"
    by (simp add: PayloadLen_def enc_frame_def header_bytes_def slice_def)
  have sl: "slice (enc_frame f @ ys) 0 (HeaderSize + unat (DataLen f)) = enc_frame f"
    unfolding len [symmetric] by (simp add: slice_zero)
  have "\<not> int (unat (DataLen f)) > br_maxBufSize (snd st)" "\<not> int (HeaderSize + unat (DataLen f)) > br_maxBufSize (snd st)"
    using sz by (simp_all add: Size_def)
  then show ?thesis
    unfolding prepareFrame_def Let_def drop_0 pl add_0 sl diff_zero length_append len
    by (simp only: ParseFrame_enc_frame [OF wf] res.case) (simp add: HeaderSize_def)
qed

lemma process_frames:
  assumes "\<forall>f\<in>set fs. fits (br_maxBufSize (snd st)) f"
  shows "process te s c (concat (map enc_frame fs)) st =
    (case handle_frames te s c fs st of
       (Ok _, st) \<Rightarrow> (Ok [], st) | (Err e, st) \<Rightarrow> (Err e, st) | (Panic, st) \<Rightarrow> (Panic, st))"
  using assms
proof (induction fs arbitrary: st)
  case Nil
  show ?case by (simp add: process_rec [of te s c "[]"])
next
  case (Cons f fs)
  let ?ys = "concat (map enc_frame fs)"
  obtain r st1 where a: "admitFrame te s c f (enc_frame f) st = (r, st1)" by (cases "admitFrame te s c f (enc_frame f) st")
  have ne: "enc_frame f \<noteq> []" by (simp add: enc_frame_def header_bytes_def)
  have fit: "fits (br_maxBufSize (snd st)) f" using Cons.prems by simp
  note p = prepareFrame_enc [OF this, of te s c ?ys]
  have "br_maxBufSize (snd (next_state te s c f st1)) = br_maxBufSize (snd st)"
    using admitFrame_config [OF a] next_state_config [of st1 te s c f] by (simp add: same_config_def)
  then have ih: "process te s c ?ys (next_state te s c f st1) =
      (case handle_frames te s c fs (next_state te s c f st1) of
         (Ok _, st) \<Rightarrow> (Ok [], st) | (Err e, st) \<Rightarrow> (Err e, st) | (Panic, st) \<Rightarrow> (Panic, st))"
    using Cons.prems by (intro Cons.IH) simp
  show ?case
    using p a ne ih by (cases r) (simp_all add: process_rec [of te s c "enc_frame f @ ?ys" st])
qed

text \<open>C1: A stream of frames is handled once, completely and in order, however QUIC cuts it into reads and however the
  buffer has to grow. For frames that fit the configured maximum, and any sequence of reads that brings all bytes, the
  read loop ends with an empty buffer in exactly the state that handling the frames one by one gives; if a frame is
  refused, the stream is torn down in the state of that refusal and no later frame has any effect.\<close>

theorem stream_handles_frames:
  assumes "\<forall>f\<in>set fs. fits (br_maxBufSize b) f" "10 \<le> br_maxBufSize b" "wf_buf buf 0"
    and "\<forall>(k, err)\<in>set evs. 0 < k \<and> \<not> err" "length (concat (map enc_frame fs)) \<le> length evs"
  shows "case handle_frames te s c fs (db, b) of
      (Ok _, (db', b')) \<Rightarrow> \<exists>buf'. runStreamReadLoop te s c evs (concat (map enc_frame fs)) (Reading buf 0 db b) = (Reading buf' 0 db' b', [])
    | (Err e, (db', b')) \<Rightarrow>
        fst (runStreamReadLoop te s c evs (concat (map enc_frame fs)) (Reading buf 0 db b)) = Torn_down db' (handleDispatchError s e b')
    | (Panic, (db', b')) \<Rightarrow> fst (runStreamReadLoop te s c evs (concat (map enc_frame fs)) (Reading buf 0 db b)) = Crashed db' b'"
proof -
  let ?inp = "concat (map enc_frame fs)"
  obtain out inp' where run: "runStreamReadLoop te s c evs ?inp (Reading buf 0 db b) = (out, inp')"
    by (cases "runStreamReadLoop te s c evs ?inp (Reading buf 0 db b)")
  have e: "content_of buf 0 = []" by (simp add: content_of_def)
  have st: "settled te s c (content_of buf 0) (db, b)" by (simp add: e settled_def process_rec [of te s c "[]"])
  obtain got where g: "?inp = got @ inp'" "implements s out (process te s c got (db, b))"
    using loop_refines [OF assms(3) st assms(2) run] assms(4) e by fastforce
  note pf = process_frames [of fs "(db, b)" te s c, unfolded snd_conv, OF assms(1)]
  have full: "process te s c ?inp (db, b) = process te s c got (db, b)"
  proof (cases out)
    case Reading
    then show ?thesis using loop_reads_all [OF assms(3) st assms(2,4,5)] run g(1) by simp
  qed (use g implements_append [of "(db, b)" te s c got inp'] assms(2) in auto)
  obtain r db' b' where h: "handle_frames te s c fs (db, b) = (r, db', b')" by (cases "handle_frames te s c fs (db, b)") auto
  have imp: "implements s out (case r of Ok _ \<Rightarrow> (Ok [], db', b') | Err e \<Rightarrow> (Err e, db', b') | Panic \<Rightarrow> (Panic, db', b'))"
    using g(2) unfolding full [symmetric] pf h by (cases r) simp_all
  show ?thesis
  proof (cases out)
    case (Reading buf2 off2 db2 b2)
    then have "r = Ok ()" "off2 = 0" "db2 = db'" "b2 = b'"
      using imp by (cases r; auto simp: content_of_def wf_buf_def)+
    moreover have "inp' = []" using loop_reads_all [OF assms(3) st assms(2,4,5)] run Reading by simp
    ultimately show ?thesis using run Reading h by simp
  qed (use imp run h in \<open>cases r; auto\<close>)+
qed

definition te0 :: te_sys where
  "te0 = \<lparr>te_env = (\<lambda>_. env0), te_short = (\<lambda>_. None), te_cipher = toy_cipher\<rparr>"

definition stream0 :: stream where "stream0 = \<lparr>s_obj = 7, s_id = 5\<rparr>"

definition broker0 :: Broker where "broker0 = New (\<lambda>_. None) [WithRouter (Some demo1)]"

definition publish_a :: Frame where "publish_a = frame_of CmdPublish topic_a"

lemma broker0_fields: "br_maxBufSize broker0 = 65536" "br_router broker0 = Some demo1" "br_authz broker0 = None"
  "br_aal broker0 = None" "br_compression broker0 = None" "br_tick broker0 = 0" "br_tracer broker0 = False"
  by (simp_all add: broker0_def New_def WithRouter_def defaultMaxBufSize_def)

lemma broker0_limit: "br_maxDecompressedPerStream broker0 = 16777216" "\<not> br_aalClosed broker0"
  by (simp_all add: broker0_def New_def WithRouter_def defaultMaxDecompressedPerStream_def)

lemma publish_a_fits: "fits 65536 publish_a" "length (enc_frame publish_a) = 11"
  using topic_a_plain(3)
  by (simp_all add: fits_def publish_a_def frame_of_def wf_frame_def valid_opcode_def OpcodeOf_def CmdPublish_def Size_def
      DataLen_def MeshForwardedBit_def HasExtensionsBit_def enc_frame_def CmdNack_def)

lemma broker0_publish:
  "handle_frames te0 stream0 [] [publish_a] (0, broker0) = (Ok (), 0, broker0\<lparr>br_router := Some demo2, br_tick := 1\<rparr>)"
  by (simp add: admitFrame_def decompressFrame_def authorized_def log_frame_def broker0_fields next_state_def routeFrame_def
      handleLocalFrame_def startPublishSpan_def with_router_def publish_a_def frame_of_def te0_def demo2_def
      IsForwarded_def OpcodeOf_def wire_consts)

theorem stream_handles_frames_witness:
  "\<exists>buf'. runStreamReadLoop te0 stream0 [] (replicate 11 (1, False)) (enc_frame publish_a) (Reading (make_buf 4) 0 0 broker0) =
     (Reading buf' 0 0 (broker0\<lparr>br_router := Some demo2, br_tick := 1\<rparr>), [])"
  using stream_handles_frames [of "[publish_a]" broker0 "make_buf 4" "replicate 11 (1, False)" te0 stream0 "[]" 0]
    publish_a_fits broker0_publish broker0_fields by (simp add: wf_buf_def make_buf_def)

section \<open>Short read buffers\<close>

lemma process_length: "process te s c bs st = (Ok rest, st') \<Longrightarrow> length rest \<le> length bs"
  using process_suffix by fastforce

lemma settled_prefix:
  assumes "settled te s c (p @ q) st" "10 \<le> br_maxBufSize (snd st)"
  shows "settled te s c p st"
proof -
  have e: "(case process te s c p st of (Ok rest, st') \<Rightarrow> process te s c (rest @ q) st'
       | (Err e, st') \<Rightarrow> (Err e, st') | (Panic, st') \<Rightarrow> (Panic, st')) = (Ok (p @ q), st)"
    using process_append [OF assms(2), of te s c p q] assms(1) by (simp add: settled_def)
  then obtain rest st1 where p: "process te s c p st = (Ok rest, st1)" by (auto split: prod.splits res.splits)
  then have "process te s c (rest @ q) st1 = (Ok (p @ q), st)" using e by simp
  then have "length p \<le> length rest" using process_length by fastforce
  then have rest: "rest = p" using process_suffix [OF p] process_length [OF p] by (cases p) (auto simp: drop_Cons')
  have "st1 = st"
  proof (cases "p = []")
    case False
    obtain r x where pf: "prepareFrame te s c p (length p) 0 st = (r, x)" by (cases "prepareFrame te s c p (length p) 0 st")
    have "\<not> (\<exists>f n. r = Ok (Some (f, n)))"
    proof
      assume "\<exists>f n. r = Ok (Some (f, n))"
      then obtain f n where r: "r = Ok (Some (f, n))" by blast
      have n: "0 < n" "n \<le> length p" using prepareFrame_progress pf r by fastforce+
      have "process te s c (drop n p) (next_state te s c f x) = (Ok p, st1)"
        using p False pf r rest by (simp add: process_rec [of te s c p st])
      then show False using process_length [of te s c "drop n p"] n by fastforce
    qed
    then show ?thesis
      using p False pf prepareFrame_config(4) [OF pf] by (auto simp: process_rec [of te s c p st] split: res.splits option.splits)
  qed (use p in \<open>simp add: process_rec [of te s c "[]"]\<close>)
  then show ?thesis using p rest by (simp add: settled_def)
qed

lemma stalled_turn:
  assumes "rb_len buf = n" "n < cap buf" "off \<le> n" "off \<le> length inp" "content_of buf off = take off inp"
    and "10 \<le> br_maxBufSize b" "settled te s c (take n inp) (db, b)"
  shows "\<exists>buf' off'. read_step te s c k (drop off inp) (Reading buf off db b) = (Reading buf' off' db b, drop off' inp) \<and>
    rb_len buf' = n \<and> n < cap buf' \<and> off' \<le> n \<and> off' \<le> length inp \<and> content_of buf' off' = take off' inp"
proof -
  define m where "m = read_count k buf off (drop off inp)"
  have m: "off + m \<le> n" "off + m \<le> length inp" using assms(1,3,4) by (auto simp: m_def read_count_def)
  define buf2 where "buf2 = buf\<lparr>rb_data := write_at (rb_data buf) off (take m (drop off inp))\<rparr>"
  have lg: "length (take m (drop off inp)) = m" using m by simp
  have cap2: "cap buf2 = cap buf" "rb_len buf2 = n" using assms(1,2) m lg by (auto simp: buf2_def write_at_def)
  have c2: "content_of buf2 (off + m) = take (off + m) inp"
    using assms(2-5) m lg by (simp add: buf2_def content_of_def write_at_def take_add min_def)
  have "take n inp = take (off + m) inp @ drop (off + m) (take n inp)"
    using m append_take_drop_id [of "off + m" "take n inp"] by (simp add: min_def)
  then have "settled te s c (take (off + m) inp) (db, b)"
    using settled_prefix [of te s c "take (off + m) inp" "drop (off + m) (take n inp)" "(db, b)"] assms(6,7) by simp
  then have d: "dispatch_buffer te s c buf2 (off + m) (db, b) =
      Reading (buf2\<lparr>rb_data := take (off + m) inp @ drop (off + m) (rb_data buf2)\<rparr>) (off + m) db b"
    using dispatch_buffer_eq [of "off + m" buf2 te s c "(db, b)"] cap2 m assms(2) c2 by (simp add: settled_def min_absorb2)
  have "rb_data buf2 = take (off + m) inp @ drop (off + m) (rb_data buf2)"
    using c2 append_take_drop_id [of "off + m" "rb_data buf2"] by (simp add: content_of_def)
  then have "dispatch_buffer te s c buf2 (off + m) (db, b) = Reading buf2 (off + m) db b" using d by simp
  moreover have "m = 0 \<Longrightarrow> buf2 = buf" by (simp add: buf2_def write_at_def)
  ultimately have "read_step te s c k (drop off inp) (Reading buf off db b) = (Reading buf2 (off + m) db b, drop (off + m) inp)"
    by (cases "m = 0") (simp_all add: read_step_def Let_def m_def [symmetric] buf2_def [symmetric] add.commute)
  then show ?thesis using cap2 c2 m assms(2) by (intro exI [of _ buf2] exI [of _ "off + m"]) simp
qed

lemma stalled_loop:
  assumes "10 \<le> br_maxBufSize b" "settled te s c (take n inp) (db, b)" "\<forall>(k, err)\<in>set evs. \<not> err"
    and "rb_len buf = n" "n < cap buf" "off \<le> n" "off \<le> length inp" "content_of buf off = take off inp"
  shows "\<exists>buf' off'. runStreamReadLoop te s c evs (drop off inp) (Reading buf off db b) = (Reading buf' off' db b, drop off' inp) \<and>
    off' \<le> n"
  using assms(3-8)
proof (induction evs arbitrary: buf off)
  case (Cons ev evs)
  obtain k where ev: "ev = (k, False)" using Cons.prems(1) by (cases ev) auto
  have "off \<noteq> cap buf" using Cons.prems(3,4) by simp
  moreover obtain buf' off' where r: "read_step te s c k (drop off inp) (Reading buf off db b) = (Reading buf' off' db b, drop off' inp)"
    and i: "rb_len buf' = n" "n < cap buf'" "off' \<le> n" "off' \<le> length inp" "content_of buf' off' = take off' inp"
    using stalled_turn [OF Cons.prems(2-6) assms(1,2)] by blast
  ultimately show ?case using Cons.IH [of buf' off'] Cons.prems(1) ev by simp
qed auto

text \<open>A read buffer below the capacity of the pool stalls streams. When the configured read buffer is shorter than
  the pooled array and the first frame of a stream is longer than it, the loop neither grows the buffer (its array is
  not full) nor gets another byte (its slice is): however often it reads, the broker never changes and the frame is
  never handled.\<close>

theorem short_read_buffer_stalls:
  assumes "GetBuf (Some raw) n = Ok buf" "0 < n" "n < int (length raw)" "10 \<le> br_maxBufSize b"
    and "settled te s c (take (nat n) inp) (db, b)" "\<forall>(k, err)\<in>set evs. \<not> err"
  shows "\<exists>buf' off. runStreamReadLoop te s c evs inp (Reading buf 0 db b) = (Reading buf' off db b, drop off inp) \<and> off \<le> nat n"
  using stalled_loop [OF assms(4-6), of buf 0] assms(1-3)
  by (auto simp: GetBuf_def content_of_def split: if_splits)

theorem short_read_buffer_stalls_witness:
  "\<exists>buf' off. runStreamReadLoop te0 stream0 [] (replicate 100 (7, False)) (enc_frame publish_a)
      (Reading \<lparr>rb_data = replicate 1024 0, rb_len = 4\<rparr> 0 0 broker0) = (Reading buf' off 0 broker0, drop off (enc_frame publish_a)) \<and> off \<le> 4"
proof -
  have "settled te0 stream0 [] (take (nat 4) (enc_frame publish_a)) (0, broker0)"
    using publish_a_fits(2) broker0_fields(1)
    by (simp add: settled_def process_rec [of _ _ _ "take 4 (enc_frame publish_a)"] prepareFrame_def Let_def)
  then show ?thesis
    using short_read_buffer_stalls [of "replicate 1024 0" 4 "\<lparr>rb_data = replicate 1024 0, rb_len = 4\<rparr>" broker0 te0 stream0 "[]" "enc_frame publish_a" 0
        "replicate 100 (7, False)"] broker0_fields(1)
    by (simp add: GetBuf_def)
qed

end
