(* ===== verification/Transport_Props.thy ===== *)
theory Transport_Props
  imports Transport_Loop
begin

text \<open>
  What the QUIC broker guarantees of the frames of a stream: who may publish and subscribe, what of it is logged and
  replayed, what is acknowledged and decompressed, which frames end the process, and that everything a stream can do to
  the router is a run of the router.
\<close>

section \<open>Authorisation\<close>

text \<open>C14: A client without the permission cannot publish or subscribe with a plain frame. When the access list does
  not grant the client the permission for the topic of a publish, batch or subscribe frame, the frame is refused: the
  stream ends there, and neither the router nor the log nor the files change, whatever follows on the stream.\<close>

theorem acl_gates_frames:
  assumes "br_authz b = Some e" "f_Command f \<in> {CmdPublish, CmdPublishBatch, CmdSubscribe}"
    and "\<not> Allowed (Some e) c (extractTopicBytes (f_Payload f)) (permissionForFrame (f_Command f))"
    and "handle_frames te s c (f # fs) (db, b) = (r, db', b')"
  shows "r \<noteq> Ok () \<and> br_router b' = br_router b \<and> br_aal b' = br_aal b \<and> br_fs b' = br_fs b"
proof -
  have "permissionForFrame (f_Command f) \<noteq> PermNone"
    using assms(2) by (auto simp: permissionForFrame_def PermNone_def PermPublish_def PermSubscribe_def wire_consts)
  then have "\<not> authorized b c f" using assms(1,3) by (simp add: authorized_def Let_def)
  then show ?thesis
    using assms(4) by (auto simp: admitFrame_def note_effect_def cancel_stream_def split: prod.splits res.splits)
qed

definition locked :: Broker where
  "locked = broker0\<lparr>br_authz := Some (NewEngine None PermNone)\<rparr>"

theorem acl_gates_frames_witness:
  "\<exists>r db' b'. handle_frames te0 stream0 (str ''eve'') [publish_a, publish_a] (0, locked) = (r, db', b') \<and> r \<noteq> Ok () \<and>
     br_router b' = Some demo1"
proof -
  obtain r db' b' where h: "handle_frames te0 stream0 (str ''eve'') [publish_a, publish_a] (0, locked) = (r, db', b')"
    by (cases "handle_frames te0 stream0 (str ''eve'') [publish_a, publish_a] (0, locked)") auto
  have "\<not> Allowed (Some (NewEngine None PermNone)) (str ''eve'') (extractTopicBytes (f_Payload publish_a)) (permissionForFrame (f_Command publish_a))"
    by (simp add: Allowed_def NewEngine_def publish_a_def frame_of_def permissionForFrame_def PermNone_def PermPublish_def Let_def)
  from acl_gates_frames [OF _ _ this h] show ?thesis
    using h by (auto simp: locked_def publish_a_def frame_of_def broker0_fields)
qed

text \<open>C38: The access list does not see frames whose command byte carries a control bit. Whatever the list grants, a
  publish frame with the extension bit or the forwarded bit is accepted and published, because the permission is looked
  up with the whole command byte; for the same reason it is not written to the log.\<close>

theorem acl_skips_marked_frames:
  assumes "br_router b = Some r" "br_compression b = None" "OpcodeOf (f_Command f) = CmdPublish" "f_Command f \<noteq> CmdPublish"
  shows "\<exists>b'. handle_frames te s c [f] (db, b) = (Ok (), db, b') \<and>
    br_router b' = Some (snd (if IsForwarded (f_Command f) then PublishFromPeer (te_env te (br_tick b)) f r
      else PublishWithClientID (te_env te (br_tick b)) f c r)) \<and> br_fs b' = br_fs b \<and> br_aal b' = br_aal b"
proof -
  have "f_Command f \<noteq> CmdPublishBatch" "f_Command f \<noteq> CmdSubscribe"
    using assms(3) by (auto simp: OpcodeOf_def wire_consts)
  then have "admitFrame te s c f (enc_frame f) (db, b) = (Ok (), db, b)"
    using assms(2,4) by (simp add: admitFrame_def decompressFrame_def authorized_def permissionForFrame_def log_frame_def split: option.split)
  moreover have "br_router (startPublishSpan n f x b) = br_router b" "br_fs (startPublishSpan n f x b) = br_fs b"
    "br_aal (startPublishSpan n f x b) = br_aal b" for n x
    by (simp_all add: startPublishSpan_def note_effect_def split: res.split option.split prod.split)
  moreover have "CmdPublish \<noteq> CmdSubscribe" by (simp add: wire_consts)
  ultimately show ?thesis
    using assms(1,3) by (simp add: next_state_def routeFrame_def handleForwardedFrame_def handleLocalFrame_def with_router_def Let_def)
qed

theorem acl_skips_marked_frames_witness:
  "\<exists>b'. handle_frames te0 stream0 (str ''eve'') [publish_a\<lparr>f_Command := CmdPublish OR MeshForwardedBit\<rparr>] (0, locked) = (Ok (), 0, b') \<and>
     br_router b' = Some (snd (PublishFromPeer env0 (publish_a\<lparr>f_Command := CmdPublish OR MeshForwardedBit\<rparr>) demo1))"
proof -
  let ?f = "publish_a\<lparr>f_Command := CmdPublish OR MeshForwardedBit\<rparr>"
  have "OpcodeOf (f_Command ?f) = CmdPublish" "f_Command ?f \<noteq> CmdPublish" "IsForwarded (f_Command ?f)"
    by (simp_all add: OpcodeOf_def IsForwarded_def wire_consts)
  then show ?thesis
    using acl_skips_marked_frames [of locked demo1 ?f te0 stream0 "str ''eve''" 0] by (auto simp: locked_def broker0_fields te0_def)
qed

section \<open>The router behind the streams\<close>

lemma prepareFrame_wf:
  assumes "prepareFrame te s c buf off k st = (Ok (Some (f, n)), st')"
  shows "wf_frame f"
  using assms ParseFrame_Ok_iff [of "drop k buf"]
  by (auto simp: prepareFrame_def Let_def split: prod.splits res.splits if_splits)

definition runs :: "bool \<Rightarrow> router_option list \<Rightarrow> nat \<Rightarrow> Broker \<Rightarrow> bool" where
  "runs mt opts n b \<longleftrightarrow> (\<exists>r. br_router b = Some r \<and> router_reach mt opts r \<and> slots r + n \<le> 2 ^ 29)"

lemma runs_router: "br_router b' = br_router b \<Longrightarrow> runs mt opts n b' = runs mt opts n b"
  by (simp add: runs_def)

lemma runs_less: "runs mt opts n b \<Longrightarrow> k \<le> n \<Longrightarrow> runs mt opts k b"
  by (auto simp: runs_def)

lemma with_router_runs:
  assumes "runs mt opts n b" "\<And>r. router_reach mt opts r \<Longrightarrow> slots r + n \<le> 2 ^ 29 \<Longrightarrow> router_reach mt opts (g r) \<and> slots (g r) + k \<le> 2 ^ 29"
  shows "runs mt opts k (with_router g b)"
  using assms by (auto simp: runs_def with_router_def)

lemma routeFrame_runs:
  assumes run: "runs mt opts (Suc n) b" and wf: "wf_frame f"
  shows "runs mt opts n (routeFrame env s c f b)"
proof -
  have len: "unat (f_PayloadLen f) = length (f_Payload f)" using wf by (simp add: wf_frame_def)
  have span: "runs mt opts (Suc n) (startPublishSpan x f y b)" for x y
    using run by (subst runs_router) (auto simp: startPublishSpan_def note_effect_def split: res.split option.split)
  have sub: "runs mt opts n (with_router (\<lambda>r. snd (Subscribe o' f r)) b)" for o'
  proof (rule with_router_runs [OF run])
    fix r
    assume "router_reach mt opts r" "slots r + Suc n \<le> 2 ^ 29"
    then show "router_reach mt opts (snd (Subscribe o' f r)) \<and> slots (snd (Subscribe o' f r)) + n \<le> 2 ^ 29"
      using slots_Subscribe [of o' f r] by (auto intro: subscribe)
  qed
  have pub: "runs mt opts n (with_router (\<lambda>r. snd (PublishWithClientID env f c r)) (startPublishSpan x f y b))"
    "runs mt opts n (with_router (\<lambda>r. snd (PublishFromPeer env f r)) (startPublishSpan x f y b))"
    "runs mt opts n (with_router (\<lambda>r. snd (PublishBatch env f r)) (startPublishSpan x f y b))" for x y
    by (rule with_router_runs [OF span], simp add: publish peer batch [OF _ len] slots_unchanged)+
  have ack: "runs mt opts n (with_router (AckOffset i t o') b)" "runs mt opts n (with_router (NackByStream sid o') b)" for i t o' sid
    by (rule with_router_runs [OF run], simp add: ack nack slots_unchanged)+
  have same: "runs mt opts n b" "runs mt opts n (call_handler env s f b)"
    using runs_less [OF run] runs_router [of "call_handler env s f b" b mt opts n]
    by (auto simp: call_handler_def sendResponse_def note_effect_def split: option.splits)
  show ?thesis
    using sub pub ack same
    by (auto simp: routeFrame_def handleForwardedFrame_def handleLocalFrame_def Let_def split: option.split prod.split)
qed

lemma dispatch_loop_runs:
  assumes "runs mt opts (off - k + n) (snd st)" "k \<le> off" "dispatch_loop te s c buf off k st = (res, st')"
  shows "runs mt opts n (snd st') \<and> (\<forall>k'. res = Ok k' \<longrightarrow> k' \<le> off \<and> runs mt opts (off - k' + n) (snd st'))"
  using assms
proof (induction "off - k" arbitrary: k st rule: less_induct)
  case less
  show ?case
  proof (cases "k < off")
    case True
    obtain r st1 where p: "prepareFrame te s c buf off k st = (r, st1)" by (cases "prepareFrame te s c buf off k st")
    have s1: "runs mt opts (off - k + n) (snd st1)" using less.prems(1) runs_router [OF prepareFrame_config(2) [OF p], of mt opts] by simp
    show ?thesis
    proof (cases "\<exists>f m. r = Ok (Some (f, m))")
      case frame: True
      then obtain f m db b where r: "r = Ok (Some (f, m))" "st1 = (db, b)" by (cases st1) blast
      have m: "10 \<le> m" "m \<le> off - k" using prepareFrame_progress [of te s c buf off k st f m st1] p r by simp_all
      let ?b = "(routeFrame (te_env te (br_tick b)) s c f b)\<lparr>br_tick := Suc (br_tick b)\<rparr>"
      have "runs mt opts (Suc (off - (k + m) + n)) b" using s1 m runs_less [of mt opts "off - k + n" b] by (simp add: r)
      moreover have "wf_frame f" by (rule prepareFrame_wf [of te s c buf off k st f m st1]) (simp add: p r)
      ultimately have "runs mt opts (off - (k + m) + n) (routeFrame (te_env te (br_tick b)) s c f b)" by (rule routeFrame_runs)
      then have "runs mt opts (off - (k + m) + n) (snd (db, ?b))" by (simp add: runs_def)
      moreover have "dispatch_loop te s c buf off (k + m) (db, ?b) = (res, st')"
        using less.prems(3) True p r by (simp add: dispatch_loop.simps [of te s c buf off k st])
      moreover have "off - (k + m) < off - k" "k + m \<le> off" using m True by simp_all
      ultimately show ?thesis using less.hyps by blast
    next
      case stop: False
      then have "st' = st1" "res = Ok k \<or> \<not> (\<exists>k'. res = Ok k')"
        using less.prems(3) True p by (auto simp: dispatch_loop.simps [of te s c buf off k st] split: res.splits option.splits)
      moreover have "runs mt opts n (snd st1)" by (rule runs_less [OF s1]) simp
      ultimately show ?thesis using s1 less.prems(2) by auto
    qed
  next
    case False
    then have "res = Ok k" "st' = st" using less.prems(3) by (simp_all add: dispatch_loop.simps [of te s c buf off k st])
    moreover have "runs mt opts n (snd st)" by (rule runs_less [OF less.prems(1)]) simp
    ultimately show ?thesis using less.prems(1,2) by auto
  qed
qed

fun outcome_runs :: "bool \<Rightarrow> router_option list \<Rightarrow> nat \<Rightarrow> outcome \<Rightarrow> bool" where
  "outcome_runs mt opts n (Reading buf off db b) \<longleftrightarrow> runs mt opts (off + n) b"
| "outcome_runs mt opts n (Torn_down db b) \<longleftrightarrow> runs mt opts n b"
| "outcome_runs mt opts n (Crashed db b) \<longleftrightarrow> runs mt opts n b"

lemma cancel_runs [simp]:
  "runs mt opts n (cancel_stream s code b) = runs mt opts n b" "runs mt opts n (handleDispatchError s e b) = runs mt opts n b"
  by (rule runs_router, simp add: cancel_stream_def note_effect_def handleDispatchError_def)+

lemma dispatch_buffer_runs:
  assumes "runs mt opts (off + n) (snd st)"
  shows "outcome_runs mt opts n (dispatch_buffer te s c buf off st)"
proof -
  let ?bs = "take off (rb_data buf)"
  obtain res db b where d: "dispatch_loop te s c ?bs off 0 st = (res, db, b)" by (cases "dispatch_loop te s c ?bs off 0 st") auto
  have "runs mt opts (off - 0 + n) (snd st)" using assms by simp
  from dispatch_loop_runs [OF this le0 d, unfolded snd_conv]
  have "runs mt opts n b \<and> (\<forall>k'. res = Ok k' \<longrightarrow> runs mt opts (off - k' + n) b)" by blast
  then show ?thesis using d by (cases res) (simp_all add: dispatch_buffer_def dispatchFrames_def)
qed

lemma drain_runs:
  assumes "runs mt opts (off + n) (snd st)"
  shows "outcome_runs mt opts n (drainAndMaybeGrow te s c buf off st)"
  using dispatch_buffer_runs [OF assms, of te s c buf]
  by (cases "dispatch_buffer te s c buf off st") (auto simp: drainAndMaybeGrow_def intro: runs_less)

lemma loop_runs:
  "outcome_runs mt opts (length inp) res \<Longrightarrow> runStreamReadLoop te s c evs inp res = (out, inp') \<Longrightarrow>
     outcome_runs mt opts (length inp') out"
proof (induction te s c evs inp res rule: runStreamReadLoop.induct)
  case (1 te s c k err evs inp buf off db b)
  let ?cur = "if off = cap buf then drainAndMaybeGrow te s c buf off (db, b) else Reading buf off db b"
  obtain res1 inp1 where t: "read_step te s c k inp ?cur = (res1, inp1)" by (cases "read_step te s c k inp ?cur")
  have in': "runs mt opts (off + length inp) b" using 1(2) by simp
  have cur: "outcome_runs mt opts (length inp) ?cur"
    using drain_runs [of mt opts off "length inp" "(db, b)" te s c buf] in' by (cases "off = cap buf") simp_all
  have one: "outcome_runs mt opts (length inp1) res1"
  proof (cases ?cur)
    case (Reading buf2 off2 db2 b2)
    define n where "n = read_count k buf2 off2 inp"
    have n: "n \<le> length inp" by (simp add: n_def read_count_def)
    have "runs mt opts (off2 + n + (length inp - n)) (snd (db2, b2))" using cur n unfolding Reading by simp
    note d = dispatch_buffer_runs [OF this]
    have "read_step te s c k inp (Reading buf2 off2 db2 b2) = (res1, inp1)" using t unfolding Reading .
    then show ?thesis
      using d cur unfolding Reading by (cases "n > 0") (auto simp: read_step_def Let_def n_def [symmetric])
  qed (use t cur in \<open>auto simp: read_step_def\<close>)
  show ?case
  proof (cases res1)
    case (Reading buf2 off2 db2 b2)
    show ?thesis
    proof (cases err)
      case True
      then have "out = Torn_down db2 b2" "inp' = inp1" using 1(3) t Reading by simp_all
      then show ?thesis using one Reading runs_less [of mt opts "off2 + length inp1" b2] by simp
    next
      case False
      then have "runStreamReadLoop te s c evs inp1 (Reading buf2 off2 db2 b2) = (out, inp')" using 1(3) t Reading by simp
      then show ?thesis using 1(1) [OF t [symmetric] Reading False] one unfolding Reading by simp
    qed
  next
    case (Torn_down db2 b2)
    then show ?thesis using 1(3) t one by simp
  next
    case (Crashed db2 b2)
    then show ?thesis using 1(3) t one by simp
  qed
qed auto

lemma slots_Unsubscribe: "slots (Unsubscribe sid r) = slots r"
proof -
  have "slots (fold (unsubscribe_slot sid) xs r) = slots r" for xs
    by (induction xs arbitrary: r) (simp_all add: unsubscribe_slot_def leave_group_def Let_def)
  then show ?thesis by (simp add: Unsubscribe_def report_active_def emit_def)
qed

fun broker_of :: "outcome \<Rightarrow> Broker" where
  "broker_of (Reading buf off db b) = b"
| "broker_of (Torn_down db b) = b"
| "broker_of (Crashed db b) = b"

lemma HandleStream_runs:
  assumes b: "runs mt opts (length inp) b"
  shows "outcome_runs mt opts 0 (HandleStream te raw s c evs inp b)"
proof (cases "GetBuf raw (br_readBufSize b)")
  case (Ok buf)
  obtain o1 inp1 where l: "runStreamReadLoop te s c evs inp (Reading buf 0 0 b) = (o1, inp1)"
    by (cases "runStreamReadLoop te s c evs inp (Reading buf 0 0 b)")
  then have "outcome_runs mt opts (length inp1) o1" using loop_runs [of mt opts inp "Reading buf 0 0 b"] b by simp
  then have o1: "outcome_runs mt opts 0 o1" by (cases o1) (simp_all add: runs_less)
  have "runs mt opts 0 (unsubscribe_stream s b1)" if "runs mt opts 0 b1" for b1
    unfolding unsubscribe_stream_def using that
    by (rule with_router_runs) (simp add: unsubscribe slots_Unsubscribe)
  then show ?thesis using Ok l o1 by (cases o1) (simp_all add: HandleStream_def)
qed (use runs_less [OF b, of 0] in \<open>simp_all add: HandleStream_def\<close>)

lemma broker_of_runs: "outcome_runs mt opts 0 res \<Longrightarrow> runs mt opts 0 (broker_of res)"
  by (cases res) (auto intro: runs_less)



section \<open>Logging and replay\<close>

lemma routeFrame_log: "br_aal (routeFrame env s c f b) = br_aal b \<and> br_fs (routeFrame env s c f b) = br_fs b"
proof -
  have span: "br_aal (startPublishSpan x f y b) = br_aal b" "br_fs (startPublishSpan x f y b) = br_fs b" for x y
    by (simp_all add: startPublishSpan_def note_effect_def split: res.split option.split prod.split)
  show ?thesis
    by (auto simp: span routeFrame_def handleForwardedFrame_def handleLocalFrame_def call_handler_def sendResponse_def with_router_def
        note_effect_def Let_def split: option.split prod.split)
qed

lemma handle_frames_log:
  assumes "\<forall>f\<in>set fs. f_Command f = CmdPublish" "\<forall>k. te_short te k = None" "\<not> br_aalClosed b"
    and "handle_frames te s c fs (db, b) = (Ok (), db', b')"
  shows "(br_aal b', br_fs b') = fold (write_one (te_cipher te)) (map enc_frame fs) (br_aal b, br_fs b)"
  using assms
proof (induction fs arbitrary: db b)
  case (Cons f fs)
  obtain db1 b1 where a: "admitFrame te s c f (enc_frame f) (db, b) = (Ok (), db1, b1)"
    "handle_frames te s c fs (next_state te s c f (db1, b1)) = (Ok (), db', b')"
    using Cons.prems(4) by (auto split: prod.splits res.splits)
  let ?b = "snd (next_state te s c f (db1, b1))"
  have "log_frame te CmdPublish (enc_frame f) b = Ok b1"
    using a(1) Cons.prems(1) by (auto simp: admitFrame_def split: prod.splits res.splits if_splits)
  then have "(br_aal b1, br_fs b1) = write_one (te_cipher te) (enc_frame f) (br_aal b, br_fs b)"
    using Cons.prems(2,3) by (auto simp: log_frame_def write_one_def WriteFrame_def split: if_splits prod.splits res.splits)
  moreover have "br_aal ?b = br_aal b1" "br_fs ?b = br_fs b1"
    using routeFrame_log [of "te_env te (br_tick b1)" s c f b1] by (simp_all add: next_state_def)
  moreover have "\<not> br_aalClosed ?b"
    using admitFrame_config [OF a(1)] next_state_config [of "(db1, b1)" te s c f] Cons.prems(3) by (simp add: same_config_def)
  moreover have "next_state te s c f (db1, b1) = (db1, ?b)" by (simp add: next_state_def)
  ultimately show ?case using Cons.IH [of ?b db1] Cons.prems(1,2) a(2) by simp
qed simp

fun publish_all :: "te_sys \<Rightarrow> nat \<Rightarrow> Frame list \<Rightarrow> Router \<Rightarrow> Router" where
  "publish_all te k [] r = r"
| "publish_all te k (f # fs) r = publish_all te (Suc k) fs (snd (Publish (te_env te k) f r))"

lemma replay_frames:
  assumes "\<forall>f\<in>set fs. wf_frame f \<and> f_Command f = CmdPublish \<and> loggable (enc_frame f)"
  shows "iterate (count_step (replay_frame te)) ((k, Some r), n) (map enc_frame fs) =
    (((k + length fs, Some (publish_all te k fs r)), n + length fs), None)"
  using assms
proof (induction fs arbitrary: k r n)
  case (Cons f fs)
  have wf: "wf_frame f" "f_Command f = CmdPublish" "length (enc_frame f) \<le> 65504" using Cons.prems by (simp_all add: loggable_def)
  then have "unat (f_PayloadLen f) \<le> maxPayloadSize"
    by (simp add: wf_frame_def enc_frame_def maxPayloadSize_def)
  then have "fst (Publish (te_env te k) f r) = None"
    by (simp add: Publish_def publishWithClientID_def Let_def split: prod.split)
  moreover have "ParseFrame (enc_frame f) = Ok f" using ParseFrame_enc_frame [OF wf(1), of "[]"] by simp
  ultimately have "replay_frame te (k, Some r) (enc_frame f) = ((Suc k, Some (snd (Publish (te_env te k) f r))), None)"
    using wf(2) by (cases "Publish (te_env te k) f r") (simp add: replay_frame_def)
  then show ?case using Cons.IH [of "Suc k" "snd (Publish (te_env te k) f r)" "Suc n"] Cons.prems by (simp add: count_step_def)
qed simp



section \<open>Frames that end the process\<close>

definition cut_block :: bytes where
  "cut_block = put_u16 9 @ [0x02, 5, 1, 4, 0, 0, 0] @ [0x01, 200]"

text \<open>C39: A frame with a damaged extension block ends the whole process when decompression is enabled. A frame with a
  compression entry that is followed by a cut-off entry parses and passes every limit; the removal of the compression
  entry then slices past the end of the block and panics, in the goroutine of the stream.\<close>

theorem cut_extension_crashes_broker:
  assumes "br_compression b = Some D" "D payload 4 \<noteq> None" "4 \<le> (of_int (br_maxBufSize b) :: u32) * 16"
    and "i64 (db + 4) \<le> br_maxDecompressedPerStream b" "fits (br_maxBufSize b) (ext_frame CmdPublish sid cut_block payload)"
  shows "fst (process te s c (enc_frame (ext_frame CmdPublish sid cut_block payload)) (db, b)) = Panic"
proof -
  let ?f = "ext_frame CmdPublish sid cut_block payload"
  have v: "([1, 4, 0, 0, 0] :: bytes) ! 0 = AlgoZSTD" "get_u32 (slice [1, 4, 0, 0, 0] (Suc 0) 5) = 4" "length ([1, 4, 0, 0, 0] :: bytes) = 5"
    by (simp, code_simp, simp)
  have u: "unat (4 :: u32) = 4" by simp
  obtain d where d: "D payload 4 = Some d" using assms(2) by blast
  have find: "(FindExtension cut_block ExtCompression :: (decompress_error, bytes option) res) = Ok (Some [1, 4, 0, 0, 0])"
    unfolding cut_block_def by (rule strip_truncated_entry_panics(1))
  have strip: "(StripExtension acq cut_block ExtCompression :: (decompress_error, bytes) res) = Panic" for acq
    unfolding cut_block_def by (rule strip_truncated_entry_panics(2))
  have e: "f_Extensions ?f = cut_block" "f_Payload ?f = payload" by (simp_all add: ext_frame_def)
  have "fst (decompressFrame acq b ?f db) = Panic" for acq
    unfolding decompressFrame_def e find assms(1) using assms(3,4) d by (simp add: v u strip Let_def del: nth_Cons_0 ExtCompression_def)
  then have "fst (admitFrame te s c ?f (enc_frame ?f) (db, b)) = Panic"
    by (auto simp: admitFrame_def split: prod.split res.split) (metis fst_conv res.distinct)+
  then show ?thesis
    using process_frames [of "[?f]" "(db, b)" te s c] assms(5) by (cases "admitFrame te s c ?f (enc_frame ?f) (db, b)") auto
qed

theorem cut_extension_crashes_broker_witness:
  "fst (process te0 stream0 [] (enc_frame (ext_frame CmdPublish 5 cut_block topic_a)) (0, broker0\<lparr>br_compression := Some (\<lambda>p n. Some p)\<rparr>)) = Panic"
proof -
  have u: "get_u16 [9, 0, 2, 5, 1, 4, 0, 0, 0, 1, 200] = 9" "put_u16 9 = [9, 0]" by code_simp+
  have t: "topic_a = [97]" by (simp add: topic_a_def str_def)
  have "fits 65536 (ext_frame CmdPublish 5 cut_block topic_a)"
    by (simp add: fits_def ext_frame_def cut_block_def u t wf_frame_def valid_opcode_def OpcodeOf_def wire_consts Size_def DataLen_def)
  then show ?thesis
    by (intro cut_extension_crashes_broker [where D = "\<lambda>p n. Some p"])
      (simp_all add: broker0_fields i64_def broker0_limit)
qed

text \<open>With an encrypted log, a publish frame of more than 65520 bytes ends the whole process. The default limit of
  65536 bytes lets it through, and the log writer panics because the sealed record does not fit its buffer.\<close>

theorem large_frame_crashes_encrypted_log:
  assumes "aead_ok (te_cipher te)" "br_aal b = Some l" "wf_log l" "l_aead l = Some key" "l_file l = Some path"
    and "br_compression b = None" "authorized b c f" "f_Command f = CmdPublish" "fits (br_maxBufSize b) f"
    and "65520 < Size f" "Size f < 2 ^ 31"
  shows "fst (process te s c (enc_frame f) (db, b)) = Panic"
proof -
  have len: "length (enc_frame f) = Size f" using assms(9) length_enc_frame [of f] by (simp add: fits_def Size_def)
  have "fst (WriteFrame (te_cipher te) short (Some l) fs (enc_frame f)) = Panic" for short fs
    using aal_encrypted_write_panics [OF assms(1,3,4,5)] assms(10,11) len by simp
  then have "log_frame te CmdPublish (enc_frame f) b = Panic"
    using assms(2) by (auto simp: log_frame_def split: prod.split res.split) (metis fst_conv res.distinct)+
  then have "fst (admitFrame te s c f (enc_frame f) (db, b)) = Panic"
    using assms(6,7,8) by (simp add: admitFrame_def decompressFrame_def)
  then show ?thesis
    using process_frames [of "[f]" "(db, b)" te s c] assms(9) by (cases "admitFrame te s c f (enc_frame f) (db, b)") auto
qed

definition big_frame :: Frame where
  "big_frame = plain_frame CmdPublish 5 (replicate 65515 97)"

definition enc_log :: Log where
  "enc_log = \<lparr>l_file = Some [9], l_aead = Some (replicate 32 5), l_buf = replicate poolBufLen 0, l_prefix = [1, 2, 3, 4], l_nonce = 0\<rparr>"

theorem large_frame_crashes_encrypted_log_witness:
  "fst (process te0 stream0 [] (enc_frame big_frame) (0, broker0\<lparr>br_aal := Some enc_log\<rparr>)) = Panic"
proof -
  have "fits 65536 big_frame" "Size big_frame = 65525"
    by (simp_all add: fits_def big_frame_def plain_frame_def wf_frame_def valid_opcode_def OpcodeOf_def wire_consts Size_def DataLen_def)
  then show ?thesis
    by (intro large_frame_crashes_encrypted_log [where l = enc_log and key = "replicate 32 5" and path = "[9]"])
      (simp_all add: te0_def toy_cipher_ok broker0_fields authorized_def enc_log_def wf_log_def big_frame_def plain_frame_def)
qed

section \<open>Acknowledgements\<close>

definition ack_payload :: "bytes \<Rightarrow> bytes \<Rightarrow> nat \<Rightarrow> bytes" where
  "ack_payload t c n = str ''topic:'' @ t @ str '':consumer:'' @ c @ str '':offset:'' @ decimal n"

lemma ack_markers: "str ''topic:'' = str ''topic'' @ [colon]" "str '':consumer:'' = colon # str ''consumer'' @ [colon]"
  "str '':offset:'' = colon # str ''offset'' @ [colon]" "colon \<notin> set (str ''topic'')" "colon \<notin> set (str ''consumer'')"
  "colon \<notin> set (str ''offset'')"
  by (simp_all add: str_def of_char_def)

lemma parseAckPayload_ack:
  assumes "colon \<notin> set t" "colon \<notin> set c" "n < 2 ^ 64"
  shows "parseAckPayload (ack_payload t c n) = Some (c, t, of_nat n)"
proof -
  have sp: "Split (a @ colon # z) [colon] = a # Split z [colon]" if "colon \<notin> set a" for a z
    using Split_here [OF that, of "[]" z] by simp
  have "Split (ack_payload t c n) [colon] = [str ''topic'', t, str ''consumer'', c, str ''offset'', decimal n]"
    using assms(1,2) ack_markers(4-6) by (simp add: ack_payload_def ack_markers(1-3) sp Split_absent)
  moreover have "ParseUint (decimal n) = (n, None)" using assms(3) by (intro ParseUint_decimal) (simp add: maxUint64_def)
  ultimately show ?thesis by (simp add: parseAckPayload_def Let_def)
qed

lemma AckOffset_stores: "GetConsumerOffset c t (AckOffset c t off r) = off"
proof -
  have "GetConsumerOffset c t (fold (ack_slot c t off) is r) = off" if "GetConsumerOffset c t r = off" for "is" r
    using that by (induction "is" arbitrary: r) (simp_all add: ack_slot_def Let_def GetConsumerOffset_def emit_def)
  then show ?thesis by (simp add: AckOffset_def Let_def GetConsumerOffset_def emit_def)
qed

text \<open>An acknowledgement is stored. Whatever the access list says, a frame that acknowledges an offset of a topic in
  the format clients use sets the offset of that consumer on that topic, from which a durable subscription resumes.\<close>

theorem ack_frame_stores_offset:
  assumes "br_router b = Some r" "br_compression b = None" "colon \<notin> set t" "colon \<notin> set c" "n < 2 ^ 64"
    and "f_Command f = CmdAck" "f_Payload f = ack_payload t c n"
  shows "\<exists>b' r'. handle_frames te s cl [f] (db, b) = (Ok (), db, b') \<and> br_router b' = Some r' \<and>
    GetConsumerOffset c t r' = of_nat n"
proof -
  have "admitFrame te s cl f (enc_frame f) (db, b) = (Ok (), db, b)"
    using assms(2,6) by (simp add: admitFrame_def decompressFrame_def authorized_def permissionForFrame_def log_frame_def wire_consts
        split: option.split)
  then show ?thesis
    using assms(1,6,7) parseAckPayload_ack [OF assms(3-5)] AckOffset_stores [of c t "of_nat n" r]
    by (simp add: next_state_def routeFrame_def IsForwarded_def handleLocalFrame_def OpcodeOf_def wire_consts with_router_def Let_def)
qed

theorem ack_frame_stores_offset_witness:
  "\<exists>b' r'. handle_frames te0 stream0 [] [plain_frame CmdAck 5 (ack_payload [97] [98] 42)] (0, broker0) = (Ok (), 0, b') \<and>
     br_router b' = Some r' \<and> GetConsumerOffset [98] [97] r' = 42"
  using ack_frame_stores_offset [of broker0 demo1 "[97]" "[98]" 42 "plain_frame CmdAck 5 (ack_payload [97] [98] 42)" te0 stream0 "[]" 0]
  by (simp add: broker0_fields plain_frame_def)

section \<open>The decompression budget\<close>

lemma decompress_budget:
  assumes "decompressFrame acq b f db = (r, db')" "0 \<le> db" "db \<le> br_maxDecompressedPerStream b" "br_maxDecompressedPerStream b < 2 ^ 62"
  shows "db \<le> db' \<and> db' \<le> br_maxDecompressedPerStream b"
proof -
  have "i64 (db + uint u) = db + uint u" for u :: u32
    using assms(2-4) uint_lt2p [of u] by (intro i64_id) simp_all
  then show ?thesis
    using assms(1,3) by (auto simp: decompressFrame_def Let_def split: option.splits res.splits if_splits)
qed



end
