(* ===== verification/Config.thy ===== *)
theory Config
  imports Topics
begin

text \<open>
  The configuration of \<^verbatim>\<open>internal/config\<close>: the defaults, a YAML file over them, and the environment over both. The YAML
  library is a parameter of \<open>Load\<close>; so are the file system, the environment, the durations \<open>time.ParseDuration\<close>
  accepts and the Unicode tables behind \<open>strings.ToLower\<close>.
\<close>

section \<open>Structures\<close>

record AdminConfig =
  adm_Enabled :: bool
  adm_Addr :: bytes
  adm_ClientCAFile :: bytes
  adm_CNAllowlist :: "bytes list"

record TracingConfig =
  trc_Enabled :: bool
  trc_ServiceName :: bytes
  trc_Endpoint :: bytes
  trc_TLSEnabled :: bool
  trc_CAFile :: bytes

record MeshConfig =
  mesh_InsecureSkipVerify :: bool
  mesh_CAFile :: bytes

record ClusterDiscovery =
  cd_Enabled :: bool
  cd_Type :: bytes
  cd_Host :: bytes
  cd_Port :: bytes
  cd_Interval :: bytes

record ClusterConfig =
  cl_Peers :: "bytes list"
  cl_Discovery :: ClusterDiscovery
  cl_Mesh :: MeshConfig

record TLSConfig =
  tls_Generate :: bool
  tls_CertFile :: bytes
  tls_KeyFile :: bytes
  tls_RequireClientCert :: bool
  tls_ClientCAFile :: bytes

record AALConfig =
  aal_Enabled :: bool
  aal_FilePath :: bytes
  aal_Key :: bytes
  aal_MaxFileSize :: int
  aal_RetentionPeriod :: bytes
  aal_RetentionSize :: int

record ACLRuleConfig =
  acr_Client :: bytes
  acr_Topic :: bytes
  acr_Permission :: bytes

record ACLConfig =
  acl_Enabled :: bool
  acl_Default :: bytes
  acl_Rules :: "ACLRuleConfig list"

record ClientQuota =
  cq_Rate :: int
  cq_Burst :: int

record QuotasConfig =
  qc_DefaultPublishRate :: int
  qc_DefaultBurstSize :: int
  qc_PerClient :: "(bytes \<times> ClientQuota) list"

record BrokerConfig =
  bk_QueueSize :: int
  bk_BackpressurePolicy :: bytes
  bk_BatchSize :: int
  bk_FlushInterval :: int
  bk_MaxRetries :: int
  bk_PriorityTTLs :: "bytes list"
  bk_Quotas :: QuotasConfig

record CompressionConfig =
  cmp_Enabled :: bool
  cmp_MinBatchSize :: int
  cmp_Level :: int

record WebTransportConfig =
  wt_Enabled :: bool
  wt_ListenAddr :: bytes
  wt_PathPrefix :: bytes

record TransportConfig =
  tr_MaxBufSize :: int
  tr_ReadBufSize :: int

record Config =
  cfg_ListenAddr :: bytes
  cfg_MetricsAddr :: bytes
  cfg_TLS :: TLSConfig
  cfg_AAL :: AALConfig
  cfg_ACL :: ACLConfig
  cfg_Admin :: AdminConfig
  cfg_Broker :: BrokerConfig
  cfg_Transport :: TransportConfig
  cfg_Cluster :: ClusterConfig
  cfg_Tracing :: TracingConfig
  cfg_Compression :: CompressionConfig
  cfg_WebTransport :: WebTransportConfig

definition Default :: Config where
  "Default =
     \<lparr>cfg_ListenAddr = str '':4242'', cfg_MetricsAddr = str ''127.0.0.1:9090'',
      cfg_TLS = \<lparr>tls_Generate = True, tls_CertFile = [], tls_KeyFile = [], tls_RequireClientCert = False, tls_ClientCAFile = []\<rparr>,
      cfg_AAL = \<lparr>aal_Enabled = False, aal_FilePath = [], aal_Key = [], aal_MaxFileSize = 100 * 1024 * 1024,
                 aal_RetentionPeriod = str ''24h'', aal_RetentionSize = 1024 * 1024 * 1024\<rparr>,
      cfg_ACL = \<lparr>acl_Enabled = False, acl_Default = str ''none'', acl_Rules = []\<rparr>,
      cfg_Admin = \<lparr>adm_Enabled = False, adm_Addr = str '':9091'', adm_ClientCAFile = [], adm_CNAllowlist = []\<rparr>,
      cfg_Broker = \<lparr>bk_QueueSize = 1024, bk_BackpressurePolicy = str ''drop_oldest'', bk_BatchSize = 64 * 1024,
                    bk_FlushInterval = 50 * 1000, bk_MaxRetries = 3, bk_PriorityTTLs = [],
                    bk_Quotas = \<lparr>qc_DefaultPublishRate = 0, qc_DefaultBurstSize = 1000, qc_PerClient = []\<rparr>\<rparr>,
      cfg_Transport = \<lparr>tr_MaxBufSize = 64 * 1024, tr_ReadBufSize = 1024\<rparr>,
      cfg_Cluster = \<lparr>cl_Peers = [],
                     cl_Discovery = \<lparr>cd_Enabled = False, cd_Type = [], cd_Host = [], cd_Port = [], cd_Interval = []\<rparr>,
                     cl_Mesh = \<lparr>mesh_InsecureSkipVerify = False, mesh_CAFile = []\<rparr>\<rparr>,
      cfg_Tracing = \<lparr>trc_Enabled = False, trc_ServiceName = str ''aqueduct-broker'', trc_Endpoint = str ''localhost:4317'',
                     trc_TLSEnabled = False, trc_CAFile = []\<rparr>,
      cfg_Compression = \<lparr>cmp_Enabled = False, cmp_MinBatchSize = 1024, cmp_Level = 0\<rparr>,
      cfg_WebTransport = \<lparr>wt_Enabled = False, wt_ListenAddr = str '':4433'', wt_PathPrefix = str ''/aqueduct/wt''\<rparr>\<rparr>"

section \<open>Time to live per priority\<close>

fun ttl_loop :: "(bytes \<Rightarrow> int option) \<Rightarrow> nat \<Rightarrow> bytes list \<Rightarrow> int list \<Rightarrow> int list" where
  "ttl_loop parseDuration i [] res = res"
| "ttl_loop parseDuration i (s # ss) res =
     (if i \<ge> 4 then res
      else if s = [] \<or> s = str ''0'' \<or> s = str ''0s'' then ttl_loop parseDuration (Suc i) ss (res[i := 0])
      else case parseDuration s of
             Some d \<Rightarrow> ttl_loop parseDuration (Suc i) ss (res[i := d])
           | None \<Rightarrow> ttl_loop parseDuration (Suc i) ss res)"

definition GetPriorityTTLs :: "(bytes \<Rightarrow> int option) \<Rightarrow> BrokerConfig \<Rightarrow> int list" where
  "GetPriorityTTLs parseDuration b = ttl_loop parseDuration 0 (bk_PriorityTTLs b) [0, 0, 0, 0]"

section \<open>Environment variables\<close>

text \<open>\<open>strconv.Atoi\<close> is \<open>ParseInt\<close> in base ten for the 64 bits of an \<open>int\<close>.\<close>

record env_sys =
  es_getenv :: "bytes \<Rightarrow> bytes"
  es_parseDuration :: "bytes \<Rightarrow> int option"
  es_lower :: "bytes \<Rightarrow> bytes"

definition parseBool :: "(bytes \<Rightarrow> bytes) \<Rightarrow> bytes \<Rightarrow> bool \<Rightarrow> bool" where
  "parseBool uni s fallback =
     (let t = normalise uni s in
      if t \<in> {str ''true'', str ''1'', str ''yes'', str ''on''} then True
      else if t \<in> {str ''false'', str ''0'', str ''no'', str ''off''} then False
      else fallback)"

definition envString :: "env_sys \<Rightarrow> string \<Rightarrow> bytes \<Rightarrow> bytes" where
  "envString es name dst = (let v = es_getenv es (str name) in if v \<noteq> [] then v else dst)"

definition envStringList :: "env_sys \<Rightarrow> string \<Rightarrow> bytes list \<Rightarrow> bytes list" where
  "envStringList es name dst = (let v = es_getenv es (str name) in if v \<noteq> [] then Split v (str '','') else dst)"

definition envPositiveInt :: "env_sys \<Rightarrow> string \<Rightarrow> int \<Rightarrow> int" where
  "envPositiveInt es name dst =
     (let v = es_getenv es (str name) in
      if v = [] then dst
      else case ParseInt v of (n, err) \<Rightarrow> if err = None \<and> n > 0 then n else dst)"

definition envNonNegativeInt :: "env_sys \<Rightarrow> string \<Rightarrow> int \<Rightarrow> int" where
  "envNonNegativeInt es name dst =
     (let v = es_getenv es (str name) in
      if v = [] then dst
      else case ParseInt v of (n, err) \<Rightarrow> if err = None \<and> n \<ge> 0 then n else dst)"

definition envDuration :: "env_sys \<Rightarrow> string \<Rightarrow> int \<Rightarrow> int" where
  "envDuration es name dst =
     (let v = es_getenv es (str name) in
      if v = [] then dst
      else case es_parseDuration es v of Some d \<Rightarrow> if d > 0 then d else dst | None \<Rightarrow> dst)"

definition envInt64 :: "env_sys \<Rightarrow> string \<Rightarrow> int \<Rightarrow> int" where
  "envInt64 es name dst =
     (let v = es_getenv es (str name) in
      if v = [] then dst
      else case ParseInt v of (n, err) \<Rightarrow> if err = None \<and> n > 0 then n else dst)"

definition envBool :: "env_sys \<Rightarrow> string \<Rightarrow> bool \<Rightarrow> bool" where
  "envBool es name dst =
     (let v = es_getenv es (str name) in if v \<noteq> [] then parseBool (es_lower es) v dst else dst)"

section \<open>Overrides\<close>

definition applyListenEnv :: "env_sys \<Rightarrow> Config \<Rightarrow> Config" where
  "applyListenEnv es cfg =
     cfg\<lparr>cfg_ListenAddr := envString es ''AQUEDUCT_LISTEN_ADDR'' (cfg_ListenAddr cfg),
         cfg_MetricsAddr := envString es ''AQUEDUCT_METRICS_ADDR'' (cfg_MetricsAddr cfg)\<rparr>"

definition applyTLSEnv :: "env_sys \<Rightarrow> Config \<Rightarrow> Config" where
  "applyTLSEnv es cfg =
     (let t = cfg_TLS cfg in
      cfg\<lparr>cfg_TLS := t\<lparr>
        tls_Generate := envBool es ''AQUEDUCT_TLS_GENERATE'' (tls_Generate t),
        tls_CertFile := envString es ''AQUEDUCT_TLS_CERT_FILE'' (tls_CertFile t),
        tls_KeyFile := envString es ''AQUEDUCT_TLS_KEY_FILE'' (tls_KeyFile t),
        tls_RequireClientCert := envBool es ''AQUEDUCT_TLS_REQUIRE_CLIENT_CERT'' (tls_RequireClientCert t),
        tls_ClientCAFile := envString es ''AQUEDUCT_TLS_CLIENT_CA_FILE'' (tls_ClientCAFile t)\<rparr>\<rparr>)"

definition applyAALEnv :: "env_sys \<Rightarrow> Config \<Rightarrow> Config" where
  "applyAALEnv es cfg =
     (let a = cfg_AAL cfg in
      cfg\<lparr>cfg_AAL := a\<lparr>
        aal_Enabled := envBool es ''AQUEDUCT_AAL_ENABLED'' (aal_Enabled a),
        aal_FilePath := envString es ''AQUEDUCT_AAL_FILE_PATH'' (aal_FilePath a),
        aal_Key := envString es ''AQUEDUCT_AAL_KEY'' (aal_Key a),
        aal_MaxFileSize := envInt64 es ''AQUEDUCT_AAL_MAX_SIZE'' (aal_MaxFileSize a)\<rparr>\<rparr>)"

definition applyACLEnv :: "env_sys \<Rightarrow> Config \<Rightarrow> Config" where
  "applyACLEnv es cfg =
     (let a = cfg_ACL cfg in
      cfg\<lparr>cfg_ACL := a\<lparr>
        acl_Enabled := envBool es ''AQUEDUCT_ACL_ENABLED'' (acl_Enabled a),
        acl_Default := envString es ''AQUEDUCT_ACL_DEFAULT'' (acl_Default a)\<rparr>\<rparr>)"

definition applyAdminEnv :: "env_sys \<Rightarrow> Config \<Rightarrow> Config" where
  "applyAdminEnv es cfg =
     (let a = cfg_Admin cfg in
      cfg\<lparr>cfg_Admin := a\<lparr>
        adm_Enabled := envBool es ''AQUEDUCT_ADMIN_ENABLED'' (adm_Enabled a),
        adm_Addr := envString es ''AQUEDUCT_ADMIN_ADDR'' (adm_Addr a),
        adm_ClientCAFile := envString es ''AQUEDUCT_ADMIN_CLIENT_CA_FILE'' (adm_ClientCAFile a),
        adm_CNAllowlist := envStringList es ''AQUEDUCT_ADMIN_CN_ALLOWLIST'' (adm_CNAllowlist a)\<rparr>\<rparr>)"

definition applyBrokerEnv :: "env_sys \<Rightarrow> Config \<Rightarrow> Config" where
  "applyBrokerEnv es cfg =
     (let b = cfg_Broker cfg; q = bk_Quotas b in
      cfg\<lparr>cfg_Broker := b\<lparr>
        bk_BackpressurePolicy := envString es ''AQUEDUCT_BROKER_BACKPRESSURE_POLICY'' (bk_BackpressurePolicy b),
        bk_QueueSize := envPositiveInt es ''AQUEDUCT_BROKER_QUEUE_SIZE'' (bk_QueueSize b),
        bk_BatchSize := envPositiveInt es ''AQUEDUCT_BROKER_BATCH_SIZE'' (bk_BatchSize b),
        bk_FlushInterval := envDuration es ''AQUEDUCT_BROKER_FLUSH_INTERVAL'' (bk_FlushInterval b),
        bk_MaxRetries := envPositiveInt es ''AQUEDUCT_BROKER_MAX_RETRIES'' (bk_MaxRetries b),
        bk_Quotas := q\<lparr>
          qc_DefaultPublishRate := envNonNegativeInt es ''AQUEDUCT_BROKER_DEFAULT_PUBLISH_RATE'' (qc_DefaultPublishRate q),
          qc_DefaultBurstSize := envPositiveInt es ''AQUEDUCT_BROKER_DEFAULT_BURST_SIZE'' (qc_DefaultBurstSize q)\<rparr>\<rparr>\<rparr>)"

definition applyTransportEnv :: "env_sys \<Rightarrow> Config \<Rightarrow> Config" where
  "applyTransportEnv es cfg =
     (let t = cfg_Transport cfg in
      cfg\<lparr>cfg_Transport := t\<lparr>
        tr_MaxBufSize := envPositiveInt es ''AQUEDUCT_TRANSPORT_MAX_BUF_SIZE'' (tr_MaxBufSize t),
        tr_ReadBufSize := envPositiveInt es ''AQUEDUCT_TRANSPORT_READ_BUF_SIZE'' (tr_ReadBufSize t)\<rparr>\<rparr>)"

definition applyTracingEnv :: "env_sys \<Rightarrow> Config \<Rightarrow> Config" where
  "applyTracingEnv es cfg =
     (let t = cfg_Tracing cfg in
      cfg\<lparr>cfg_Tracing := t\<lparr>
        trc_Enabled := envBool es ''AQUEDUCT_TRACING_ENABLED'' (trc_Enabled t),
        trc_ServiceName := envString es ''AQUEDUCT_TRACING_SERVICE_NAME'' (trc_ServiceName t),
        trc_Endpoint := envString es ''AQUEDUCT_TRACING_ENDPOINT'' (trc_Endpoint t),
        trc_TLSEnabled := envBool es ''AQUEDUCT_TRACING_TLS_ENABLED'' (trc_TLSEnabled t),
        trc_CAFile := envString es ''AQUEDUCT_TRACING_CA_FILE'' (trc_CAFile t)\<rparr>\<rparr>)"

definition applyClusterEnv :: "env_sys \<Rightarrow> Config \<Rightarrow> Config" where
  "applyClusterEnv es cfg =
     (let c = cfg_Cluster cfg; d = cl_Discovery c; m = cl_Mesh c in
      cfg\<lparr>cfg_Cluster := c\<lparr>
        cl_Discovery := d\<lparr>
          cd_Enabled := envBool es ''AQUEDUCT_CLUSTER_DISCOVERY_ENABLED'' (cd_Enabled d),
          cd_Host := envString es ''AQUEDUCT_CLUSTER_DISCOVERY_HOST'' (cd_Host d),
          cd_Port := envString es ''AQUEDUCT_CLUSTER_DISCOVERY_PORT'' (cd_Port d),
          cd_Interval := envString es ''AQUEDUCT_CLUSTER_DISCOVERY_INTERVAL'' (cd_Interval d)\<rparr>,
        cl_Mesh := m\<lparr>
          mesh_InsecureSkipVerify := envBool es ''AQUEDUCT_CLUSTER_MESH_INSECURE_SKIP_VERIFY'' (mesh_InsecureSkipVerify m),
          mesh_CAFile := envString es ''AQUEDUCT_CLUSTER_MESH_CA_FILE'' (mesh_CAFile m)\<rparr>\<rparr>\<rparr>)"

definition applyCompressionEnv :: "env_sys \<Rightarrow> Config \<Rightarrow> Config" where
  "applyCompressionEnv es cfg =
     (let c = cfg_Compression cfg in
      cfg\<lparr>cfg_Compression := c\<lparr>
        cmp_Enabled := envBool es ''AQUEDUCT_COMPRESSION_ENABLED'' (cmp_Enabled c)\<rparr>\<rparr>)"

definition applyWebTransportEnv :: "env_sys \<Rightarrow> Config \<Rightarrow> Config" where
  "applyWebTransportEnv es cfg =
     (let w = cfg_WebTransport cfg in
      cfg\<lparr>cfg_WebTransport := w\<lparr>
        wt_Enabled := envBool es ''AQUEDUCT_WEBTRANSPORT_ENABLED'' (wt_Enabled w),
        wt_ListenAddr := envString es ''AQUEDUCT_WEBTRANSPORT_LISTEN_ADDR'' (wt_ListenAddr w),
        wt_PathPrefix := envString es ''AQUEDUCT_WEBTRANSPORT_PATH_PREFIX'' (wt_PathPrefix w)\<rparr>\<rparr>)"

definition applyEnvOverrides :: "env_sys \<Rightarrow> Config \<Rightarrow> Config" where
  "applyEnvOverrides es cfg =
     applyWebTransportEnv es (applyCompressionEnv es (applyClusterEnv es (applyTracingEnv es (applyTransportEnv es
       (applyBrokerEnv es (applyAdminEnv es (applyACLEnv es (applyAALEnv es (applyTLSEnv es (applyListenEnv es cfg))))))))))"

datatype config_error = ErrReadFile bytes | ErrUnmarshal

text \<open>\<open>unmarshal\<close> writes the values of a YAML document over a configuration.\<close>

definition Load :: "env_sys \<Rightarrow> (bytes \<Rightarrow> bytes option) \<Rightarrow> (bytes \<Rightarrow> Config \<Rightarrow> Config option) \<Rightarrow> bytes \<Rightarrow>
    (config_error, Config) res" where
  "Load es readFile unmarshal path =
     (let cfg = Default in
      if path \<noteq> [] then
        (case readFile path of
           None \<Rightarrow> Err (ErrReadFile path)
         | Some data \<Rightarrow>
             (case unmarshal data cfg of
                None \<Rightarrow> Err ErrUnmarshal
              | Some cfg \<Rightarrow> Ok (applyEnvOverrides es cfg)))
      else Ok (applyEnvOverrides es cfg))"

section \<open>Properties\<close>

lemmas override_defs = applyEnvOverrides_def applyListenEnv_def applyTLSEnv_def applyAALEnv_def applyACLEnv_def applyAdminEnv_def
  applyBrokerEnv_def applyTransportEnv_def applyTracingEnv_def applyClusterEnv_def applyCompressionEnv_def applyWebTransportEnv_def

text \<open>The settings the components rely on: sizes, intervals and limits are positive.\<close>

definition usable :: "Config \<Rightarrow> bool" where
  "usable cfg \<longleftrightarrow>
     0 < bk_QueueSize (cfg_Broker cfg) \<and> 0 < bk_BatchSize (cfg_Broker cfg) \<and> 0 < bk_FlushInterval (cfg_Broker cfg) \<and>
     0 < bk_MaxRetries (cfg_Broker cfg) \<and> 0 \<le> qc_DefaultPublishRate (bk_Quotas (cfg_Broker cfg)) \<and>
     0 < qc_DefaultBurstSize (bk_Quotas (cfg_Broker cfg)) \<and> 0 < tr_MaxBufSize (cfg_Transport cfg) \<and>
     0 < tr_ReadBufSize (cfg_Transport cfg) \<and> 0 < aal_MaxFileSize (cfg_AAL cfg)"

lemma env_ints:
  "0 < dst \<Longrightarrow> 0 < envPositiveInt es name dst" "0 \<le> dst \<Longrightarrow> 0 \<le> envNonNegativeInt es name dst"
  "0 < dst \<Longrightarrow> 0 < envDuration es name dst" "0 < dst \<Longrightarrow> 0 < envInt64 es name dst"
  by (auto simp: envPositiveInt_def envNonNegativeInt_def envDuration_def envInt64_def Let_def split: prod.split option.split)

lemma env_idem [simp]:
  "envString es name (envString es name x) = envString es name x"
  "envStringList es name (envStringList es name xs) = envStringList es name xs"
  "envBool es name (envBool es name p) = envBool es name p"
  "envPositiveInt es name (envPositiveInt es name k) = envPositiveInt es name k"
  "envNonNegativeInt es name (envNonNegativeInt es name k) = envNonNegativeInt es name k"
  "envDuration es name (envDuration es name k) = envDuration es name k"
  "envInt64 es name (envInt64 es name k) = envInt64 es name k"
  by (auto simp: envString_def envStringList_def envBool_def parseBool_def envPositiveInt_def envNonNegativeInt_def
      envDuration_def envInt64_def Let_def split: prod.split option.split)

lemma overrides_usable: "usable cfg \<Longrightarrow> usable (applyEnvOverrides es cfg)"
  by (simp add: usable_def override_defs Let_def env_ints)

lemma Default_usable: "usable Default"
  by (simp add: usable_def Default_def)

lemma overrides_idem: "applyEnvOverrides es (applyEnvOverrides es cfg) = applyEnvOverrides es cfg"
  by (simp add: override_defs Let_def)



end
