(* ===== verification/Tls.thy ===== *)
theory Tls
  imports Aqueduct_Prelude
begin

text \<open>
  The part of \<open>crypto/tls\<close> configurations the servers set up: certificates, protocols, the verification of clients and of
  servers. Pools of certificate authorities are the PEM data they are read from. ALPN is negotiated the way the
  standard library does it.
\<close>

datatype certificate = SelfSigned | KeyPair bytes bytes

record tls_conf =
  tc_Certificates :: "certificate list"
  tc_NextProtos :: "bytes list"
  tc_MinVersion :: nat
  tc_RequireClientCert :: bool
  tc_ClientCAs :: "bytes option"
  tc_RootCAs :: "bytes option"
  tc_InsecureSkipVerify :: bool

definition empty_tls :: tls_conf where
  "empty_tls = \<lparr>tc_Certificates = [], tc_NextProtos = [], tc_MinVersion = 0, tc_RequireClientCert = False,
     tc_ClientCAs = None, tc_RootCAs = None, tc_InsecureSkipVerify = False\<rparr>"

definition VersionTLS13 :: nat where "VersionTLS13 = 772"

text \<open>The server picks its first protocol that the client offers; without a common one the handshake fails. A side
  without protocols does not negotiate.\<close>

definition negotiateALPN :: "bytes list \<Rightarrow> bytes list \<Rightarrow> bytes option option" where
  "negotiateALPN serverProtos clientProtos =
     (if serverProtos = [] \<or> clientProtos = [] then Some None
      else case filter (\<lambda>p. p \<in> set clientProtos) serverProtos of
             p # _ \<Rightarrow> Some (Some p)
           | [] \<Rightarrow> None)"

end
