(* ===== verification/Tracing.thy ===== *)
theory Tracing
  imports Transport_Props Config Tls
begin

text \<open>
  The tracer of \<^verbatim>\<open>internal/tracing\<close>: how it is set up from its configuration and which parent a span gets. The
  OpenTelemetry library is a parameter: whether it can make the resource and the exporter. A context is the remote span
  it carries, if any, and the library starts a span as a child of that.
\<close>

section \<open>The tracer\<close>

record span_context =
  sc_TraceID :: bytes
  sc_SpanID :: bytes
  sc_TraceFlags :: byte
  sc_Remote :: bool

definition empty_span_context :: span_context where
  "empty_span_context = \<lparr>sc_TraceID = replicate 16 0, sc_SpanID = replicate 8 0, sc_TraceFlags = 0, sc_Remote = False\<rparr>"

type_synonym span_ctx = "span_context option"

text \<open>A tracer that is off has neither provider nor tracer; otherwise it has the name of the service and its exporter.\<close>

record Exporter =
  ex_endpoint :: bytes
  ex_tls :: "tls_conf option"

record Tracer =
  t_provider :: "Exporter option"
  t_tracer :: "bytes option"

datatype tracing_error = errResource | errReadCA | errParseCA | errExporter

definition New_tracer :: "(bytes \<Rightarrow> bytes option) \<Rightarrow> (bytes \<Rightarrow> bool) \<Rightarrow> bool \<Rightarrow> bool \<Rightarrow> TracingConfig \<Rightarrow> (tracing_error, Tracer) res" where
  "New_tracer readFile validPEM resourceOk exporterOk cfg =
     (if \<not> trc_Enabled cfg then Ok \<lparr>t_provider = None, t_tracer = None\<rparr>
      else let serviceName = (if trc_ServiceName cfg = [] then str ''aqueduct-broker'' else trc_ServiceName cfg) in
        if \<not> resourceOk then Err errResource
        else let endpoint = (if trc_Endpoint cfg = [] then str ''localhost:4317'' else trc_Endpoint cfg) in
          rbind (if trc_TLSEnabled cfg then
                   let tlsCfg = empty_tls\<lparr>tc_MinVersion := VersionTLS13\<rparr> in
                   if trc_CAFile cfg \<noteq> [] then
                     (case readFile (trc_CAFile cfg) of
                        None \<Rightarrow> Err errReadCA
                      | Some caPEM \<Rightarrow>
                          if validPEM caPEM then Ok (Some (tlsCfg\<lparr>tc_RootCAs := Some caPEM\<rparr>)) else Err errParseCA)
                   else Ok (Some tlsCfg)
                 else Ok None)
            (\<lambda>creds. if exporterOk then Ok \<lparr>t_provider = Some \<lparr>ex_endpoint = endpoint, ex_tls = creds\<rparr>, t_tracer = Some serviceName\<rparr>
                     else Err errExporter))"

text \<open>The span that is started, if one is, as its name and its parent.\<close>

definition StartSpan :: "Tracer \<Rightarrow> span_ctx \<Rightarrow> bytes \<Rightarrow> (bytes \<times> span_ctx) option" where
  "StartSpan t ctx name = (if t_tracer t = None then None else Some (name, ctx))"

definition StartSpanWithTraceContext :: "Tracer \<Rightarrow> span_ctx \<Rightarrow> bytes \<Rightarrow> bytes \<Rightarrow> bytes \<Rightarrow> byte \<Rightarrow> (bytes \<times> span_ctx) option" where
  "StartSpanWithTraceContext t ctx name traceID spanID traceFlags =
     (if t_tracer t = None then None
      else if length traceID < 16 \<or> length spanID < 8 then StartSpan t (Some empty_span_context) name
      else let tid = take 16 traceID; sid = take 8 spanID;
               sc = \<lparr>sc_TraceID = tid, sc_SpanID = sid, sc_TraceFlags = traceFlags, sc_Remote = True\<rparr>
           in StartSpan t (Some sc) name)"

definition IsEnabled :: "Tracer \<Rightarrow> bool" where
  "IsEnabled t \<longleftrightarrow> t_tracer t \<noteq> None"

text \<open>\<open>providerErr\<close> is the error of the provider.\<close>

definition Shutdown_tracer :: "'e option \<Rightarrow> Tracer \<Rightarrow> 'e option" where
  "Shutdown_tracer providerErr t = (if t_provider t = None then None else providerErr)"

section \<open>Properties\<close>

lemma New_tracer_enabled:
  "New_tracer readFile validPEM r e cfg = Ok t \<Longrightarrow> IsEnabled t \<longleftrightarrow> trc_Enabled cfg"
  by (auto simp: New_tracer_def IsEnabled_def Let_def rbind_eq_Ok split: if_splits)

text \<open>The spans the broker starts for the frames of a run, in order.\<close>

fun spans :: "Tracer \<Rightarrow> stream_effect list \<Rightarrow> (bytes \<times> span_ctx) option list" where
  "spans t [] = []"
| "spans t (SpanStarted name traceID spanID flags sid batch # es) = StartSpanWithTraceContext t None name traceID spanID flags # spans t es"
| "spans t (_ # es) = spans t es"

lemma spans_append: "spans t (xs @ ys) = spans t xs @ spans t ys"
  by (induction t xs rule: spans.induct) simp_all

text \<open>Traces continue through the broker. When a frame carries a trace context in its extensions, the span the broker
  starts for publishing it has exactly that trace, span and flags as its remote parent, and the name of what is done.\<close>

theorem trace_context_propagates:
  assumes "buffer_source acq" "br_tracer b" "IsEnabled t" "length tid = 16" "length sid = 8"
    and "BuildExtensions acq tid sid flags = Ok (f_Extensions f)"
  shows "spans t (br_effects (startPublishSpan name f batch b)) = spans t (br_effects b) @
    [Some (name, Some \<lparr>sc_TraceID = tid, sc_SpanID = sid, sc_TraceFlags = flags, sc_Remote = True\<rparr>)]"
proof -
  have e: "f_Extensions f = enc_block [(ExtTraceContext, tid @ sid @ [flags])]"
    using assms(4-6) by (simp add: buffer_source.BuildExtensions_eq [OF assms(1)])
  have "(ExtractTraceContext (f_Extensions f) :: (unit, _) res) = Ok (Some (tid, sid, flags))"
    using assms(4,5) unfolding e by (simp add: ExtractTraceContext_enc)
  moreover have "HasExtensions f" unfolding HasExtensions_def e by (simp add: enc_block_def)
  ultimately have "br_effects (startPublishSpan name f batch b) = br_effects b @ [SpanStarted name tid sid flags (f_StreamID f) batch]"
    using assms(2) by (simp add: startPublishSpan_def note_effect_def)
  then show ?thesis
    using assms(3-5) by (simp add: spans_append StartSpanWithTraceContext_def StartSpan_def IsEnabled_def)
qed

end
