(* ===== verification/Admin.thy ===== *)
theory Admin
  imports Tls Authz Quotas Topics
begin

text \<open>
  The administration server of \<^verbatim>\<open>internal/admin\<close>: who may call it, and the two calls that change quotas and access rules
  while the broker runs. gRPC and TLS are parameters: a caller is what TLS knows of it.
\<close>

section \<open>Server\<close>

text \<open>A caller has no authentication, one other than TLS, or TLS with the common names of its certificates.\<close>

datatype caller = NoAuthInfo | OtherAuth | TLSAuth "bytes list"

datatype admin_status = Unauthenticated | PermissionDenied | InvalidArgument | Unavailable

record Server =
  sv_quotaManager :: "Manager option"
  sv_authzEngine :: "Engine option"
  sv_clientCAPool :: "bytes option"
  sv_cnAllowlist :: "bytes list option"
  sv_requests :: "bytes list"

definition NewServer :: "Manager option \<Rightarrow> Engine option \<Rightarrow> (Server \<Rightarrow> Server) list \<Rightarrow> Server" where
  "NewServer quotaManager authzEngine opts =
     fold (\<lambda>opt s. opt s) opts
       \<lparr>sv_quotaManager = quotaManager, sv_authzEngine = authzEngine, sv_clientCAPool = None, sv_cnAllowlist = None, sv_requests = []\<rparr>"

text \<open>\<open>validPEM\<close> says whether the data has a certificate.\<close>

definition WithClientCAFile :: "(bytes \<Rightarrow> bytes option) \<Rightarrow> (bytes \<Rightarrow> bool) \<Rightarrow> bytes \<Rightarrow> Server \<Rightarrow> Server" where
  "WithClientCAFile readFile validPEM path s =
     (if path = [] then s
      else case readFile path of
        None \<Rightarrow> s
      | Some caPEM \<Rightarrow> if validPEM caPEM then s\<lparr>sv_clientCAPool := Some caPEM\<rparr> else s)"

text \<open>\<open>trim\<close> is \<open>strings.TrimSpace\<close> for names outside ASCII.\<close>

definition trim_name :: "(bytes \<Rightarrow> bytes) \<Rightarrow> bytes \<Rightarrow> bytes" where
  "trim_name trim cn = (if \<forall>c\<in>set cn. c < 128 then TrimSpace cn else trim cn)"

definition WithCNAllowlist :: "(bytes \<Rightarrow> bytes) \<Rightarrow> bytes list \<Rightarrow> Server \<Rightarrow> Server" where
  "WithCNAllowlist trim cns s =
     (if length cns = 0 then s else s\<lparr>sv_cnAllowlist := Some (map (trim_name trim) cns)\<rparr>)"

text \<open>The TLS configuration the server listens with; \<open>None\<close> is a server without TLS.\<close>

definition Start_tls :: "Server \<Rightarrow> tls_conf option \<Rightarrow> tls_conf option" where
  "Start_tls s tlsConfig =
     (case tlsConfig of None \<Rightarrow> None
      | Some tc \<Rightarrow>
          (case sv_clientCAPool s of
             Some pool \<Rightarrow> Some (tc\<lparr>tc_ClientCAs := Some pool, tc_RequireClientCert := True\<rparr>)
           | None \<Rightarrow> Some tc))"

definition extractCallerCN :: "caller \<Rightarrow> bytes" where
  "extractCallerCN p = (case p of TLSAuth (cn # _) \<Rightarrow> cn | _ \<Rightarrow> str ''unknown'')"

section \<open>Calls\<close>

definition count_request :: "string \<Rightarrow> Server \<Rightarrow> Server" where
  "count_request rpc s = s\<lparr>sv_requests := sv_requests s @ [str rpc]\<rparr>"

text \<open>The rate of the request has 64 bits, like an \<open>int\<close>.\<close>

definition SetClientQuota :: "bytes \<Rightarrow> int \<Rightarrow> Server \<Rightarrow> (admin_status, bool) res \<times> Server" where
  "SetClientQuota clientId newRate s =
     (let s = count_request ''SetClientQuota'' s in
      if clientId = [] then (Err InvalidArgument, s)
      else (Ok True, if sv_quotaManager s \<noteq> None
                     then s\<lparr>sv_quotaManager := Manager_SetRate (sv_quotaManager s) clientId newRate 0\<rparr> else s))"

definition parse_permission :: "(bytes \<Rightarrow> bytes) \<Rightarrow> bytes \<Rightarrow> Permission" where
  "parse_permission uni p =
     (let t = normalise uni p in
      if t = str ''publish'' then PermPublish
      else if t = str ''subscribe'' then PermSubscribe
      else if t = str ''all'' then PermAll
      else if t = str ''none'' then PermNone
      else PermNone)"

fun new_rules :: "(bytes \<Rightarrow> bytes) \<Rightarrow> (bytes \<times> bytes \<times> bytes) list \<Rightarrow> rules \<Rightarrow> rules" where
  "new_rules uni [] newRules = newRules"
| "new_rules uni ((clientId, topic, permission) # rs) newRules =
     (let perm = parse_permission uni permission;
          key = CombineHashStrings clientId topic;
          old = (case map_of newRules key of None \<Rightarrow> 0 | Some p \<Rightarrow> p)
      in new_rules uni rs (AList.update key (old OR perm) newRules))"

definition UpdateACL :: "(bytes \<Rightarrow> bytes) \<Rightarrow> (bytes \<times> bytes \<times> bytes) list \<Rightarrow> Server \<Rightarrow>
    (admin_status, bool \<times> 32 word) res \<times> Server" where
  "UpdateACL uni rs s =
     (let s = count_request ''UpdateACL'' s in
      if sv_authzEngine s = None then (Err Unavailable, s)
      else let newRules = new_rules uni rs []
           in (Ok (True, of_nat (length newRules)), s\<lparr>sv_authzEngine := Reload (sv_authzEngine s) (Some newRules)\<rparr>))"

section \<open>The interceptor\<close>

definition admin_allowed :: "Server \<Rightarrow> bytes \<Rightarrow> bool" where
  "admin_allowed s cn =
     (case sv_cnAllowlist s of
        Some l \<Rightarrow> cn \<in> set l
      | None \<Rightarrow> HasPrefix cn (str ''admin-''))"

definition adminAuthInterceptor :: "caller \<Rightarrow> (Server \<Rightarrow> (admin_status, 'a) res \<times> Server) \<Rightarrow> Server \<Rightarrow>
    (admin_status, 'a) res \<times> Server" where
  "adminAuthInterceptor p handler s =
     (case p of
        TLSAuth (cn # _) \<Rightarrow> if admin_allowed s cn then handler s else (Err PermissionDenied, s)
      | _ \<Rightarrow> (Err Unauthenticated, s))"

section \<open>Properties\<close>

definition is_admin :: "Server \<Rightarrow> caller \<Rightarrow> bool" where
  "is_admin s p \<longleftrightarrow> (\<exists>cn cns. p = TLSAuth (cn # cns) \<and> admin_allowed s cn)"

lemma interceptor_cases:
  "adminAuthInterceptor p h s = (if is_admin s p then h s else (Err (if extractCallerCN p = str ''unknown'' \<and> \<not> (\<exists>cn cns. p = TLSAuth (cn # cns))
     then Unauthenticated else PermissionDenied), s))"
  by (auto simp: adminAuthInterceptor_def is_admin_def extractCallerCN_def split: caller.split list.split)

abbreviation parsed_grants :: "(bytes \<Rightarrow> bytes) \<Rightarrow> (bytes \<times> bytes \<times> bytes) list \<Rightarrow> grant list" where
  "parsed_grants uni rs \<equiv> map (\<lambda>(c, t, p). (c, t, parse_permission uni p)) rs"

lemma new_rules_build: "new_rules uni rs rules =
    b_rules (fold (\<lambda>(c, t, p) b. Allow b c t p) (parsed_grants uni rs) \<lparr>b_rules = rules, b_defaultPerm = d\<rparr>)"
proof (induction uni rs rules rule: new_rules.induct)
  case (2 uni c t p rs rules)
  then show ?case by (simp add: Allow_def Let_def)
qed simp

lemma UpdateACL_decides:
  assumes "sv_authzEngine s = Some e" "UpdateACL uni rs s = (res, s')"
    and "list_all (\<lambda>(c', t', p). CombineHashes c' t' = CombineHashes c t \<longrightarrow> c' = c \<and> t' = t) (parsed_grants uni rs)"
  shows "Allowed (sv_authzEngine s') c t req \<longleftrightarrow>
    (case granted (parsed_grants uni rs) (\<lambda>x. x = (c, t)) of None \<Rightarrow> defaultPerm e | Some p \<Rightarrow> p) AND req \<noteq> 0"
proof -
  let ?gs = "parsed_grants uni rs"
  have r: "new_rules uni rs [] = b_rules (build_all ?gs d)" for d
    using new_rules_build [of uni rs "[]" d] by (simp add: build_all_def NewBuilder_def)
  have "sv_authzEngine s' = Some (e\<lparr>rulesPtr := Some (new_rules uni rs [])\<rparr>)"
    using assms(1,2) by (auto simp: UpdateACL_def Let_def count_request_def Reload_def)
  then show ?thesis
    by (simp add: Allowed_def r [of 0] map_of_pair [OF assms(3)] Let_def split: option.split)
qed



end
