(* ===== verification/Gateway.thy ===== *)
theory Gateway
  imports Transport_Props Tls
begin

text \<open>
  From connections to streams: the accept loops of the QUIC broker, and the WebTransport gateway of
  \<^verbatim>\<open>internal/webtransport\<close>, which hands the streams of browsers to the same broker. QUIC and HTTP/3 are parameters: a
  connection is the common names of its certificates and the answers of \<open>AcceptStream\<close>. A loop returns the
  goroutines it starts, each a stream to handle and the identity of the client.
\<close>

section \<open>Native connections\<close>

datatype 'a accepted = Accepted 'a | AcceptFailed

type_synonym task = "stream \<times> bytes"

fun accept_streams :: "bytes \<Rightarrow> stream accepted list \<Rightarrow> task list" where
  "accept_streams clientID (Accepted s # as) = (s, clientID) # accept_streams clientID as"
| "accept_streams clientID as = []"

definition runHandleConn :: "bytes list \<Rightarrow> stream accepted list \<Rightarrow> task list" where
  "runHandleConn certs as = accept_streams (client_identity certs) as"

text \<open>Every error of \<open>Accept\<close> ends the loop of the broker.\<close>

fun runAcceptLoop :: "(bytes list \<times> stream accepted list) accepted list \<Rightarrow> task list" where
  "runAcceptLoop (Accepted (certs, as) # conns) = runHandleConn certs as @ runAcceptLoop conns"
| "runAcceptLoop conns = []"

section \<open>The gateway\<close>

definition alpnH3 :: bytes where "alpnH3 = str ''h3''"
definition DefaultPathPrefix :: bytes where "DefaultPathPrefix = str ''/aqueduct/wt''"
definition handshakeTimeout :: int where "handshakeTimeout = 10 * 1000000000"

record Gateway =
  g_listener :: bool
  g_broker :: bool
  g_pathPrefix :: bytes
  g_handshakeTimeout :: int
  g_stopped :: bool
  g_tlsConfig :: "tls_conf option"
  g_listenerAddr :: "bytes option"
  g_listenerClosed :: bool

definition WithPathPrefix :: "bytes \<Rightarrow> Gateway \<Rightarrow> Gateway" where
  "WithPathPrefix prefix g = (if prefix \<noteq> [] then g\<lparr>g_pathPrefix := prefix\<rparr> else g)"

definition WithHandshakeTimeout :: "int \<Rightarrow> Gateway \<Rightarrow> Gateway" where
  "WithHandshakeTimeout d g = (if d > 0 then g\<lparr>g_handshakeTimeout := d\<rparr> else g)"

definition WithBroker :: "bool \<Rightarrow> Gateway \<Rightarrow> Gateway" where
  "WithBroker b g = g\<lparr>g_broker := b\<rparr>"

text \<open>The broker is required; the error is \<open>None\<close>.\<close>

definition NewGateway :: "(Gateway \<Rightarrow> Gateway) list \<Rightarrow> Gateway option" where
  "NewGateway opts =
     (let g = fold (\<lambda>opt g. opt g) opts
        \<lparr>g_listener = False, g_broker = False, g_pathPrefix = DefaultPathPrefix, g_handshakeTimeout = handshakeTimeout,
         g_stopped = False, g_tlsConfig = None, g_listenerAddr = None, g_listenerClosed = False\<rparr>
      in if \<not> g_broker g then None else Some g)"

definition cloneTLSForH3 :: "tls_conf option \<Rightarrow> tls_conf" where
  "cloneTLSForH3 base =
     (case base of
        None \<Rightarrow> empty_tls\<lparr>tc_MinVersion := VersionTLS13, tc_NextProtos := [alpnH3]\<rparr>
      | Some base \<Rightarrow>
          let nextProtos = tc_NextProtos base;
              hasH3 = list_ex (\<lambda>p. p = alpnH3) nextProtos;
              nextProtos = (if \<not> hasH3 then nextProtos @ [alpnH3] else nextProtos)
          in base\<lparr>tc_NextProtos := nextProtos, tc_MinVersion := VersionTLS13\<rparr>)"

text \<open>\<open>configure\<close> is \<open>http3.ConfigureTLSConfig\<close>, \<open>listen\<close> the address QUIC binds, if it can.\<close>

definition ListenAndServe :: "(tls_conf \<Rightarrow> tls_conf) \<Rightarrow> bytes option \<Rightarrow> tls_conf option \<Rightarrow> Gateway \<Rightarrow> bool \<times> Gateway" where
  "ListenAndServe configure listen baseTLS g =
     (let g = g\<lparr>g_tlsConfig := Some (configure (cloneTLSForH3 baseTLS))\<rparr> in
      case listen of
        None \<Rightarrow> (False, g)
      | Some addr \<Rightarrow> (True, g\<lparr>g_listener := True, g_listenerAddr := Some addr\<rparr>))"

definition Gateway_Addr :: "Gateway \<Rightarrow> bytes" where
  "Gateway_Addr g = (case g_listenerAddr g of Some a \<Rightarrow> a | None \<Rightarrow> [])"

definition Gateway_Close :: "Gateway \<Rightarrow> Gateway" where
  "Gateway_Close g =
     (if g_stopped g then g
      else let g = g\<lparr>g_stopped := True\<rparr> in if g_listener g then g\<lparr>g_listenerClosed := True\<rparr> else g)"

text \<open>The identity of a client of the gateway.\<close>

definition clientIDFromConn :: "bytes list \<Rightarrow> bytes" where
  "clientIDFromConn certs =
     (if length certs = 0 then str ''anonymous''
      else let cn = certs ! 0 in if cn \<noteq> [] then cn else str ''anonymous'')"

text \<open>The handler of the one HTTP request: its status. \<open>hijackable\<close> says whether the response gives its stream.\<close>

record http_request =
  rq_Proto :: bytes
  rq_Path :: bytes

definition handler :: "Gateway \<Rightarrow> bool \<Rightarrow> http_request \<Rightarrow> nat" where
  "handler g hijackable r =
     (if rq_Proto r \<noteq> str ''webtransport'' then 405
      else if rq_Path r \<noteq> g_pathPrefix g then 404
      else if \<not> hijackable then 500
      else 200)"

datatype conn_effect = Responded nat | Cancelled | ConnClosed bytes

text \<open>\<open>req\<close> is the request on the first stream, or \<open>None\<close> when the handshake takes longer than the timeout.\<close>

definition serveHandshake :: "Gateway \<Rightarrow> bool \<Rightarrow> http_request option \<Rightarrow> conn_effect list" where
  "serveHandshake g hijackable req =
     (case req of
        Some r \<Rightarrow> [Responded (handler g hijackable r)]
      | None \<Rightarrow> [Cancelled, ConnClosed (str ''wt handshake timeout'')])"

fun serveDataStreams :: "bytes list \<Rightarrow> stream accepted list \<Rightarrow> task list" where
  "serveDataStreams certs (Accepted s # as) = (s, clientIDFromConn certs) # serveDataStreams certs as"
| "serveDataStreams certs as = []"

text \<open>\<open>h3\<close> says whether HTTP/3 could be set up, \<open>first\<close> whether a first stream came.\<close>

definition handleConn :: "Gateway \<Rightarrow> bool \<Rightarrow> bool \<Rightarrow> bool \<Rightarrow> http_request option \<Rightarrow> bytes list \<Rightarrow> stream accepted list \<Rightarrow>
    conn_effect list \<times> task list" where
  "handleConn g h3 first hijackable req certs as =
     (if \<not> h3 then ([ConnClosed (str ''h3 init failed'')], [])
      else if \<not> first then ([ConnClosed (str ''no handshake stream'')], [])
      else (serveHandshake g hijackable req, serveDataStreams certs as))"

text \<open>An error of \<open>Accept\<close> ends the loop of the gateway when it is stopped, its listener closed or its context done.\<close>

datatype gw_accept = GwConn "task list" | GwStopped | GwError

fun gateway_accept_loop :: "gw_accept list \<Rightarrow> task list" where
  "gateway_accept_loop (GwConn ts # as) = ts @ gateway_accept_loop as"
| "gateway_accept_loop (GwError # as) = gateway_accept_loop as"
| "gateway_accept_loop _ = []"

section \<open>Properties\<close>

lemma clientIDFromConn_eq: "clientIDFromConn certs = client_identity certs"
  by (cases certs) (simp_all add: clientIDFromConn_def client_identity_def Let_def)

lemma serveDataStreams_eq: "serveDataStreams certs as = runHandleConn certs as"
  by (induction certs as rule: serveDataStreams.induct) (simp_all add: runHandleConn_def clientIDFromConn_eq)

text \<open>A browser has the rights of its certificate, and needs no accepted handshake. Once HTTP/3 is set up and a first
  stream has come, the gateway hands exactly the streams to the broker, under exactly the identity, that the QUIC broker
  would for the same certificates; this is so whatever the request on the first stream is, also when it is refused
  because of its protocol or its path, which the code means to end the connection.\<close>

theorem gateway_streams_as_native:
  assumes "h3" "first"
  shows "snd (handleConn g h3 first hijackable req certs as) = runHandleConn certs as \<and>
    (\<forall>r. req = Some r \<longrightarrow> rq_Path r \<noteq> g_pathPrefix g \<longrightarrow>
      (\<exists>status\<ge>400. fst (handleConn g h3 first hijackable req certs as) = [Responded status]))"
  using assms by (auto simp: handleConn_def serveDataStreams_eq serveHandshake_def handler_def)

theorem gateway_streams_as_native_witness:
  "\<exists>g. NewGateway [WithBroker True] = Some g \<and>
     snd (handleConn g True True True (Some \<lparr>rq_Proto = str ''webtransport'', rq_Path = str ''/x''\<rparr>) [str ''c''] [Accepted stream0]) =
       [(stream0, str ''c'')] \<and>
     (\<exists>status\<ge>400. fst (handleConn g True True True (Some \<lparr>rq_Proto = str ''webtransport'', rq_Path = str ''/x''\<rparr>) [str ''c''] [Accepted stream0]) =
       [Responded status])"
proof -
  obtain g where g: "NewGateway [WithBroker True] = Some g" "g_pathPrefix g = DefaultPathPrefix"
    by (simp add: NewGateway_def WithBroker_def)
  have "str ''/x'' \<noteq> DefaultPathPrefix" "str ''c'' \<noteq> []" by code_simp+
  then show ?thesis
    using gateway_streams_as_native [of True True g True "Some \<lparr>rq_Proto = str ''webtransport'', rq_Path = str ''/x''\<rparr>" "[str ''c'']" "[Accepted stream0]"] g
    by (auto simp: runHandleConn_def client_identity_def)
qed

text \<open>The protocols of the gateway.\<close>

lemma cloneTLSForH3_protos:
  "alpnH3 \<in> set (tc_NextProtos (cloneTLSForH3 base))" "tc_MinVersion (cloneTLSForH3 base) = VersionTLS13"
  "base = Some tc \<Longrightarrow> \<exists>suffix. tc_NextProtos (cloneTLSForH3 base) = tc_NextProtos tc @ suffix"
  by (auto simp: cloneTLSForH3_def Let_def list_ex_iff split: option.split)

section \<open>The end of a stream\<close>

lemma leave_group_active [simp]: "r_active (leave_group i r) = r_active r" "r_streamIDs (leave_group i r) = r_streamIDs r"
  by (auto simp: leave_group_def rebuildGroupMembersLocked_def Let_def split: option.split prod.split)

lemma unsubscribe_active:
  "r_streamIDs (fold (unsubscribe_slot sid) is r) = r_streamIDs r"
  "j < length (r_active r) \<Longrightarrow> r_active (fold (unsubscribe_slot sid) is r) ! j = (r_active r ! j \<and> \<not> (j \<in> set is \<and> r_streamIDs r ! j = sid))"
proof -
  have "r_streamIDs (fold (unsubscribe_slot sid) is r) = r_streamIDs r \<and> (\<forall>j < length (r_active r).
      r_active (fold (unsubscribe_slot sid) is r) ! j = (r_active r ! j \<and> \<not> (j \<in> set is \<and> r_streamIDs r ! j = sid)))"
  proof (induction "is" arbitrary: r)
    case (Cons i "is")
    have u: "r_streamIDs (unsubscribe_slot sid i r) = r_streamIDs r" "length (r_active (unsubscribe_slot sid i r)) = length (r_active r)"
      by (simp_all add: unsubscribe_slot_def)
    have "r_active (unsubscribe_slot sid i r) ! j = (r_active r ! j \<and> \<not> (j = i \<and> r_streamIDs r ! j = sid))" if "j < length (r_active r)" for j
      using that by (auto simp: unsubscribe_slot_def nth_update_any)
    then show ?case using Cons.IH [of "unsubscribe_slot sid i r"] u by auto
  qed simp
  then show "r_streamIDs (fold (unsubscribe_slot sid) is r) = r_streamIDs r"
    "j < length (r_active r) \<Longrightarrow> r_active (fold (unsubscribe_slot sid) is r) ! j = (r_active r ! j \<and> \<not> (j \<in> set is \<and> r_streamIDs r ! j = sid))"
    by simp_all
qed

text \<open>C37: The end of a stream ends subscriptions by number, not by owner. When a stream ends, without having sent anything,
  the subscriptions that become inactive are exactly those registered with its number, whichever client and stream they
  belong to; a subscription that the same stream made under another number stays. QUIC numbers the streams of every
  connection from zero, and the number of a subscription is chosen by the client.\<close>

theorem stream_end_unsubscribes_by_number:
  assumes "br_router b = Some r" "router_reach mt opts r" "0 < br_readBufSize b"
  shows "\<exists>b' r'. HandleStream te raw s c [(0, True)] [] b = Torn_down 0 b' \<and> br_router b' = Some r' \<and>
    (\<forall>i < slots r. r_active r' ! i \<longleftrightarrow> r_active r ! i \<and> r_streamIDs r ! i \<noteq> ucast (s_id s))"
proof -
  obtain buf where buf: "GetBuf raw (br_readBufSize b) = Ok buf" "cap buf \<noteq> 0"
    using assms(3) by (cases raw) (force simp: GetBuf_def make_buf_def split: if_splits)+
  then have h: "HandleStream te raw s c [(0, True)] [] b = Torn_down 0 (unsubscribe_stream s b)"
    by (simp add: HandleStream_def read_step_def read_count_def Let_def)
  have l: "length (r_active r) = slots r"
    using reach_rinv [OF assms(2)] by (simp add: rinv_def lengths_ok_def)
  have "r_active (Unsubscribe (ucast (s_id s)) r) ! i \<longleftrightarrow> r_active r ! i \<and> r_streamIDs r ! i \<noteq> ucast (s_id s)" if "i < slots r" for i
    using unsubscribe_active(2) [of i r "ucast (s_id s)" "[0..<slots r]"] that l by (auto simp: Unsubscribe_def report_active_def emit_def)
  then show ?thesis using h assms(1) by (simp add: unsubscribe_stream_def with_router_def)
qed

theorem stream_end_unsubscribes_by_number_witness:
  "\<exists>b' r'. HandleStream te0 None \<lparr>s_obj = 99, s_id = 5\<rparr> (str ''other'') [(0, True)] [] broker0 = Torn_down 0 b' \<and>
     br_router b' = Some r' \<and> r_streams demo1 ! 0 = 7 \<and> r_active demo1 ! 0 \<and> \<not> r_active r' ! 0"
proof -
  have d: "slots demo1 = 1" "r_active demo1 = [True]" "r_streamIDs demo1 = [5]" "r_streams demo1 = [7]"
    using topic_a_plain by (simp_all add: demo1_def Subscribe_def frame_of_def plain_subscription Let_def empty_spec_def append_slot_def
        report_active_def NewRouter_def empty_router_def GetTopicOffset_def)
  have "0 < br_readBufSize broker0" by (simp add: broker0_def New_def WithRouter_def defaultReadBufSize_def)
  then show ?thesis
    using stream_end_unsubscribes_by_number [OF broker0_fields(2) demo1_reach, of te0 None "\<lparr>s_obj = 99, s_id = 5\<rparr>" "str ''other''"] d
    by auto
qed

end
