(* ===== verification/Cluster.thy ===== *)
theory Cluster
  imports Frame "HOL-Library.List_Lexorder"
begin

text \<open>
  The mesh of \<^verbatim>\<open>internal/cluster\<close>: the peer manager with its snapshots of the peer list, the reconnect loops with their
  growing waiting times, forwarding of a frame to all connected peers, and the discovery of peers by DNS. QUIC is a
  parameter: which dials and writes succeed is given by events and arguments, what is written to a stream is recorded.
  The order in which Go iterates over a map and the parser of IP addresses are parameters as well.
\<close>

section \<open>State\<close>

text \<open>Durations are nanoseconds.\<close>

definition initialBackoff :: int where "initialBackoff = 250 * 1000000"
definition maxBackoff :: int where "maxBackoff = 30 * 1000000000"

text \<open>A peer reference has a reconnect loop of its own: where it is, whether its context is cancelled and its waiting time. The
  references live in a heap because snapshots and loops share them; a snapshot is a list of addresses in it.\<close>

datatype loop_state = Top | Dialing | Streaming | Waiting | Ended

record PeerRef =
  p_addr :: bytes
  p_stream :: "nat option"
  p_cancelled :: bool
  p_backoff :: int
  p_loop :: loop_state

record PeerManager =
  pm_refs :: "PeerRef list"
  pm_peers :: "nat list"
  pm_closed :: bool
  pm_addrSet :: "bytes \<rightharpoonup> nat"
  pm_active :: nat
  pm_forwarded :: nat
  pm_written :: "(nat \<times> bytes) list"
  pm_closedStreams :: "nat list"

definition empty_manager :: PeerManager where
  "empty_manager = \<lparr>pm_refs = [], pm_peers = [], pm_closed = False, pm_addrSet = Map.empty, pm_active = 0,
     pm_forwarded = 0, pm_written = [], pm_closedStreams = []\<rparr>"

definition update_ref :: "nat \<Rightarrow> (PeerRef \<Rightarrow> PeerRef) \<Rightarrow> PeerManager \<Rightarrow> PeerManager" where
  "update_ref i f pm = pm\<lparr>pm_refs := (pm_refs pm)[i := f (pm_refs pm ! i)]\<rparr>"

definition ActivePeers :: "PeerManager \<Rightarrow> nat" where
  "ActivePeers pm = length (filter (\<lambda>i. p_stream (pm_refs pm ! i) \<noteq> None) (pm_peers pm))"

definition PeerCount :: "PeerManager \<Rightarrow> nat" where
  "PeerCount pm = length (pm_peers pm)"

text \<open>A new reference and the start of its reconnect loop.\<close>

definition start_peer :: "bytes \<Rightarrow> PeerManager \<Rightarrow> nat \<times> PeerManager" where
  "start_peer addr pm =
     (let i = length (pm_refs pm);
          ref = \<lparr>p_addr = addr, p_stream = None, p_cancelled = False, p_backoff = initialBackoff, p_loop = Top\<rparr>
      in (i, pm\<lparr>pm_refs := pm_refs pm @ [ref], pm_addrSet := (pm_addrSet pm)(addr \<mapsto> i)\<rparr>))"

fun start_peers :: "bytes list \<Rightarrow> PeerManager \<Rightarrow> nat list \<times> PeerManager" where
  "start_peers [] pm = ([], pm)"
| "start_peers (addr # addrs) pm =
     (case start_peer addr pm of (i, pm) \<Rightarrow>
        case start_peers addrs pm of (refs, pm) \<Rightarrow> (i # refs, pm))"

definition NewWithLogger :: "bytes list \<Rightarrow> PeerManager" where
  "NewWithLogger addrs =
     (case start_peers addrs empty_manager of (refs, pm) \<Rightarrow> pm\<lparr>pm_peers := refs\<rparr>)"

section \<open>Changing the peers\<close>

text \<open>The function given to \<^verbatim>\<open>swapPeers\<close> may close the streams of references it leaves out.\<close>

definition swapPeers :: "(nat list \<Rightarrow> PeerManager \<Rightarrow> nat list \<times> PeerManager) \<Rightarrow> PeerManager \<Rightarrow> PeerManager" where
  "swapPeers fn pm =
     (case fn (pm_peers pm) pm of (newRefs, pm) \<Rightarrow>
        let pm = pm\<lparr>pm_peers := newRefs\<rparr> in pm\<lparr>pm_active := ActivePeers pm\<rparr>)"

definition AddPeer :: "bytes \<Rightarrow> PeerManager \<Rightarrow> PeerManager" where
  "AddPeer addr pm =
     (if pm_closed pm then pm
      else if pm_addrSet pm addr \<noteq> None then pm
      else case start_peer addr pm of (ref, pm) \<Rightarrow> swapPeers (\<lambda>old pm. (old @ [ref], pm)) pm)"

definition close_stream :: "nat \<Rightarrow> PeerManager \<Rightarrow> PeerManager" where
  "close_stream i pm =
     (case p_stream (pm_refs pm ! i) of
        None \<Rightarrow> pm
      | Some s \<Rightarrow> update_ref i (p_stream_update (\<lambda>_. None)) (pm\<lparr>pm_closedStreams := pm_closedStreams pm @ [s]\<rparr>))"

fun without_peer :: "bytes \<Rightarrow> nat list \<Rightarrow> PeerManager \<Rightarrow> nat list \<times> PeerManager" where
  "without_peer addr [] pm = ([], pm)"
| "without_peer addr (p # old) pm =
     (if p_addr (pm_refs pm ! p) = addr then without_peer addr old (close_stream p pm)
      else case without_peer addr old pm of (refs, pm) \<Rightarrow> (p # refs, pm))"

definition cancel_loop :: "nat \<Rightarrow> PeerManager \<Rightarrow> PeerManager" where
  "cancel_loop i = update_ref i (p_cancelled_update (\<lambda>_. True))"

definition RemovePeer :: "bytes \<Rightarrow> PeerManager \<Rightarrow> PeerManager" where
  "RemovePeer addr pm =
     (case pm_addrSet pm addr of
        None \<Rightarrow> pm
      | Some cancel \<Rightarrow>
          let pm = cancel_loop cancel pm;
              pm = pm\<lparr>pm_addrSet := (pm_addrSet pm)(addr := None)\<rparr>
          in swapPeers (without_peer addr) pm)"

text \<open>\<open>cancels\<close> enumerates the values of the address map. The call then waits for the loops.\<close>

definition PeerManager_Close :: "nat list \<Rightarrow> PeerManager \<Rightarrow> PeerManager" where
  "PeerManager_Close cancels pm =
     (let pm = pm\<lparr>pm_closed := True\<rparr>;
          pm = fold cancel_loop cancels pm;
          pm = pm\<lparr>pm_addrSet := Map.empty\<rparr>;
          pm = fold close_stream (pm_peers pm) pm
      in pm\<lparr>pm_active := 0\<rparr>)"

section \<open>Forwarding\<close>

text \<open>\<open>ok\<close> says which streams take a write. The buffer is changed for the write and restored after it.\<close>

definition write_peer :: "(nat \<Rightarrow> bool) \<Rightarrow> nat \<Rightarrow> bytes \<Rightarrow> PeerManager \<Rightarrow> PeerManager" where
  "write_peer ok s buf pm =
     (if ok s then pm\<lparr>pm_written := pm_written pm @ [(s, buf)], pm_forwarded := pm_forwarded pm + 1\<rparr> else pm)"

definition forward_one :: "(nat \<Rightarrow> bool) \<Rightarrow> bool \<Rightarrow> nat \<Rightarrow> bytes \<times> PeerManager \<Rightarrow> bytes \<times> PeerManager" where
  "forward_one ok addForwardedBit p st =
     (case st of (rawBuf, pm) \<Rightarrow>
        case p_stream (pm_refs pm ! p) of
          None \<Rightarrow> (rawBuf, pm)
        | Some s \<Rightarrow>
            if addForwardedBit then
              let orig = rawBuf ! 1;
                  rawBuf = rawBuf[1 := orig OR MeshForwardedBit];
                  pm = write_peer ok s rawBuf pm;
                  rawBuf = rawBuf[1 := orig]
              in (rawBuf, pm)
            else (rawBuf, write_peer ok s rawBuf pm))"

definition Forward_peers :: "(nat \<Rightarrow> bool) \<Rightarrow> bytes \<Rightarrow> bool \<Rightarrow> PeerManager \<Rightarrow> bytes \<times> PeerManager" where
  "Forward_peers ok rawBuf addForwardedBit pm =
     (if length rawBuf < HeaderSize then (rawBuf, pm)
      else fold (forward_one ok addForwardedBit) (pm_peers pm) (rawBuf, pm))"

definition ForwardRaw :: "(nat \<Rightarrow> bool) \<Rightarrow> bytes \<Rightarrow> PeerManager \<Rightarrow> bool \<times> PeerManager" where
  "ForwardRaw ok rawBuf pm =
     (if length rawBuf < HeaderSize then (False, pm)
      else (True, snd (fold (forward_one ok False) (pm_peers pm) (rawBuf, pm))))"

section \<open>Reconnecting\<close>

text \<open>The wait returns whether the context ended first, and the next waiting time; durations wrap at 64 bits.\<close>

definition waitBackoffOrDone :: "bool \<Rightarrow> int \<Rightarrow> bool \<times> int" where
  "waitBackoffOrDone cancelled backoff =
     (if cancelled then (True, backoff) else (False, if backoff < maxBackoff then i64 (backoff * 2) else backoff))"

text \<open>A stream was opened to the peer, or an open one ended.\<close>

definition stream_opened :: "nat \<Rightarrow> nat \<Rightarrow> PeerManager \<Rightarrow> PeerManager" where
  "stream_opened i s pm =
     (let pm = update_ref i (p_stream_update (\<lambda>_. Some s)) pm in pm\<lparr>pm_active := ActivePeers pm\<rparr>)"

definition stream_ended :: "nat \<Rightarrow> PeerManager \<Rightarrow> PeerManager" where
  "stream_ended i pm =
     (let pm = update_ref i (p_stream_update (\<lambda>_. None)) pm in pm\<lparr>pm_active := ActivePeers pm\<rparr>)"

text \<open>
  The loop is a state machine, because other operations come between its steps: the check at its top, the end of the
  dial (which fails, or fails to open a stream, or opens one), the end of the stream, and the end of the wait, which is
  the timer or a cancelled context. Events that do not fit the state change nothing.
\<close>

datatype loop_event = Check | DialFailed | OpenFailed | Opened nat | StreamEnded | TimerFired | ContextDone

definition goto :: "nat \<Rightarrow> loop_state \<Rightarrow> PeerManager \<Rightarrow> PeerManager" where
  "goto i pc = update_ref i (p_loop_update (\<lambda>_. pc))"

definition set_backoff :: "nat \<Rightarrow> int \<Rightarrow> PeerManager \<Rightarrow> PeerManager" where
  "set_backoff i d = update_ref i (p_backoff_update (\<lambda>_. d))"

definition end_wait :: "nat \<Rightarrow> bool \<Rightarrow> PeerManager \<Rightarrow> PeerManager" where
  "end_wait i cancelled pm =
     (case waitBackoffOrDone cancelled (p_backoff (pm_refs pm ! i)) of
        (True, _) \<Rightarrow> goto i Ended pm
      | (False, backoff) \<Rightarrow> goto i Top (set_backoff i backoff pm))"

definition reconnectLoop :: "nat \<Rightarrow> loop_event \<Rightarrow> PeerManager \<Rightarrow> PeerManager" where
  "reconnectLoop i ev pm =
     (let p = pm_refs pm ! i in
      case (p_loop p, ev) of
        (Top, Check) \<Rightarrow> if pm_closed pm \<or> p_cancelled p then goto i Ended pm else goto i Dialing pm
      | (Dialing, DialFailed) \<Rightarrow> goto i Waiting pm
      | (Dialing, OpenFailed) \<Rightarrow> goto i Waiting (set_backoff i initialBackoff pm)
      | (Dialing, Opened s) \<Rightarrow> goto i Streaming (stream_opened i s (set_backoff i initialBackoff pm))
      | (Streaming, StreamEnded) \<Rightarrow> goto i Waiting (stream_ended i pm)
      | (Waiting, TimerFired) \<Rightarrow> end_wait i False pm
      | (Waiting, ContextDone) \<Rightarrow> if p_cancelled p then end_wait i True pm else pm
      | _ \<Rightarrow> pm)"

section \<open>Discovery\<close>

record DiscoveryConfig =
  dc_Enabled :: bool
  dc_Host :: bytes
  dc_Port :: bytes
  dc_Interval :: int

record Discovery =
  d_hostname :: bytes
  d_port :: bytes
  d_interval :: int
  d_knownIPs :: "bytes list"

definition NewDiscovery :: "DiscoveryConfig \<Rightarrow> Discovery" where
  "NewDiscovery cfg =
     (let cfg = (if dc_Interval cfg = 0 then cfg\<lparr>dc_Interval := 10 * 1000000000\<rparr> else cfg);
          cfg = (if dc_Port cfg = [] then cfg\<lparr>dc_Port := str ''4242''\<rparr> else cfg)
      in \<lparr>d_hostname = dc_Host cfg, d_port = dc_Port cfg, d_interval = dc_Interval cfg, d_knownIPs = []\<rparr>)"

text \<open>\<open>net.JoinHostPort\<close> puts a host with a colon or a percent sign into brackets.\<close>

definition JoinHostPort :: "bytes \<Rightarrow> bytes \<Rightarrow> bytes" where
  "JoinHostPort host port =
     (if 58 \<in> set host \<or> 37 \<in> set host then str ''['' @ host @ str '']:'' @ port else host @ str '':'' @ port)"

text \<open>A set of strings is a list of its members without repetition. \<open>parse\<close> is \<open>net.ParseIP\<close> followed by
  \<open>String\<close>.\<close>

fun normalize :: "(bytes \<Rightarrow> bytes option) \<Rightarrow> bytes list \<Rightarrow> bytes list" where
  "normalize parse [] = []"
| "normalize parse (ip # ips) =
     (case parse ip of None \<Rightarrow> normalize parse ips | Some x \<Rightarrow> List.insert x (normalize parse ips))"

text \<open>\<open>order\<close> is the order in which the runtime iterates over a map, \<open>lookup\<close> the answer of the resolver.\<close>

definition resolve :: "(bytes list \<Rightarrow> bytes list) \<Rightarrow> (bytes \<Rightarrow> bytes option) \<Rightarrow> bytes list option \<Rightarrow>
    Discovery \<times> PeerManager \<Rightarrow> Discovery \<times> PeerManager" where
  "resolve order parse lookup st =
     (case lookup of None \<Rightarrow> st
      | Some ips \<Rightarrow>
          (case st of (d, pm) \<Rightarrow>
             let normalized = normalize parse ips;
                 pm = fold (\<lambda>ip pm. if ip \<in> set (d_knownIPs d) then pm else AddPeer (JoinHostPort ip (d_port d)) pm)
                        (order normalized) pm;
                 pm = fold (\<lambda>ip pm. if ip \<in> set normalized then pm else RemovePeer (JoinHostPort ip (d_port d)) pm)
                        (order (d_knownIPs d)) pm
             in (d\<lparr>d_knownIPs := normalized\<rparr>, pm)))"

text \<open>The polling loop: one resolution at the start and one at every tick until the context ends.\<close>

definition Start :: "(bytes list \<Rightarrow> bytes list) \<Rightarrow> (bytes \<Rightarrow> bytes option) \<Rightarrow> bytes list option \<Rightarrow> bytes list option list \<Rightarrow>
    Discovery \<times> PeerManager \<Rightarrow> Discovery \<times> PeerManager" where
  "Start order parse first ticks st = fold (resolve order parse) ticks (resolve order parse first st)"

definition KnownPeers :: "Discovery \<Rightarrow> bytes list" where
  "KnownPeers d = sort (map (\<lambda>ip. JoinHostPort ip (d_port d)) (d_knownIPs d))"

section \<open>Invariant of the peer manager\<close>

text \<open>
  The address map names exactly the references of the snapshot; the loops of all other references, and of all once the
  manager is closed, are cancelled; a reference has a stream only while its loop reads from it; the gauge is exact.
\<close>

definition snapshot_ok :: "PeerManager \<Rightarrow> bool" where
  "snapshot_ok pm \<longleftrightarrow> distinct (pm_peers pm) \<and> (\<forall>i\<in>set (pm_peers pm). i < length (pm_refs pm)) \<and>
     (\<not> pm_closed pm \<longrightarrow> (\<forall>a i. pm_addrSet pm a = Some i \<longleftrightarrow> i \<in> set (pm_peers pm) \<and> p_addr (pm_refs pm ! i) = a))"

definition loops_ok :: "PeerManager \<Rightarrow> bool" where
  "loops_ok pm \<longleftrightarrow> (\<forall>i < length (pm_refs pm).
     (p_cancelled (pm_refs pm ! i) \<longleftrightarrow> i \<notin> set (pm_peers pm) \<or> pm_closed pm) \<and>
     (p_stream (pm_refs pm ! i) \<noteq> None \<longrightarrow> p_loop (pm_refs pm ! i) = Streaming))"

definition pm_inv :: "PeerManager \<Rightarrow> bool" where
  "pm_inv pm \<longleftrightarrow> snapshot_ok pm \<and> loops_ok pm \<and> pm_active pm = ActivePeers pm \<and> (pm_closed pm \<longrightarrow> pm_addrSet pm = Map.empty)"

end
