(* ===== verification/Cluster_Props.thy ===== *)
theory Cluster_Props
  imports Cluster
begin

text \<open>
  What the mesh guarantees: the address map and the snapshot of the peer manager agree in every run, forwarding writes the
  marked frame to every connected peer and leaves the buffer alone, the waiting times are bounded, and discovery makes
  the managed peers those DNS names.
\<close>

section \<open>Runs of the peer manager\<close>

text \<open>Runs interleave the operations and the steps of all reconnect loops. An operation is atomic: the changes hold a
  mutex, and a snapshot is swapped with one store.\<close>

inductive pm_reach :: "bytes list \<Rightarrow> PeerManager \<Rightarrow> bool" for addrs where
  start: "pm_reach addrs (NewWithLogger addrs)"
| add: "pm_reach addrs pm \<Longrightarrow> pm_reach addrs (AddPeer a pm)"
| remove: "pm_reach addrs pm \<Longrightarrow> pm_reach addrs (RemovePeer a pm)"
| loop: "pm_reach addrs pm \<Longrightarrow> i < length (pm_refs pm) \<Longrightarrow> pm_reach addrs (reconnectLoop i ev pm)"
| forward: "pm_reach addrs pm \<Longrightarrow> pm_reach addrs (snd (Forward_peers ok buf fwd pm))"
| close: "pm_reach addrs pm \<Longrightarrow> set cancels = ran (pm_addrSet pm) \<Longrightarrow> pm_reach addrs (PeerManager_Close cancels pm)"

abbreviation ref :: "PeerManager \<Rightarrow> nat \<Rightarrow> PeerRef" where
  "ref pm i \<equiv> pm_refs pm ! i"

lemmas manager_defs = update_ref_def cancel_loop_def goto_def set_backoff_def

lemma update_ref_fields [simp]:
  "pm_peers (update_ref i f pm) = pm_peers pm" "pm_closed (update_ref i f pm) = pm_closed pm"
  "pm_addrSet (update_ref i f pm) = pm_addrSet pm" "length (pm_refs (update_ref i f pm)) = length (pm_refs pm)"
  "pm_active (update_ref i f pm) = pm_active pm"
  by (simp_all add: update_ref_def)

lemma ref_update_ref:
  "j < length (pm_refs pm) \<Longrightarrow> ref (update_ref i f pm) j = (if j = i then f (ref pm j) else ref pm j)"
  by (simp add: update_ref_def nth_list_update)

lemma close_stream_fields [simp]:
  "pm_peers (close_stream i pm) = pm_peers pm" "pm_closed (close_stream i pm) = pm_closed pm"
  "pm_addrSet (close_stream i pm) = pm_addrSet pm" "length (pm_refs (close_stream i pm)) = length (pm_refs pm)"
  "pm_active (close_stream i pm) = pm_active pm"
  by (simp_all add: close_stream_def split: option.split)

lemma ref_close_stream:
  "j < length (pm_refs pm) \<Longrightarrow> ref (close_stream i pm) j = (if j = i then (ref pm j)\<lparr>p_stream := None\<rparr> else ref pm j)"
  by (auto simp: close_stream_def ref_update_ref update_ref_def nth_list_update split: option.split)

section \<open>The invariant\<close>

definition new_ref :: "bytes \<Rightarrow> PeerRef" where
  "new_ref a = \<lparr>p_addr = a, p_stream = None, p_cancelled = False, p_backoff = initialBackoff, p_loop = Top\<rparr>"

lemma start_peer_eq:
  "start_peer a pm = (length (pm_refs pm), pm\<lparr>pm_refs := pm_refs pm @ [new_ref a], pm_addrSet := (pm_addrSet pm)(a \<mapsto> length (pm_refs pm))\<rparr>)"
  by (simp add: start_peer_def new_ref_def Let_def)

lemma start_peers_inv:
  assumes "start_peers addrs pm = (is, pm')" "pm_inv (pm\<lparr>pm_peers := js\<rparr>)" "\<not> pm_closed pm" "distinct addrs"
    and "\<forall>a\<in>set addrs. pm_addrSet pm a = None"
  shows "pm_inv (pm'\<lparr>pm_peers := js @ is\<rparr>) \<and> \<not> pm_closed pm'"
  using assms
proof (induction addrs arbitrary: pm "is" js)
  case (Cons a addrs)
  define pm1 where "pm1 = pm\<lparr>pm_refs := pm_refs pm @ [new_ref a], pm_addrSet := (pm_addrSet pm)(a \<mapsto> length (pm_refs pm))\<rparr>"
  obtain is1 where r: "start_peers addrs pm1 = (is1, pm')" "is = length (pm_refs pm) # is1"
    using Cons.prems(1) by (auto simp: start_peer_eq pm1_def split: prod.splits)
  have s: "snapshot_ok (pm\<lparr>pm_peers := js\<rparr>)" and l: "loops_ok (pm\<lparr>pm_peers := js\<rparr>)"
    using Cons.prems(2) by (simp_all add: pm_inv_def)
  have "snapshot_ok (pm1\<lparr>pm_peers := js @ [length (pm_refs pm)]\<rparr>)"
    using s Cons.prems(3,5) by (auto simp: snapshot_ok_def pm1_def nth_append new_ref_def) (metis option.distinct(1))
  moreover have "loops_ok (pm1\<lparr>pm_peers := js @ [length (pm_refs pm)]\<rparr>)"
    using l Cons.prems(3) by (auto simp: loops_ok_def pm1_def nth_append new_ref_def less_Suc_eq)
  moreover have "ActivePeers (pm1\<lparr>pm_peers := js @ [length (pm_refs pm)]\<rparr>) = ActivePeers (pm\<lparr>pm_peers := js\<rparr>)"
    using s by (auto simp: ActivePeers_def pm1_def nth_append new_ref_def snapshot_ok_def intro!: arg_cong [where f = length] filter_cong)
  ultimately have "pm_inv (pm1\<lparr>pm_peers := js @ [length (pm_refs pm)]\<rparr>)"
    using Cons.prems(2,3) by (simp add: pm_inv_def pm1_def)
  moreover have "\<not> pm_closed pm1" "\<forall>b\<in>set addrs. pm_addrSet pm1 b = None"
    using Cons.prems(3-5) by (auto simp: pm1_def)
  ultimately show ?case using Cons.IH [OF r(1), of "js @ [length (pm_refs pm)]"] Cons.prems(4) r(2) by simp
qed (simp add: pm_inv_def)

lemma New_inv: "distinct addrs \<Longrightarrow> pm_inv (NewWithLogger addrs)"
  using start_peers_inv [of addrs empty_manager _ _ "[]"]
  by (auto simp: NewWithLogger_def empty_manager_def pm_inv_def snapshot_ok_def loops_ok_def ActivePeers_def split: prod.split)

lemma AddPeer_inv:
  assumes "pm_inv pm"
  shows "pm_inv (AddPeer a pm)"
proof (cases "pm_closed pm \<or> pm_addrSet pm a \<noteq> None")
  case False
  obtain pm' where st: "start_peers [a] pm = ([length (pm_refs pm)], pm')"
    and e: "start_peer a pm = (length (pm_refs pm), pm')" "pm_peers pm' = pm_peers pm"
    by (simp add: start_peer_eq)
  have "pm_inv (pm'\<lparr>pm_peers := pm_peers pm @ [length (pm_refs pm)]\<rparr>)"
    using start_peers_inv [OF st, of "pm_peers pm"] assms False by simp
  then show ?thesis using False e by (auto simp: AddPeer_def swapPeers_def Let_def pm_inv_def snapshot_ok_def loops_ok_def ActivePeers_def)
qed (use assms in \<open>auto simp: AddPeer_def\<close>)

definition same_rest :: "PeerManager \<Rightarrow> PeerManager \<Rightarrow> bool" where
  "same_rest pm pm' \<longleftrightarrow> pm_peers pm' = pm_peers pm \<and> pm_closed pm' = pm_closed pm \<and> pm_addrSet pm' = pm_addrSet pm \<and>
     length (pm_refs pm') = length (pm_refs pm) \<and> pm_active pm' = pm_active pm"

lemma close_streams:
  assumes "\<forall>i\<in>set is. i < length (pm_refs pm)"
  shows "same_rest pm (fold close_stream is pm)"
    "j < length (pm_refs pm) \<Longrightarrow> ref (fold close_stream is pm) j = (if j \<in> set is then (ref pm j)\<lparr>p_stream := None\<rparr> else ref pm j)"
proof -
  have "same_rest pm (fold close_stream is pm) \<and> (\<forall>j < length (pm_refs pm).
      ref (fold close_stream is pm) j = (if j \<in> set is then (ref pm j)\<lparr>p_stream := None\<rparr> else ref pm j))"
    using assms
  proof (induction "is" arbitrary: pm)
    case (Cons i "is")
    then show ?case using Cons.IH [of "close_stream i pm"] by (auto simp: ref_close_stream same_rest_def)
  qed (simp add: same_rest_def)
  then show "same_rest pm (fold close_stream is pm)"
    "j < length (pm_refs pm) \<Longrightarrow> ref (fold close_stream is pm) j = (if j \<in> set is then (ref pm j)\<lparr>p_stream := None\<rparr> else ref pm j)"
    by simp_all
qed

lemma without_peer_eq:
  assumes "\<forall>i\<in>set old. i < length (pm_refs pm)"
  shows "without_peer a old pm =
    (filter (\<lambda>i. p_addr (ref pm i) \<noteq> a) old, fold close_stream (filter (\<lambda>i. p_addr (ref pm i) = a) old) pm)"
  using assms
proof (induction old arbitrary: pm)
  case (Cons p old)
  have "p_addr (ref (close_stream p pm) i) = p_addr (ref pm i)" if "i \<in> set old" for i
    using that Cons.prems by (simp add: ref_close_stream)
  then have "filter (\<lambda>i. p_addr (ref (close_stream p pm) i) \<noteq> a) old = filter (\<lambda>i. p_addr (ref pm i) \<noteq> a) old"
    "filter (\<lambda>i. p_addr (ref (close_stream p pm) i) = a) old = filter (\<lambda>i. p_addr (ref pm i) = a) old"
    by (auto intro: filter_cong)
  then show ?case using Cons.IH [of "close_stream p pm"] Cons.IH [of pm] Cons.prems by simp
qed simp

lemma RemovePeer_spec:
  assumes "snapshot_ok pm" "\<not> pm_closed pm" "pm_addrSet pm a = Some k"
  defines "pm' \<equiv> RemovePeer a pm"
  shows "pm_peers pm' = filter (\<lambda>i. i \<noteq> k) (pm_peers pm)" "pm_addrSet pm' = (pm_addrSet pm)(a := None)"
    "pm_closed pm' = pm_closed pm" "length (pm_refs pm') = length (pm_refs pm)" "pm_active pm' = ActivePeers pm'"
    "\<And>j. j < length (pm_refs pm) \<Longrightarrow>
      ref pm' j = (if j = k then (ref pm j)\<lparr>p_stream := None, p_cancelled := True\<rparr> else ref pm j)"
proof -
  have a: "pm_addrSet pm a = Some i \<longleftrightarrow> i \<in> set (pm_peers pm) \<and> p_addr (ref pm i) = a" for i
    using assms(1,2) by (simp add: snapshot_ok_def)
  have k: "k \<in> set (pm_peers pm)" using a [of k] assms(3) by simp
  have m: "p_addr (ref pm i) = a \<longleftrightarrow> i = k" if "i \<in> set (pm_peers pm)" for i using a [of i] assms(3) that by auto
  define pm1 where "pm1 = (cancel_loop k pm)\<lparr>pm_addrSet := (pm_addrSet pm)(a := None)\<rparr>"
  have r1: "ref pm1 j = (if j = k then (ref pm j)\<lparr>p_cancelled := True\<rparr> else ref pm j)" if "j < length (pm_refs pm)" for j
    using that by (simp add: pm1_def cancel_loop_def ref_update_ref)
  have f1: "pm_peers pm1 = pm_peers pm" "pm_closed pm1 = pm_closed pm" "length (pm_refs pm1) = length (pm_refs pm)"
    "pm_addrSet pm1 = (pm_addrSet pm)(a := None)" by (simp_all add: pm1_def cancel_loop_def)
  have lt: "\<forall>i\<in>set (pm_peers pm). i < length (pm_refs pm1)" using assms(1) f1 by (simp add: snapshot_ok_def)
  have p1: "p_addr (ref pm1 i) = a \<longleftrightarrow> i = k" if "i \<in> set (pm_peers pm)" for i
    using r1 [of i] lt that f1(3) m [OF that] by (cases "i = k") auto
  have fk: "filter (\<lambda>i. p_addr (ref pm1 i) \<noteq> a) (pm_peers pm) = filter (\<lambda>i. i \<noteq> k) (pm_peers pm)"
    "set (filter (\<lambda>i. p_addr (ref pm1 i) = a) (pm_peers pm)) = {k}"
    using p1 k by (auto intro: filter_cong)
  define pm2 where "pm2 = fold close_stream (filter (\<lambda>i. p_addr (ref pm1 i) = a) (pm_peers pm)) pm1"
  have lt2: "\<forall>i\<in>set (filter (\<lambda>i. p_addr (ref pm1 i) = a) (pm_peers pm)). i < length (pm_refs pm1)" using lt by simp
  have f2: "same_rest pm1 pm2" unfolding pm2_def by (rule close_streams(1) [OF lt2])
  have r2: "ref pm2 j = (if j = k then (ref pm j)\<lparr>p_stream := None, p_cancelled := True\<rparr> else ref pm j)"
    if "j < length (pm_refs pm)" for j
    using close_streams(2) [OF lt2, of j, unfolded fk(2)] r1 [OF that] that f1(3) unfolding pm2_def by (cases "j = k") simp_all
  have "RemovePeer a pm = swapPeers (without_peer a) pm1"
    using assms(3) by (simp add: RemovePeer_def Let_def pm1_def) (simp add: cancel_loop_def)
  then have e: "pm' = (let pm3 = pm2\<lparr>pm_peers := filter (\<lambda>i. i \<noteq> k) (pm_peers pm)\<rparr> in pm3\<lparr>pm_active := ActivePeers pm3\<rparr>)"
    using without_peer_eq [OF lt, of a] f1(1) fk(1) by (simp add: swapPeers_def pm2_def Let_def pm'_def)
  show "pm_peers pm' = filter (\<lambda>i. i \<noteq> k) (pm_peers pm)" "pm_addrSet pm' = (pm_addrSet pm)(a := None)"
    "pm_closed pm' = pm_closed pm" "length (pm_refs pm') = length (pm_refs pm)" "pm_active pm' = ActivePeers pm'"
    using f1 f2 by (simp_all add: e Let_def same_rest_def ActivePeers_def)
  show "ref pm' j = (if j = k then (ref pm j)\<lparr>p_stream := None, p_cancelled := True\<rparr> else ref pm j)"
    if "j < length (pm_refs pm)" for j using r2 [OF that] by (simp add: e Let_def)
qed

lemma RemovePeer_inv:
  assumes "pm_inv pm"
  shows "pm_inv (RemovePeer a pm)"
proof (cases "pm_addrSet pm a")
  case (Some k)
  have o: "\<not> pm_closed pm" using assms Some by (auto simp: pm_inv_def)
  have s: "snapshot_ok pm" and l: "loops_ok pm" using assms by (simp_all add: pm_inv_def)
  note r = RemovePeer_spec [OF s o Some]
  have "p_addr (ref (RemovePeer a pm) i) = p_addr (ref pm i)" if "i \<in> set (pm_peers pm)" for i
    using r(6) [of i] s that by (simp add: snapshot_ok_def)
  moreover have m: "pm_addrSet pm b = Some i \<longleftrightarrow> i \<in> set (pm_peers pm) \<and> p_addr (ref pm i) = b" for b i
    using s o by (simp add: snapshot_ok_def)
  ultimately have "((pm_addrSet pm)(a := None)) b = Some i \<longleftrightarrow>
      (i \<in> set (pm_peers pm) \<and> i \<noteq> k) \<and> p_addr (ref (RemovePeer a pm) i) = b" for b i
    using Some m [of b i] m [of a i] m [of a k] by (cases "b = a"; cases "i = k"; cases "i \<in> set (pm_peers pm)"; simp)
  then have "snapshot_ok (RemovePeer a pm)" using s r(1-4) by (simp add: snapshot_ok_def)
  moreover have "loops_ok (RemovePeer a pm)" using l r(1,3,4,6) o by (simp add: loops_ok_def)
  ultimately show ?thesis using r(3,5) o by (simp add: pm_inv_def)
qed (use assms in \<open>simp add: RemovePeer_def\<close>)

lemma cancel_loops:
  shows "same_rest pm (fold cancel_loop ks pm)"
    "j < length (pm_refs pm) \<Longrightarrow> ref (fold cancel_loop ks pm) j = (if j \<in> set ks then (ref pm j)\<lparr>p_cancelled := True\<rparr> else ref pm j)"
proof -
  have "same_rest pm (fold cancel_loop ks pm) \<and> (\<forall>j < length (pm_refs pm).
      ref (fold cancel_loop ks pm) j = (if j \<in> set ks then (ref pm j)\<lparr>p_cancelled := True\<rparr> else ref pm j))"
  proof (induction ks arbitrary: pm)
    case (Cons k ks)
    then show ?case using Cons.IH [of "cancel_loop k pm"] by (auto simp: cancel_loop_def ref_update_ref same_rest_def)
  qed (simp add: same_rest_def)
  then show "same_rest pm (fold cancel_loop ks pm)"
    "j < length (pm_refs pm) \<Longrightarrow> ref (fold cancel_loop ks pm) j = (if j \<in> set ks then (ref pm j)\<lparr>p_cancelled := True\<rparr> else ref pm j)"
    by simp_all
qed

lemma Close_inv:
  assumes "pm_inv pm" "set cancels = ran (pm_addrSet pm)"
  shows "pm_inv (PeerManager_Close cancels pm)" "ActivePeers (PeerManager_Close cancels pm) = 0"
proof -
  have s: "snapshot_ok pm" and l: "loops_ok pm" using assms(1) by (simp_all add: pm_inv_def)
  define pm1 where "pm1 = (fold cancel_loop cancels (pm\<lparr>pm_closed := True\<rparr>))\<lparr>pm_addrSet := Map.empty\<rparr>"
  define pm2 where "pm2 = fold close_stream (pm_peers pm) pm1"
  note c = cancel_loops [where pm = "pm\<lparr>pm_closed := True\<rparr>" and ks = cancels]
  have r1: "ref pm1 j = (if j \<in> set cancels then (ref pm j)\<lparr>p_cancelled := True\<rparr> else ref pm j)" if "j < length (pm_refs pm)" for j
    using that c(2) by (simp add: pm1_def)
  have f1: "pm_peers pm1 = pm_peers pm" "pm_closed pm1" "length (pm_refs pm1) = length (pm_refs pm)" "pm_addrSet pm1 = Map.empty"
    using c(1) by (simp_all add: pm1_def same_rest_def)
  have lt: "\<forall>i\<in>set (pm_peers pm). i < length (pm_refs pm1)" using s f1 by (simp add: snapshot_ok_def)
  have r2: "ref pm2 j = (if j \<in> set (pm_peers pm) then (ref pm1 j)\<lparr>p_stream := None\<rparr> else ref pm1 j)" if "j < length (pm_refs pm)" for j
    using close_streams(2) [OF lt] that f1 by (simp add: pm2_def)
  have f2: "same_rest pm1 pm2" unfolding pm2_def by (rule close_streams(1) [OF lt])
  have e: "PeerManager_Close cancels pm = pm2\<lparr>pm_active := 0\<rparr>"
    using f1(1) by (simp add: PeerManager_Close_def Let_def pm1_def pm2_def)
  have ca: "p_cancelled (ref pm2 j)" if "j < length (pm_refs pm)" for j
  proof (cases "pm_closed pm \<or> j \<notin> set (pm_peers pm)")
    case False
    then have "pm_addrSet pm (p_addr (ref pm j)) = Some j" using s by (simp add: snapshot_ok_def)
    then have "j \<in> set cancels" using assms(2) by (auto simp: ran_def)
    then show ?thesis using r1 r2 that by simp
  qed (use l r1 r2 that in \<open>auto simp: loops_ok_def\<close>)
  have "\<forall>j < length (pm_refs pm). p_stream (ref pm2 j) \<noteq> None \<longrightarrow> p_loop (ref pm2 j) = Streaming"
    using l r1 r2 by (auto simp: loops_ok_def)
  moreover have "ActivePeers pm2 = 0"
    using r2 lt f1 f2 by (auto simp: ActivePeers_def same_rest_def filter_empty_conv)
  ultimately show "pm_inv (PeerManager_Close cancels pm)" "ActivePeers (PeerManager_Close cancels pm) = 0"
    using s f1 f2 lt ca unfolding e by (simp_all add: pm_inv_def snapshot_ok_def loops_ok_def same_rest_def ActivePeers_def)
qed

text \<open>A step of a loop changes one reference, whose address and context stay, and the gauge.\<close>

lemma ref_changed_inv:
  assumes "pm_inv pm" "pm_refs pm' = (pm_refs pm)[i := p]" "i < length (pm_refs pm)"
    and "pm_peers pm' = pm_peers pm" "pm_closed pm' = pm_closed pm" "pm_addrSet pm' = pm_addrSet pm"
    and "p_addr p = p_addr (ref pm i)" "p_cancelled p = p_cancelled (ref pm i)" "p_stream p \<noteq> None \<longrightarrow> p_loop p = Streaming"
    and "pm_active pm' = ActivePeers pm'"
  shows "pm_inv pm'"
proof -
  have s: "snapshot_ok pm" and l: "loops_ok pm" using assms(1) by (simp_all add: pm_inv_def)
  have n: "ref pm' j = (if j = i then p else ref pm j)" if "j < length (pm_refs pm)" for j
    using that assms(2) by (simp add: nth_list_update)
  have "p_addr (ref pm' j) = p_addr (ref pm j)" if "j \<in> set (pm_peers pm)" for j
    using n [of j] s that assms(7) by (auto simp: snapshot_ok_def)
  then have "j \<in> set (pm_peers pm) \<and> p_addr (ref pm' j) = a \<longleftrightarrow> j \<in> set (pm_peers pm) \<and> p_addr (ref pm j) = a" for j a
    by (cases "j \<in> set (pm_peers pm)") simp_all
  then have "snapshot_ok pm'" using s assms(2,4-6) by (simp add: snapshot_ok_def)
  moreover have "loops_ok pm'" using l assms(2-5,8,9) by (simp add: loops_ok_def nth_list_update)
  ultimately show ?thesis using assms(1,5,6,10) by (simp add: pm_inv_def)
qed

lemma ActivePeers_update:
  assumes "\<And>p. p_stream (f p) = p_stream p" "\<forall>j\<in>set (pm_peers pm). j < length (pm_refs pm)"
  shows "ActivePeers (update_ref i f pm) = ActivePeers pm"
  using assms by (auto simp: ActivePeers_def ref_update_ref split: if_splits intro!: arg_cong [where f = length] filter_cong)

lemma quiet_step_inv:
  assumes "pm_inv pm" "i < length (pm_refs pm)" "p_loop (ref pm i) \<noteq> Streaming"
  shows "pm_inv (goto i pc pm)" "pm_inv (goto i pc (set_backoff i d pm))"
proof -
  have st: "p_stream (ref pm i) = None" using assms by (auto simp: pm_inv_def loops_ok_def)
  have b: "\<forall>j\<in>set (pm_peers pm). j < length (pm_refs pm)" using assms(1) by (simp add: pm_inv_def snapshot_ok_def)
  have a: "ActivePeers (goto i pc pm) = ActivePeers pm" "ActivePeers (goto i pc (set_backoff i d pm)) = ActivePeers pm"
    using b by (simp_all add: goto_def set_backoff_def ActivePeers_update)
  show "pm_inv (goto i pc pm)"
    by (rule ref_changed_inv [OF assms(1) _ assms(2), of _ "(ref pm i)\<lparr>p_loop := pc\<rparr>"])
      (use a(1) st assms(1) in \<open>simp_all add: goto_def update_ref_def pm_inv_def\<close>)
  show "pm_inv (goto i pc (set_backoff i d pm))"
    by (rule ref_changed_inv [OF assms(1) _ assms(2), of _ "(ref pm i)\<lparr>p_backoff := d, p_loop := pc\<rparr>"])
      (use a(2) st assms(1,2) in \<open>simp_all add: goto_def set_backoff_def update_ref_def pm_inv_def\<close>)
qed

lemma stream_step_inv:
  assumes "pm_inv pm" "i < length (pm_refs pm)"
  shows "pm_inv (goto i Streaming (stream_opened i s (set_backoff i d pm)))" "pm_inv (goto i Waiting (stream_ended i pm))"
proof -
  have b: "\<forall>j\<in>set (pm_peers pm). j < length (pm_refs pm)" using assms(1) by (simp add: pm_inv_def snapshot_ok_def)
  have u: "ActivePeers (pm\<lparr>pm_active := n\<rparr>) = ActivePeers pm" for n and pm :: PeerManager by (simp add: ActivePeers_def)
  have g: "pm_active (goto i pc (stream_opened i s pm')) = ActivePeers (goto i pc (stream_opened i s pm'))"
    "pm_active (goto i pc (stream_ended i pm')) = ActivePeers (goto i pc (stream_ended i pm'))"
    if "\<forall>j\<in>set (pm_peers pm'). j < length (pm_refs pm')" for pc s pm'
    using that by (simp_all add: goto_def stream_opened_def stream_ended_def Let_def ActivePeers_update u)
  show "pm_inv (goto i Streaming (stream_opened i s (set_backoff i d pm)))"
    by (rule ref_changed_inv [OF assms(1) _ assms(2), of _ "(ref pm i)\<lparr>p_backoff := d, p_stream := Some s, p_loop := Streaming\<rparr>"])
      (use g(1) [of "set_backoff i d pm"] b assms(2) in
        \<open>simp_all add: goto_def set_backoff_def stream_opened_def Let_def\<close>, simp add: update_ref_def)
  show "pm_inv (goto i Waiting (stream_ended i pm))"
    by (rule ref_changed_inv [OF assms(1) _ assms(2), of _ "(ref pm i)\<lparr>p_stream := None, p_loop := Waiting\<rparr>"])
      (use g(2) [of pm] b assms(2) in \<open>simp_all add: goto_def stream_ended_def Let_def\<close>, simp add: update_ref_def)
qed

lemma reconnectLoop_inv:
  assumes "pm_inv pm" "i < length (pm_refs pm)"
  shows "pm_inv (reconnectLoop i ev pm)"
  using assms quiet_step_inv [OF assms] stream_step_inv [OF assms]
  by (cases "p_loop (ref pm i)"; cases ev) (simp_all add: reconnectLoop_def Let_def end_wait_def waitBackoffOrDone_def)

section \<open>Forwarding\<close>

text \<open>What forwarding writes: the frame with the mark, to the stream of every connected peer that takes it.\<close>

definition marked :: "bytes \<Rightarrow> bytes" where
  "marked buf = buf[1 := buf ! 1 OR MeshForwardedBit]"

definition receivers :: "(nat \<Rightarrow> bool) \<Rightarrow> nat list \<Rightarrow> PeerManager \<Rightarrow> nat list" where
  "receivers ok ps pm = filter ok (concat (map (\<lambda>i. case p_stream (ref pm i) of None \<Rightarrow> [] | Some s \<Rightarrow> [s]) ps))"

lemma forward_fold:
  "fold (forward_one ok fwd) ps (buf, pm) =
    (buf, pm\<lparr>pm_written := pm_written pm @ map (\<lambda>s. (s, if fwd then marked buf else buf)) (receivers ok ps pm),
       pm_forwarded := pm_forwarded pm + length (receivers ok ps pm)\<rparr>)"
proof (induction ps arbitrary: pm)
  case Nil
  then show ?case by (simp add: receivers_def)
next
  case (Cons p ps)
  define pm1 where "pm1 = (case p_stream (ref pm p) of None \<Rightarrow> pm
    | Some s \<Rightarrow> write_peer ok s (if fwd then marked buf else buf) pm)"
  have "forward_one ok fwd p (buf, pm) = (buf, pm1)"
    by (simp add: forward_one_def pm1_def marked_def Let_def split: option.split)
  moreover have "receivers ok ps pm1 = receivers ok ps pm"
    by (simp add: receivers_def pm1_def write_peer_def split: option.split)
  moreover have "pm_written pm1 @ map (\<lambda>s. (s, if fwd then marked buf else buf)) (receivers ok ps pm) =
      pm_written pm @ map (\<lambda>s. (s, if fwd then marked buf else buf)) (receivers ok (p # ps) pm)"
    "pm_forwarded pm1 + length (receivers ok ps pm) = pm_forwarded pm + length (receivers ok (p # ps) pm)"
    by (simp_all add: receivers_def pm1_def write_peer_def split: option.split)
  moreover have "pm1\<lparr>pm_written := w, pm_forwarded := n\<rparr> = pm\<lparr>pm_written := w, pm_forwarded := n\<rparr>" for w n
    by (simp add: pm1_def write_peer_def split: option.split)
  ultimately show ?case using Cons.IH [of pm1] by simp
qed

lemma Forward_eq:
  "Forward_peers ok buf fwd pm = (buf, if length buf < 10 then pm
     else pm\<lparr>pm_written := pm_written pm @ map (\<lambda>s. (s, if fwd then marked buf else buf)) (receivers ok (pm_peers pm) pm),
       pm_forwarded := pm_forwarded pm + length (receivers ok (pm_peers pm) pm)\<rparr>)"
  by (simp add: Forward_peers_def HeaderSize_def forward_fold)

lemma receivers_active: "length (receivers ok (pm_peers pm) pm) \<le> ActivePeers pm"
proof -
  have "length (concat (map (\<lambda>i. case p_stream (ref pm i) of None \<Rightarrow> [] | Some s \<Rightarrow> [s]) ps)) =
      length (filter (\<lambda>i. p_stream (ref pm i) \<noteq> None) ps)" for ps
    by (induction ps) (auto split: option.split)
  then show ?thesis unfolding receivers_def ActivePeers_def by (metis length_filter_le)
qed

lemma Forward_inv: "pm_inv pm \<Longrightarrow> pm_inv (snd (Forward_peers ok buf fwd pm))"
  by (simp add: Forward_eq pm_inv_def snapshot_ok_def loops_ok_def ActivePeers_def)

lemma reach_inv:
  assumes "pm_reach addrs pm" "distinct addrs"
  shows "pm_inv pm"
  using assms(1)
  by induction (use assms(2) in \<open>auto intro: New_inv AddPeer_inv RemovePeer_inv reconnectLoop_inv Forward_inv Close_inv\<close>)

text \<open>
  The interface the router has of the mesh: forwarding gives the buffer back unchanged and sends the marked frame to at
  most as many streams as there are active peers.
\<close>

locale peer_forwarder =
  fixes forward :: "bytes \<Rightarrow> bool \<Rightarrow> 's \<Rightarrow> bytes \<times> 's"
    and active :: "'s \<Rightarrow> nat"
    and sent :: "'s \<Rightarrow> (nat \<times> bytes) list"
  assumes buffer_kept: "fst (forward buf fwd s) = buf"
    and sends_marked: "10 \<le> length buf \<Longrightarrow>
      \<exists>ps. length ps \<le> active s \<and> sent (snd (forward buf True s)) = sent s @ map (\<lambda>p. (p, marked buf)) ps"
begin

lemma not_sent_without_peers: "10 \<le> length buf \<Longrightarrow> active s = 0 \<Longrightarrow> sent (snd (forward buf True s)) = sent s"
  using sends_marked [of buf s] by auto

lemma frames_arrive_marked:
  assumes "wf_frame f" "(p, raw) \<in> set (drop (length (sent s)) (sent (snd (forward (enc_frame f) True s))))"
  shows "ParseFrame (raw @ rest) = Ok (f\<lparr>f_Command := SetForwarded (f_Command f)\<rparr>)" "IsForwarded (f_Command f OR MeshForwardedBit)"
proof -
  have "10 \<le> length (enc_frame f)" using length_enc_frame [OF assms(1)] by (simp add: Size_def)
  then have "raw = marked (enc_frame f)" using sends_marked [of "enc_frame f" s] assms(2) by auto
  moreover have "enc_frame f ! 1 = f_Command f" by (simp add: enc_frame_def header_bytes_def)
  ultimately show "ParseFrame (raw @ rest) = Ok (f\<lparr>f_Command := SetForwarded (f_Command f)\<rparr>)" "IsForwarded (f_Command f OR MeshForwardedBit)"
    using forwarding_mark [OF assms(1), of rest] by (simp_all add: marked_def SetForwarded_def)
qed

end

interpretation pf: peer_forwarder "Forward_peers ok" ActivePeers pm_written
proof
  show "fst (Forward_peers ok buf fwd s) = buf" for buf fwd s by (simp add: Forward_eq)
  show "\<exists>ps. length ps \<le> ActivePeers s \<and> pm_written (snd (Forward_peers ok buf True s)) = pm_written s @ map (\<lambda>p. (p, marked buf)) ps"
    if "10 \<le> length buf" for buf s
    using that receivers_active [of ok s] by (auto simp: Forward_eq)
qed



section \<open>Waiting times\<close>

abbreviation backoffs :: "PeerManager \<Rightarrow> int list" where
  "backoffs pm \<equiv> map p_backoff (pm_refs pm)"

lemma backoffs_update: "backoffs (update_ref i f pm) = (backoffs pm)[i := p_backoff (f (ref pm i))]"
  by (simp add: update_ref_def map_update)

lemma backoffs_kept: "(\<And>p. p_backoff (f p) = p_backoff p) \<Longrightarrow> backoffs (update_ref i f pm) = backoffs pm"
  by (cases "i < length (pm_refs pm)") (auto simp: backoffs_update list_update_same_conv list_update_beyond)

lemma backoffs_close_stream [simp]: "backoffs (close_stream i pm) = backoffs pm"
  by (simp add: close_stream_def backoffs_kept split: option.split)

lemma backoffs_without_peer: "backoffs (snd (without_peer a old pm)) = backoffs pm"
  by (induction a old pm rule: without_peer.induct) (auto split: prod.splits)

lemma backoffs_folds [simp]:
  "backoffs (fold cancel_loop ks pm) = backoffs pm" "backoffs (fold close_stream ks pm) = backoffs pm"
  by (induction ks arbitrary: pm) (simp_all add: cancel_loop_def backoffs_kept)

lemma backoffs_ops:
  "backoffs (RemovePeer a pm) = backoffs pm" "backoffs (PeerManager_Close ks pm) = backoffs pm"
  "backoffs (snd (Forward_peers ok buf fwd pm)) = backoffs pm" "set (backoffs (AddPeer a pm)) \<subseteq> insert initialBackoff (set (backoffs pm))"
proof -
  show "backoffs (RemovePeer a pm) = backoffs pm"
  proof (cases "pm_addrSet pm a")
    case (Some k)
    define pm1 where "pm1 = (cancel_loop k pm)\<lparr>pm_addrSet := (pm_addrSet (cancel_loop k pm))(a := None)\<rparr>"
    obtain new pm2 where w: "without_peer a (pm_peers (cancel_loop k pm)) pm1 = (new, pm2)" by fastforce
    have "backoffs pm2 = backoffs pm1" using backoffs_without_peer [of a "pm_peers (cancel_loop k pm)" pm1] w by simp
    also have "\<dots> = backoffs pm" by (simp add: pm1_def cancel_loop_def backoffs_kept)
    finally show ?thesis using Some w by (simp add: RemovePeer_def Let_def pm1_def [symmetric] swapPeers_def)
  qed (simp add: RemovePeer_def)
  show "backoffs (PeerManager_Close ks pm) = backoffs pm" "backoffs (snd (Forward_peers ok buf fwd pm)) = backoffs pm"
    by (simp_all add: PeerManager_Close_def Let_def Forward_eq)
  show "set (backoffs (AddPeer a pm)) \<subseteq> insert initialBackoff (set (backoffs pm))"
    by (auto simp: AddPeer_def swapPeers_def Let_def start_peer_eq new_ref_def)
qed

lemma backoffs_New: "set (backoffs (NewWithLogger addrs)) \<subseteq> {initialBackoff}"
proof -
  have "set (backoffs (snd (start_peers addrs pm))) \<subseteq> insert initialBackoff (set (backoffs pm))" for pm
  proof (induction addrs arbitrary: pm)
    case (Cons a addrs)
    define pm1 where "pm1 = snd (start_peer a pm)"
    have e: "snd (start_peers (a # addrs) pm) = snd (start_peers addrs pm1)" by (simp add: pm1_def split: prod.split)
    have "set (backoffs pm1) \<subseteq> insert initialBackoff (set (backoffs pm))" by (auto simp: pm1_def start_peer_eq new_ref_def)
    then show ?case unfolding e using Cons.IH [of pm1] by blast
  qed auto
  from this [of empty_manager] show ?thesis
    by (cases "start_peers addrs empty_manager") (simp add: NewWithLogger_def, simp add: empty_manager_def)
qed

definition doublings :: "int set" where
  "doublings = (\<lambda>k. initialBackoff * 2 ^ k) ` {..7}"

lemma doublings_step: "d \<in> doublings \<Longrightarrow> snd (waitBackoffOrDone c d) \<in> doublings" and initial_doubling: "initialBackoff \<in> doublings"
proof -
  have e: "doublings = {250000000, 500000000, 1000000000, 2000000000, 4000000000, 8000000000, 16000000000, 32000000000}"
    by (auto simp: doublings_def initialBackoff_def atMost_Suc numeral_eq_Suc)
  show "d \<in> doublings \<Longrightarrow> snd (waitBackoffOrDone c d) \<in> doublings"
    unfolding e by (auto simp: waitBackoffOrDone_def maxBackoff_def i64_def)
  show "initialBackoff \<in> doublings" unfolding e by (simp add: initialBackoff_def)
qed

lemma backoffs_loop:
  assumes "set (backoffs pm) \<subseteq> doublings" "i < length (pm_refs pm)"
  shows "set (backoffs (reconnectLoop i ev pm)) \<subseteq> doublings"
proof -
  have g: "backoffs (goto i pc pm) = backoffs pm" "backoffs (stream_opened i s pm) = backoffs pm" "backoffs (stream_ended i pm) = backoffs pm"
    for pc s pm by (simp_all add: goto_def stream_opened_def stream_ended_def Let_def backoffs_kept)
  have b: "backoffs (set_backoff i d pm) = (backoffs pm)[i := d]" for d by (simp add: set_backoff_def backoffs_update)
  have u: "set ((backoffs pm)[i := d]) \<subseteq> doublings" if "d \<in> doublings" for d
    using assms(1) that set_update_subset_insert [of "backoffs pm" i d] by blast
  have "p_backoff (ref pm i) \<in> doublings" using assms by auto
  then have w: "snd (waitBackoffOrDone c (p_backoff (ref pm i))) \<in> doublings" for c by (rule doublings_step)
  have "set (backoffs (end_wait i c pm)) \<subseteq> doublings" for c
    using assms(1) u [OF w [of c]]
    by (cases "waitBackoffOrDone c (p_backoff (ref pm i))") (auto simp del: set_map simp add: end_wait_def g b split: bool.split)
  then show ?thesis
    using assms(1) u [OF initial_doubling]
    by (cases "p_loop (ref pm i)"; cases ev) (simp_all add: reconnectLoop_def Let_def g b del: set_map)
qed

text \<open>Reconnection backs off exponentially and stays bounded. In every run every reconnect loop waits a doubling of 250
  milliseconds, at most 32 seconds, before it dials again; after a connection it starts over. The bound is not the 30
  seconds the constant gives: the last doubling, of 16 seconds, exceeds it.\<close>

theorem backoff_bounded:
  assumes "pm_reach addrs pm" "i < length (pm_refs pm)"
  shows "\<exists>k \<le> 7. p_backoff (ref pm i) = initialBackoff * 2 ^ k"
proof -
  have "set (backoffs pm) \<subseteq> doublings"
    using assms(1)
  proof induction
    case start
    then show ?case using backoffs_New initial_doubling by blast
  next
    case (add pm a)
    then show ?case using backoffs_ops(4) [of a pm] initial_doubling by blast
  next
    case (loop pm i ev)
    then show ?case using backoffs_loop by blast
  qed (simp_all add: backoffs_ops)
  then show ?thesis using assms(2) by (force simp: doublings_def)
qed

text \<open>A loop whose dials keep failing.\<close>

definition failing :: "nat \<Rightarrow> PeerManager \<Rightarrow> PeerManager" where
  "failing n = (reconnectLoop 0 TimerFired \<circ> reconnectLoop 0 DialFailed \<circ> reconnectLoop 0 Check) ^^ n"

definition doubled :: "int \<Rightarrow> int" where
  "doubled d = snd (waitBackoffOrDone False d)"

lemma failing_steps:
  assumes "pm_refs pm = [(new_ref a)\<lparr>p_backoff := d\<rparr>]" "\<not> pm_closed pm" "pm_reach addrs pm"
  shows "pm_refs (failing n pm) = [(new_ref a)\<lparr>p_backoff := (doubled ^^ n) d\<rparr>] \<and>
    \<not> pm_closed (failing n pm) \<and> pm_reach addrs (failing n pm)"
proof (induction n)
  case (Suc n)
  define pm1 where "pm1 = failing n pm"
  define d1 where "d1 = (doubled ^^ n) d"
  have 1: "pm_refs pm1 = [(new_ref a)\<lparr>p_backoff := d1\<rparr>]" "\<not> pm_closed pm1" "pm_reach addrs pm1"
    using Suc by (simp_all add: pm1_def d1_def)
  have 2: "pm_refs (reconnectLoop 0 Check pm1) = [(new_ref a)\<lparr>p_backoff := d1, p_loop := Dialing\<rparr>]" "\<not> pm_closed (reconnectLoop 0 Check pm1)"
    using 1 by (simp_all add: reconnectLoop_def new_ref_def goto_def update_ref_def)
  have 3: "pm_refs (reconnectLoop 0 DialFailed (reconnectLoop 0 Check pm1)) = [(new_ref a)\<lparr>p_backoff := d1, p_loop := Waiting\<rparr>]"
    "\<not> pm_closed (reconnectLoop 0 DialFailed (reconnectLoop 0 Check pm1))"
    using 2 by (simp_all add: reconnectLoop_def [of _ DialFailed] new_ref_def goto_def update_ref_def)
  have "pm_reach addrs (reconnectLoop 0 Check pm1)" using 1 by (intro loop) simp_all
  then have "pm_reach addrs (reconnectLoop 0 DialFailed (reconnectLoop 0 Check pm1))" by (rule loop) (simp add: 2)
  then have "pm_reach addrs (reconnectLoop 0 TimerFired (reconnectLoop 0 DialFailed (reconnectLoop 0 Check pm1)))"
    by (rule loop) (simp add: 3)
  moreover have "failing (Suc n) pm = reconnectLoop 0 TimerFired (reconnectLoop 0 DialFailed (reconnectLoop 0 Check pm1))"
    by (simp add: failing_def pm1_def)
  ultimately show ?case
    using 3 by (simp add: d1_def [symmetric] reconnectLoop_def [of _ TimerFired] end_wait_def new_ref_def goto_def set_backoff_def
        update_ref_def waitBackoffOrDone_def doubled_def [of d1])
qed (use assms in \<open>simp add: failing_def\<close>)

theorem backoff_bounded_witness:
  "p_backoff (ref (failing 9 (NewWithLogger [[97]])) 0) = 32 * 1000000000 \<and> maxBackoff < 32 * 1000000000 \<and>
    (\<exists>k \<le> 7. p_backoff (ref (failing 9 (NewWithLogger [[97]])) 0) = initialBackoff * 2 ^ k)"
proof -
  have "pm_refs (NewWithLogger [[97]]) = [(new_ref [97])\<lparr>p_backoff := initialBackoff\<rparr>]" "\<not> pm_closed (NewWithLogger [[97]])"
    by (simp_all add: NewWithLogger_def start_peer_eq empty_manager_def new_ref_def)
  note f = failing_steps [OF this start, of 9]
  have "(doubled ^^ 9) initialBackoff = 32 * 1000000000" "maxBackoff < 32 * 1000000000"
    by code_simp+
  then show ?thesis using backoff_bounded [of "[[97]]" "failing 9 (NewWithLogger [[97]])" 0] f by simp
qed

section \<open>Discovery\<close>

text \<open>The addresses the manager connects to.\<close>

definition managed :: "PeerManager \<Rightarrow> bytes set" where
  "managed pm = (\<lambda>i. p_addr (ref pm i)) ` set (pm_peers pm)"

lemma managed_addrSet: "pm_inv pm \<Longrightarrow> \<not> pm_closed pm \<Longrightarrow> managed pm = dom (pm_addrSet pm)"
  by (auto simp: pm_inv_def snapshot_ok_def managed_def dom_def)

lemma AddPeer_managed:
  assumes "pm_inv pm" "\<not> pm_closed pm"
  shows "managed (AddPeer a pm) = insert a (managed pm)" "\<not> pm_closed (AddPeer a pm)"
proof -
  show c: "\<not> pm_closed (AddPeer a pm)"
    using assms(2) by (simp add: AddPeer_def swapPeers_def Let_def start_peer_eq)
  have "dom (pm_addrSet (AddPeer a pm)) = insert a (dom (pm_addrSet pm))"
    using assms(2) by (auto simp: AddPeer_def swapPeers_def Let_def start_peer_eq)
  then show "managed (AddPeer a pm) = insert a (managed pm)"
    using managed_addrSet [OF AddPeer_inv [OF assms(1)] c] managed_addrSet [OF assms] by simp
qed

lemma RemovePeer_managed:
  assumes "pm_inv pm" "\<not> pm_closed pm"
  shows "managed (RemovePeer a pm) = managed pm - {a}" "\<not> pm_closed (RemovePeer a pm)"
proof -
  have s: "snapshot_ok pm" using assms(1) by (simp add: pm_inv_def)
  show c: "\<not> pm_closed (RemovePeer a pm)"
    using assms(2) RemovePeer_spec(3) [OF s assms(2)] by (cases "pm_addrSet pm a") (auto simp: RemovePeer_def)
  have "dom (pm_addrSet (RemovePeer a pm)) = dom (pm_addrSet pm) - {a}"
    using RemovePeer_spec(2) [OF s assms(2)] by (cases "pm_addrSet pm a") (auto simp: RemovePeer_def)
  then show "managed (RemovePeer a pm) = managed pm - {a}"
    using managed_addrSet [OF RemovePeer_inv [OF assms(1)] c] managed_addrSet [OF assms] by simp
qed

lemma set_normalize: "set (normalize parse ips) = {x. \<exists>ip\<in>set ips. parse ip = Some x}" and distinct_normalize: "distinct (normalize parse ips)"
  by (induction ips) (auto split: option.split)

lemma add_all:
  assumes "pm_inv pm" "\<not> pm_closed pm" "f = (\<lambda>x pm. if P x then pm else AddPeer (A x) pm)"
  shows "pm_inv (fold f xs pm) \<and> \<not> pm_closed (fold f xs pm) \<and> managed (fold f xs pm) = managed pm \<union> A ` {x \<in> set xs. \<not> P x}"
  using assms
proof (induction xs arbitrary: pm)
  case (Cons x xs)
  then show ?case using Cons.IH [of "f x pm"] AddPeer_inv [of pm] AddPeer_managed [of pm "A x"] by auto
qed simp

lemma remove_all:
  assumes "pm_inv pm" "\<not> pm_closed pm" "f = (\<lambda>x pm. if P x then pm else RemovePeer (A x) pm)"
  shows "pm_inv (fold f xs pm) \<and> \<not> pm_closed (fold f xs pm) \<and> managed (fold f xs pm) = managed pm - A ` {x \<in> set xs. \<not> P x}"
  using assms
proof (induction xs arbitrary: pm)
  case (Cons x xs)
  then show ?case using Cons.IH [of "f x pm"] RemovePeer_inv [of pm] RemovePeer_managed [of pm "A x"] by auto
qed simp

abbreviation peer_addr :: "Discovery \<Rightarrow> bytes \<Rightarrow> bytes" where
  "peer_addr d ip \<equiv> JoinHostPort ip (d_port d)"

lemma resolve_managed:
  assumes "pm_inv pm" "\<not> pm_closed pm" "\<And>xs. set (order xs) = set xs" "resolve order parse (Some ips) (d, pm) = (d', pm')"
  shows "pm_inv pm'" "\<not> pm_closed pm'" "d_port d' = d_port d" "set (d_knownIPs d') = {x. \<exists>ip\<in>set ips. parse ip = Some x}"
    "managed pm' = (managed pm \<union> peer_addr d ` (set (d_knownIPs d') - set (d_knownIPs d))) - peer_addr d ` (set (d_knownIPs d) - set (d_knownIPs d'))"
proof -
  let ?n = "normalize parse ips"
  let ?f = "\<lambda>ip pm. if ip \<in> set (d_knownIPs d) then pm else AddPeer (peer_addr d ip) pm"
  let ?g = "\<lambda>ip pm. if ip \<in> set ?n then pm else RemovePeer (peer_addr d ip) pm"
  note a = add_all [OF assms(1,2) refl, of "\<lambda>ip. ip \<in> set (d_knownIPs d)" "peer_addr d" "order ?n"]
  note r = remove_all [of "fold ?f (order ?n) pm" ?g, OF _ _ refl, of "order (d_knownIPs d)"]
  have e: "d' = d\<lparr>d_knownIPs := ?n\<rparr>" "pm' = fold ?g (order (d_knownIPs d)) (fold ?f (order ?n) pm)"
    using assms(4) by (simp_all add: resolve_def Let_def)
  show "pm_inv pm'" "\<not> pm_closed pm'" using a r e by simp_all
  show "d_port d' = d_port d" "set (d_knownIPs d') = {x. \<exists>ip\<in>set ips. parse ip = Some x}" using e set_normalize by simp_all
  show "managed pm' = (managed pm \<union> peer_addr d ` (set (d_knownIPs d') - set (d_knownIPs d))) - peer_addr d ` (set (d_knownIPs d) - set (d_knownIPs d'))"
    using a r e assms(3) by (simp add: set_diff_eq)
qed

lemma New_managed: "managed (NewWithLogger addrs) = set addrs" "\<not> pm_closed (NewWithLogger addrs)"
proof -
  have spec: "start_peers addrs pm = (is, pm') \<Longrightarrow> is = [length (pm_refs pm)..<length (pm_refs pm) + length addrs] \<and>
      pm_refs pm' = pm_refs pm @ map new_ref addrs \<and> pm_closed pm' = pm_closed pm" for pm "is" pm'
  proof (induction addrs arbitrary: pm "is")
    case (Cons a addrs)
    then obtain is1 where s: "start_peers addrs (snd (start_peer a pm)) = (is1, pm')" "is = length (pm_refs pm) # is1"
      by (auto simp: start_peer_eq split: prod.splits)
    show ?case using Cons.IH [OF s(1)] s(2) by (simp add: start_peer_eq upt_conv_Cons del: upt_Suc)
  qed simp
  obtain "is" pm where s: "start_peers addrs empty_manager = (is, pm)" by fastforce
  have "map (\<lambda>i. p_addr (map new_ref addrs ! i)) [0..<length addrs] = addrs" by (rule nth_equalityI) (simp_all add: new_ref_def)
  then have "(\<lambda>i. p_addr (map new_ref addrs ! i)) ` {0..<length addrs} = set addrs" by (metis set_map set_upt)
  then show "managed (NewWithLogger addrs) = set addrs" "\<not> pm_closed (NewWithLogger addrs)"
    using spec [OF s] s by (simp_all add: NewWithLogger_def managed_def empty_manager_def)
qed

lemma JoinHostPort_inj: "JoinHostPort h port = JoinHostPort h' port \<Longrightarrow> h = h'"
proof -
  assume eq: "JoinHostPort h port = JoinHostPort h' port"
  have s: "str '':'' = [58]" "str ''['' = [91]" "str '']:'' = [93, 58]" by code_simp+
  have x: "h1 @ [58] = 91 # h2 @ [93, 58] \<Longrightarrow> 58 \<in> set h2 \<or> 37 \<in> set h2 \<Longrightarrow> 58 \<in> set h1 \<or> 37 \<in> set h1" for h1 h2 :: bytes
    using append1_eq_conv [of h1 58 "91 # h2 @ [93]" 58] by auto
  show "h = h'" using eq x [of h h'] x [of h' h] by (auto simp: JoinHostPort_def s split: if_splits)
qed

text \<open>C22: Discovery converges to the names in DNS. After any number of resolutions, failed ones and different answers
  included, of which the last one succeeded, the managed peers are the static peers of the configuration and the
  addresses of that last answer, in whatever order maps are iterated; this holds when no static peer was ever among
  the answers, since a static peer that leaves DNS is removed like a discovered one.\<close>

theorem discovery_converges:
  assumes "\<And>xs. set (order xs) = set xs" "distinct static"
    and "\<forall>l\<in>set (ls @ [Some ips]). \<forall>l'. l = Some l' \<longrightarrow> (\<forall>ip\<in>set l'. \<forall>x. parse ip = Some x \<longrightarrow> JoinHostPort x (d_port d) \<notin> set static)"
    and "d_knownIPs d = []"
    and "fold (resolve order parse) (ls @ [Some ips]) (d, NewWithLogger static) = (d', pm)"
  shows "managed pm = set static \<union> (\<lambda>x. JoinHostPort x (d_port d)) ` {x. \<exists>ip\<in>set ips. parse ip = Some x}"
proof -
  define A where "A x = JoinHostPort x (d_port d)" for x
  have inj: "inj A" unfolding A_def by (rule injI) (rule JoinHostPort_inj)
  define good where "good st \<longleftrightarrow> pm_inv (snd st) \<and> \<not> pm_closed (snd st) \<and> d_port (fst st) = d_port d \<and>
    managed (snd st) = set static \<union> A ` set (d_knownIPs (fst st)) \<and> set static \<inter> A ` set (d_knownIPs (fst st)) = {}" for st :: "Discovery \<times> PeerManager"
  have step: "good (resolve order parse l st)" if "good st" "l \<in> set (ls @ [Some ips])" for l st
  proof (cases l)
    case (Some ips')
    obtain d1 pm1 d2 pm2 where st: "st = (d1, pm1)" "resolve order parse (Some ips') (d1, pm1) = (d2, pm2)" by fastforce
    have g: "pm_inv pm1" "\<not> pm_closed pm1" "d_port d1 = d_port d" "managed pm1 = set static \<union> A ` set (d_knownIPs d1)"
      "set static \<inter> A ` set (d_knownIPs d1) = {}" using that(1) st by (simp_all add: good_def)
    note r = resolve_managed [OF g(1,2) assms(1) st(2)]
    have dis: "set static \<inter> A ` set (d_knownIPs d2) = {}" using r(4) assms(3) that(2) Some by (fastforce simp: A_def)
    have pa: "peer_addr d1 = A" using g(3) by (simp add: A_def fun_eq_iff)
    have "managed pm2 = set static \<union> A ` set (d_knownIPs d2)"
      using r(5) g(4,5) unfolding pa image_set_diff [OF inj] by auto
    then show ?thesis using r(1-3) g(3) dis Some st by (simp add: good_def)
  qed (use that in \<open>simp add: resolve_def\<close>)
  have start_good: "good (d, NewWithLogger static)"
    using New_inv [OF assms(2)] New_managed assms(4) by (simp add: good_def)
  have "good (fold (resolve order parse) xs st)" if "good st" "set xs \<subseteq> set (ls @ [Some ips])" for xs st
    using that
  proof (induction xs arbitrary: st)
    case (Cons l xs)
    then show ?case using step [of st l] by simp
  qed simp
  then have "good (fold (resolve order parse) ls (d, NewWithLogger static))" using start_good by auto
  moreover obtain d1 pm1 where s1: "fold (resolve order parse) ls (d, NewWithLogger static) = (d1, pm1)" by fastforce
  ultimately have g1: "good (d1, pm1)" by simp
  have r: "resolve order parse (Some ips) (d1, pm1) = (d', pm)" using assms(5) s1 by simp
  have "good (d', pm)" using step [OF g1, of "Some ips"] r by simp
  moreover have "set (d_knownIPs d') = {x. \<exists>ip\<in>set ips. parse ip = Some x}"
    using resolve_managed(4) [OF _ _ assms(1) r] g1 by (simp add: good_def)
  ultimately show ?thesis by (auto simp: good_def A_def)
qed

theorem discovery_converges_witness:
  "managed (snd (fold (resolve id Some) [Some [[49], [50]], None, Some [[50], [51]]]
      (NewDiscovery \<lparr>dc_Enabled = True, dc_Host = [], dc_Port = [], dc_Interval = 0\<rparr>, NewWithLogger [[97]]))) =
    {[50, 58, 52, 50, 52, 50], [51, 58, 52, 50, 52, 50], [97]}"
proof -
  let ?d = "NewDiscovery \<lparr>dc_Enabled = True, dc_Host = [], dc_Port = [], dc_Interval = 0\<rparr>"
  obtain d' pm where f: "fold (resolve id Some) ([Some [[49], [50]], None] @ [Some [[50], [51]]]) (?d, NewWithLogger [[97]]) = (d', pm)"
    by fastforce
  have d: "d_port ?d = [52, 50, 52, 50]" "d_knownIPs ?d = []" by (simp_all add: NewDiscovery_def Let_def) code_simp
  have j: "JoinHostPort [49] [52, 50, 52, 50] = [49, 58, 52, 50, 52, 50]" "JoinHostPort [50] [52, 50, 52, 50] = [50, 58, 52, 50, 52, 50]"
    "JoinHostPort [51] [52, 50, 52, 50] = [51, 58, 52, 50, 52, 50]" by code_simp+
  have "managed pm = set [[97]] \<union> (\<lambda>x. JoinHostPort x (d_port ?d)) ` {x. \<exists>ip\<in>set [[50], [51]]. Some ip = Some x}"
    by (rule discovery_converges [OF _ _ _ d(2) f]) (auto simp: d(1) j)
  also have "{x. \<exists>ip\<in>set [[50], [51]]. Some ip = Some x} = {[50], [51] :: bytes}" by auto
  finally show ?thesis using f by (simp add: d(1) j)
qed

end
