(* ===== verification/Mesh.thy ===== *)
theory Mesh
  imports Transport_Props Cluster_Props
begin

text \<open>
  Nodes of the mesh: a broker whose router forwards through a peer manager. A published message makes one hop, whatever
  the topology, because a peer does not forward what it receives as a message; a batch is forwarded again by every
  node that receives it.
\<close>

section \<open>Nodes\<close>

record node =
  n_broker :: Broker
  n_peers :: PeerManager

definition broker_forwards :: "Broker \<Rightarrow> (bytes \<times> bool) list" where
  "broker_forwards b = (case br_router b of None \<Rightarrow> [] | Some r \<Rightarrow> forwards r)"

definition forward_all :: "(nat \<Rightarrow> bool) \<Rightarrow> (bytes \<times> bool) list \<Rightarrow> PeerManager \<Rightarrow> PeerManager" where
  "forward_all ok fs pm = fold (\<lambda>(buf, fwd) pm. snd (Forward_peers ok buf fwd pm)) fs pm"

text \<open>A node handles frames of a stream; what its router forwards goes to its peers.\<close>

definition receive :: "te_sys \<Rightarrow> (nat \<Rightarrow> bool) \<Rightarrow> stream \<Rightarrow> bytes \<Rightarrow> Frame list \<Rightarrow> node \<Rightarrow> node" where
  "receive te ok s clientID fs n =
     (let b' = snd (snd (handle_frames te s clientID fs (0, n_broker n))) in
      \<lparr>n_broker = b',
       n_peers = forward_all ok (drop (length (broker_forwards (n_broker n))) (broker_forwards b')) (n_peers n)\<rparr>)"

definition sent_by :: "node \<Rightarrow> node \<Rightarrow> (nat \<times> bytes) list" where
  "sent_by n n' = drop (length (pm_written (n_peers n))) (pm_written (n_peers n'))"

text \<open>The router asks the peer manager for the number of active peers.\<close>

definition synced :: "Router \<Rightarrow> node \<Rightarrow> bool" where
  "synced r n \<longleftrightarrow> br_router (n_broker n) = Some r \<and> r_peers r = Some (ActivePeers (n_peers n))"

text \<open>The frame the router builds for its peers.\<close>

definition rebuilt :: "byte \<Rightarrow> Frame \<Rightarrow> bytes \<Rightarrow> Frame" where
  "rebuilt cmd f payload =
     (if f_Extensions f = [] then plain_frame cmd 0 payload else ext_frame cmd 0 (f_Extensions f) payload)"

abbreviation forwarded :: "Frame \<Rightarrow> Frame" where
  "forwarded f \<equiv> f\<lparr>f_Command := SetForwarded (f_Command f)\<rparr>"

lemma rebuilt_facts:
  assumes "wf_frame f" "length (f_Extensions f) + length p < 2 ^ 32" "cmd \<in> {CmdPublish, CmdPublishBatch}"
  shows "wf_frame (rebuilt cmd f p)" "OpcodeOf (f_Command (rebuilt cmd f p)) = cmd" "f_Payload (rebuilt cmd f p) = p"
    "f_Extensions (rebuilt cmd f p) = f_Extensions f"
    "enc_frame (rebuilt cmd f p) = (if f_Extensions f = [] then header_bytes cmd 0 (of_nat (length p)) @ p
       else header_bytes (cmd OR HasExtensionsBit) 0 (of_nat (length (f_Extensions f) + length p)) @ f_Extensions f @ p)"
proof -
  have c: "valid_opcode cmd" "cmd AND HasExtensionsBit = 0" "OpcodeOf cmd = cmd"
    using assms(3) by (auto simp: valid_opcode_def OpcodeOf_def wire_consts)
  have e: "length (f_Extensions f) = 2 + unat (get_u16 (f_Extensions f))" "length (f_Extensions f) \<le> 1026" if "f_Extensions f \<noteq> []"
    using assms(1) that by (auto simp: wf_frame_def split: if_splits)
  note i = plain_frame_image [OF c(1,2), of p 0] ext_frame_image [OF c(1) e, of p 0]
  show "wf_frame (rebuilt cmd f p)"
    "enc_frame (rebuilt cmd f p) = (if f_Extensions f = [] then header_bytes cmd 0 (of_nat (length p)) @ p
       else header_bytes (cmd OR HasExtensionsBit) 0 (of_nat (length (f_Extensions f) + length p)) @ f_Extensions f @ p)"
    using i assms(2) by (simp_all add: rebuilt_def)
  show "OpcodeOf (f_Command (rebuilt cmd f p)) = cmd" "f_Payload (rebuilt cmd f p) = p" "f_Extensions (rebuilt cmd f p) = f_Extensions f"
    using c(3) by (simp_all add: rebuilt_def plain_frame_def ext_frame_def)
qed

lemma forward_buffers:
  assumes "buffer_source (e_acq env)" "wf_frame f" "length (f_Extensions f) + length p < 2 ^ 32"
  shows "publish_buf env f p = enc_frame (rebuilt CmdPublish f p)"
    "p = f_Payload f \<Longrightarrow> batch_buf env f = enc_frame (rebuilt CmdPublishBatch f p)"
  using buffer_source.SerializeFrame_eq [OF assms(1), of p] buffer_source.SerializeFrameWithExtensions_eq [OF assms(1,3)]
    rebuilt_facts(5) [OF assms(2,3)] assms(3)
  by (simp_all add: publish_buf_def batch_buf_def HasExtensions_def)

lemma Forward_frame:
  assumes "wf_frame g"
  shows "pm_written (snd (Forward_peers ok (enc_frame g) True pm)) =
    pm_written pm @ map (\<lambda>p. (p, enc_frame (forwarded g))) (receivers ok (pm_peers pm) pm)"
proof -
  have "10 \<le> length (enc_frame g)" using length_enc_frame [OF assms] by simp
  moreover have "marked (enc_frame g) = enc_frame (forwarded g)"
    by (simp add: marked_def enc_frame_def header_bytes_def DataLen_def SetForwarded_def)
  ultimately show ?thesis by (simp add: Forward_eq)
qed

section \<open>Receiving a forwarded frame\<close>

lemma marked_admitted:
  assumes "br_compression b = None" "IsForwarded (f_Command g)"
  shows "admitFrame te s c g raw (db, b) = (Ok (), db, b)"
proof -
  have "f_Command g \<noteq> CmdPublish" "f_Command g \<noteq> CmdPublishBatch" "f_Command g \<noteq> CmdSubscribe"
    using assms(2) by (auto simp: IsForwarded_def wire_consts)
  then show ?thesis
    using assms(1) by (simp add: admitFrame_def decompressFrame_def authorized_def permissionForFrame_def log_frame_def split: option.split)
qed

lemma startPublishSpan_router [simp]:
  "br_router (startPublishSpan n f x b) = br_router b" "br_compression (startPublishSpan n f x b) = br_compression b"
  by (auto simp: startPublishSpan_def note_effect_def split: res.split option.split)

lemma receive_marked:
  assumes "br_router (n_broker n) = Some r" "br_compression (n_broker n) = None" "IsForwarded (f_Command g)"
  shows "br_router (n_broker (receive te ok s c [g] n)) = Some (
      if OpcodeOf (f_Command g) = CmdPublish then snd (PublishFromPeer (te_env te (br_tick (n_broker n))) g r)
      else if OpcodeOf (f_Command g) = CmdPublishBatch then snd (PublishBatch (te_env te (br_tick (n_broker n))) g r) else r)"
    "br_compression (n_broker (receive te ok s c [g] n)) = None"
proof -
  have "CmdPublish \<noteq> CmdPublishBatch" by (simp add: wire_consts)
  then show "br_router (n_broker (receive te ok s c [g] n)) = Some (
      if OpcodeOf (f_Command g) = CmdPublish then snd (PublishFromPeer (te_env te (br_tick (n_broker n))) g r)
      else if OpcodeOf (f_Command g) = CmdPublishBatch then snd (PublishBatch (te_env te (br_tick (n_broker n))) g r) else r)"
    "br_compression (n_broker (receive te ok s c [g] n)) = None"
    using assms marked_admitted [OF assms(2,3)]
    by (simp_all add: receive_def Let_def next_state_def routeFrame_def handleForwardedFrame_def with_router_def)
qed

lemma receive_peers:
  "n_peers (receive te ok s c fs n) = forward_all ok
     (drop (length (broker_forwards (n_broker n))) (broker_forwards (n_broker (receive te ok s c fs n)))) (n_peers n)"
  by (simp add: receive_def Let_def)

lemma sent_one:
  assumes "synced r n" "br_router (n_broker (receive te ok s c fs n)) = Some r'" "wf_frame g"
    and "forwards r' = forwards r @ (if x \<and> has_peers r then [(enc_frame g, True)] else [])"
  shows "sent_by n (receive te ok s c fs n) =
    (if x then map (\<lambda>p. (p, enc_frame (forwarded g))) (receivers ok (pm_peers (n_peers n)) (n_peers n)) else [])"
    "pm_peers (n_peers (receive te ok s c fs n)) = pm_peers (n_peers n)" "pm_refs (n_peers (receive te ok s c fs n)) = pm_refs (n_peers n)"
proof -
  let ?n = "receive te ok s c fs n"
  have d: "drop (length (broker_forwards (n_broker n))) (broker_forwards (n_broker ?n)) = (if x \<and> has_peers r then [(enc_frame g, True)] else [])"
    using assms(1,2,4) by (simp add: broker_forwards_def synced_def)
  have none: "receivers ok (pm_peers (n_peers n)) (n_peers n) = []" if "\<not> has_peers r"
    using receivers_active [of ok "n_peers n"] assms(1) that by (simp add: synced_def has_peers_def)
  have p: "n_peers ?n = (if x \<and> has_peers r then snd (Forward_peers ok (enc_frame g) True (n_peers n)) else n_peers n)"
    using d by (simp add: receive_peers forward_all_def split: if_splits)
  show "sent_by n ?n = (if x then map (\<lambda>p. (p, enc_frame (forwarded g))) (receivers ok (pm_peers (n_peers n)) (n_peers n)) else [])"
    using none Forward_frame [OF assms(3), of ok "n_peers n"] by (auto simp: sent_by_def p)
  show "pm_peers (n_peers ?n) = pm_peers (n_peers n)" "pm_refs (n_peers ?n) = pm_refs (n_peers n)"
    by (simp_all add: p Forward_eq)
qed

section \<open>A message makes one hop\<close>

lemma local_publish_router:
  assumes "br_router b = Some r" "OpcodeOf (f_Command f) = CmdPublish" "\<not> IsForwarded (f_Command f)"
    and "handle_frames te s c [f] (0, b) = (Ok (), db, b')"
  shows "br_router b' = Some (snd (PublishWithClientID (te_env te (br_tick b)) f c r))"
proof -
  obtain db1 b1 where a: "admitFrame te s c f (enc_frame f) (0, b) = (Ok (), db1, b1)" "(db, b') = next_state te s c f (db1, b1)"
    using assms(4) by (cases "admitFrame te s c f (enc_frame f) (0, b)") (auto split: res.splits)
  have k: "br_router b1 = br_router b" "br_tick b1 = br_tick b"
    using admitFrame_config [OF a(1)] by simp_all
  then show ?thesis
    using a(2) assms(1-3) by (auto simp: next_state_def routeFrame_def handleLocalFrame_def Let_def with_router_def wire_consts)
qed

text \<open>C16: A published message reaches every connected peer once and goes no further. When a node accepts a publish frame
  of a client, it writes one frame, with the forwarded bit, the topic and the extensions of the message, to each of its
  connected peers that takes the write (none when the quota or the size refuses it). Any node that receives this frame
  publishes it to its own subscribers, whatever its access list says, and writes nothing to its peers; so the number
  of copies is bounded in every topology of the mesh.\<close>

theorem mesh_publish_single_hop:
  assumes "synced r n" "wf_frame f" "OpcodeOf (f_Command f) = CmdPublish" "\<not> IsForwarded (f_Command f)"
    and "fst (handle_frames te s c [f] (0, n_broker n)) = Ok ()"
    and "buffer_source (e_acq (te_env te (br_tick (n_broker n))))"
    and "expiry_and_topic (te_env te (br_tick (n_broker n))) (priority_of f) (f_Payload f) r = (e, t)"
    and "length (f_Extensions f) + length t < 2 ^ 32"
  shows "sent_by n (receive te ok s c [f] n) =
      (if unat (f_PayloadLen f) \<le> maxPayloadSize \<and> fst (Manager_TryAcquire (r_quotaManager r) c)
       then map (\<lambda>p. (p, enc_frame (forwarded (rebuilt CmdPublish f t)))) (receivers ok (pm_peers (n_peers n)) (n_peers n)) else []) \<and>
    (\<forall>m r2 te2 ok2 s2 c2. synced r2 m \<longrightarrow> br_compression (n_broker m) = None \<longrightarrow>
       br_router (n_broker (receive te2 ok2 s2 c2 [forwarded (rebuilt CmdPublish f t)] m)) =
         Some (snd (PublishFromPeer (te_env te2 (br_tick (n_broker m))) (forwarded (rebuilt CmdPublish f t)) r2)) \<and>
       sent_by m (receive te2 ok2 s2 c2 [forwarded (rebuilt CmdPublish f t)] m) = [])"
proof -
  let ?g = "rebuilt CmdPublish f t" and ?env = "te_env te (br_tick (n_broker n))"
  note g = rebuilt_facts [OF assms(2,8), of CmdPublish]
  obtain db b' where h: "handle_frames te s c [f] (0, n_broker n) = (Ok (), db, b')"
    using assms(5) by (cases "handle_frames te s c [f] (0, n_broker n)") auto
  have "br_router b' = Some (snd (PublishWithClientID ?env f c r))"
    using local_publish_router [OF _ assms(3,4) h] assms(1) by (simp add: synced_def)
  then have 1: "br_router (n_broker (receive te ok s c [f] n)) = Some (snd (publishWithClientID ?env f c r))"
    using h by (simp add: receive_def Let_def PublishWithClientID_def del: handle_frames.simps)
  have 2: "forwards (snd (publishWithClientID ?env f c r)) = forwards r @
      (if (unat (f_PayloadLen f) \<le> maxPayloadSize \<and> fst (Manager_TryAcquire (r_quotaManager r) c)) \<and> has_peers r then [(enc_frame ?g, True)] else [])"
    using publish_effects(2) [OF assms(7), of c] forward_buffers(1) [OF assms(6,2,8)] by simp
  have fw: "IsForwarded (f_Command (forwarded ?g))" "OpcodeOf (f_Command (forwarded ?g)) = CmdPublish"
    using forwarding_mark [OF g(1), of "[]"] g(2) by simp_all
  have "br_router (n_broker (receive te2 ok2 s2 c2 [forwarded ?g] m)) = Some (snd (PublishFromPeer (te_env te2 (br_tick (n_broker m))) (forwarded ?g) r2)) \<and>
      sent_by m (receive te2 ok2 s2 c2 [forwarded ?g] m) = []" if m: "synced r2 m" "br_compression (n_broker m) = None" for m r2 te2 ok2 s2 c2
  proof -
    have x: "br_router (n_broker (receive te2 ok2 s2 c2 [forwarded ?g] m)) = Some (snd (PublishFromPeer (te_env te2 (br_tick (n_broker m))) (forwarded ?g) r2))"
      using receive_marked(1) [OF _ m(2) fw(1), of r2 te2 ok2 s2 c2] m(1) fw(2) by (simp add: synced_def)
    then show ?thesis using sent_one(1) [OF m(1) x g(1), of False] peer_forwards by simp
  qed
  then show ?thesis using sent_one(1) [OF assms(1) 1 g(1) 2] by blast
qed

text \<open>A node with one subscriber and one connected peer.\<close>

definition mesh_node :: node where
  "mesh_node = \<lparr>n_broker = New (\<lambda>_. None) [WithRouter (Some (demo1\<lparr>r_peers := Some 1\<rparr>))],
     n_peers = stream_opened 0 3 (NewWithLogger [[98]])\<rparr>"

lemma mesh_node_fields:
  "br_router (n_broker mesh_node) = Some (demo1\<lparr>r_peers := Some 1\<rparr>)" "br_compression (n_broker mesh_node) = None"
  "br_authz (n_broker mesh_node) = None" "br_aal (n_broker mesh_node) = None" "br_tick (n_broker mesh_node) = 0"
  "pm_peers (n_peers mesh_node) = [0]" "p_stream (pm_refs (n_peers mesh_node) ! 0) = Some 3" "ActivePeers (n_peers mesh_node) = 1"
  "receivers (\<lambda>_. True) [0] (n_peers mesh_node) = [3]"
  by (simp_all add: mesh_node_def New_def WithRouter_def stream_opened_def update_ref_def NewWithLogger_def start_peer_def
      empty_manager_def Let_def ActivePeers_def receivers_def)

theorem mesh_publish_single_hop_witness:
  "sent_by mesh_node (receive te0 (\<lambda>_. True) stream0 [] [publish_a] mesh_node) =
     [(3, enc_frame (forwarded (plain_frame CmdPublish 0 topic_a)))] \<and>
   sent_by mesh_node (receive te0 (\<lambda>_. True) stream0 [] [forwarded (plain_frame CmdPublish 0 topic_a)] mesh_node) = []"
proof -
  let ?r = "demo1\<lparr>r_peers := Some 1\<rparr>"
  have s: "synced ?r mesh_node" by (simp add: synced_def mesh_node_fields)
  have p: "OpcodeOf (f_Command publish_a) = CmdPublish" "\<not> IsForwarded (f_Command publish_a)" "f_Extensions publish_a = []"
    "rebuilt CmdPublish publish_a topic_a = plain_frame CmdPublish 0 topic_a"
    by (simp_all add: publish_a_def frame_of_def OpcodeOf_def IsForwarded_def wire_consts rebuilt_def)
  have h: "fst (handle_frames te0 stream0 [] [publish_a] (0, n_broker mesh_node)) = Ok ()"
    by (simp add: admitFrame_def decompressFrame_def authorized_def log_frame_def mesh_node_fields)
  have src: "buffer_source (e_acq (te_env te0 (br_tick (n_broker mesh_node))))"
    by unfold_locales (simp add: te0_def env0_def)
  have e: "expiry_and_topic (te_env te0 (br_tick (n_broker mesh_node))) (priority_of publish_a) (f_Payload publish_a) ?r = (0, topic_a)"
    using demo_frame(2,3) by (simp add: publish_a_def te0_def expiry_and_topic_def)
  have q: "unat (f_PayloadLen publish_a) \<le> maxPayloadSize" "fst (Manager_TryAcquire (r_quotaManager ?r) []) "
    using demo_frame(1) by (simp_all add: publish_a_def demo1_fields Manager_TryAcquire_def)
  have l: "length (f_Extensions publish_a) + length topic_a < 2 ^ 32" using topic_a_plain(3) p(3) by simp
  note m = mesh_publish_single_hop [OF s _ p(1,2) h src e l, where ok = "\<lambda>_. True", unfolded p(4)]
  show ?thesis using m publish_a_fits(1) q mesh_node_fields s by (auto simp: fits_def)
qed

section \<open>A batch goes round for ever\<close>

lemma batch_receive:
  assumes "synced r n" "br_compression (n_broker n) = None" "r_compression r = None"
    and "wf_frame g" "OpcodeOf (f_Command g) = CmdPublishBatch" "IsForwarded (f_Command g)" "unat (f_PayloadLen g) \<le> maxPayloadSize"
    and "buffer_source (e_acq (te_env te (br_tick (n_broker n))))" "length (f_Extensions g) + length (f_Payload g) < 2 ^ 32"
  shows "sent_by n (receive te ok s c [g] n) = map (\<lambda>p. (p, enc_frame (forwarded (rebuilt CmdPublishBatch g (f_Payload g)))))
      (receivers ok (pm_peers (n_peers n)) (n_peers n))"
    "\<exists>r'. synced r' (receive te ok s c [g] n) \<and> r_compression r' = None" "br_compression (n_broker (receive te ok s c [g] n)) = None"
    "pm_peers (n_peers (receive te ok s c [g] n)) = pm_peers (n_peers n)" "pm_refs (n_peers (receive te ok s c [g] n)) = pm_refs (n_peers n)"
proof -
  let ?env = "te_env te (br_tick (n_broker n))" and ?n = "receive te ok s c [g] n"
  let ?r = "snd (PublishBatch ?env g r)"
  have ne: "CmdPublishBatch \<noteq> CmdPublish" by (simp add: wire_consts)
  have 1: "br_router (n_broker ?n) = Some ?r"
    using receive_marked(1) [OF _ assms(2,6), of r te ok s c] assms(1,5) ne by (simp add: synced_def)
  have 2: "forwards ?r = forwards r @ (if True \<and> has_peers r then [(enc_frame (rebuilt CmdPublishBatch g (f_Payload g)), True)] else [])"
    using batch_effects(2) [where env = ?env and frame = g and r = r] assms(3,7) forward_buffers(2) [OF assms(8,4,9) refl] by simp
  have w: "wf_frame (rebuilt CmdPublishBatch g (f_Payload g))" using rebuilt_facts(1) [OF assms(4,9)] by simp
  note o = sent_one [OF assms(1) 1 w 2]
  show "sent_by n ?n = map (\<lambda>p. (p, enc_frame (forwarded (rebuilt CmdPublishBatch g (f_Payload g))))) (receivers ok (pm_peers (n_peers n)) (n_peers n))"
    "pm_peers (n_peers ?n) = pm_peers (n_peers n)" "pm_refs (n_peers ?n) = pm_refs (n_peers n)" using o by simp_all
  show "br_compression (n_broker ?n) = None" by (rule receive_marked(2) [OF _ assms(2,6)]) (use assms(1) in \<open>simp add: synced_def\<close>)
  have "r_peers ?r = r_peers r" "r_compression ?r = r_compression r"
    using batch_effects(1) [of r ?env g] by (simp_all add: logs_def)
  then show "\<exists>r'. synced r' ?n \<and> r_compression r' = None"
    using 1 o(2,3) assms(1,3) by (intro exI [of _ ?r]) (simp add: synced_def ActivePeers_def)
qed

text \<open>Two nodes that are each other's peer hand a batch back and forth: one receives it, then the other.\<close>

definition volley :: "te_sys \<Rightarrow> (nat \<Rightarrow> bool) \<Rightarrow> stream \<Rightarrow> bytes \<Rightarrow> Frame \<Rightarrow> node \<times> node \<Rightarrow> node \<times> node" where
  "volley te ok s c g nodes = (case nodes of (x, y) \<Rightarrow> (y, receive te ok s c [g] x))"

definition storm_ready :: "(nat \<Rightarrow> bool) \<Rightarrow> nat list \<Rightarrow> node \<Rightarrow> bool" where
  "storm_ready ok ps n \<longleftrightarrow> (\<exists>r. synced r n \<and> r_compression r = None) \<and> br_compression (n_broker n) = None \<and>
     receivers ok (pm_peers (n_peers n)) (n_peers n) = ps"

text \<open>C35: A batch never leaves the mesh. When two nodes without compression are each other's peers, a batch that one of
  them forwards to the other is forwarded back with the very same bytes, and so on without end: after any number of
  receptions the next reception writes the same frame again to every peer of the receiver, although the frame carries
  the bit that was to prevent it.\<close>

theorem mesh_batch_storm:
  assumes "wf_frame f" "length (f_Extensions f) + length (f_Payload f) < 2 ^ 32" "length (f_Payload f) \<le> maxPayloadSize"
    and "\<forall>k. buffer_source (e_acq (te_env te k))" "storm_ready ok ps a" "storm_ready ok qs b"
    and "g = forwarded (rebuilt CmdPublishBatch f (f_Payload f))" "(volley te ok s c g ^^ k) (a, b) = (x, y)"
  shows "sent_by x (receive te ok s c [g] x) = map (\<lambda>p. (p, enc_frame g)) (if even k then ps else qs)"
proof -
  let ?h = "rebuilt CmdPublishBatch f (f_Payload f)"
  note h = rebuilt_facts [OF assms(1,2), of CmdPublishBatch]
  have g: "wf_frame g" "OpcodeOf (f_Command g) = CmdPublishBatch" "IsForwarded (f_Command g)" "f_Payload g = f_Payload f" "f_Extensions g = f_Extensions f"
    using forwarding_mark [OF h(1), of "[]"] h(2-4) assms(7) by simp_all
  have "f_PayloadLen g = of_nat (length (f_Payload f))" by (simp add: assms(7) rebuilt_def plain_frame_def ext_frame_def)
  then have l: "unat (f_PayloadLen g) \<le> maxPayloadSize" "length (f_Extensions g) + length (f_Payload g) < 2 ^ 32"
    using assms(2,3) g(4,5) by (simp_all add: unat_of_nat_u32)
  have again: "forwarded (rebuilt CmdPublishBatch g (f_Payload g)) = g"
    using g(4,5) by (simp add: assms(7) rebuilt_def plain_frame_def ext_frame_def)
  have step: "storm_ready ok zs (receive te ok s c [g] n) \<and> sent_by n (receive te ok s c [g] n) = map (\<lambda>p. (p, enc_frame g)) zs"
    if z: "storm_ready ok zs n" for zs n
  proof -
    obtain r where r: "synced r n" "r_compression r = None" "br_compression (n_broker n) = None" using z by (auto simp: storm_ready_def)
    note br = batch_receive [OF r(1,3,2) g(1-3) l(1) assms(4) [rule_format] l(2), of ok s c]
    show ?thesis using br z again by (auto simp: storm_ready_def receivers_def)
  qed
  have "(volley te ok s c g ^^ k) (a, b) = (x, y) \<Longrightarrow>
      storm_ready ok (if even k then ps else qs) x \<and> storm_ready ok (if even k then qs else ps) y" for k x y
  proof (induction k arbitrary: x y)
    case (Suc k)
    obtain x1 y1 where 1: "(volley te ok s c g ^^ k) (a, b) = (x1, y1)" by fastforce
    have "x = y1" "y = receive te ok s c [g] x1" using Suc.prems 1 by (simp_all add: volley_def [of te ok s c g "(x1, y1)"])
    then show ?case using Suc.IH [OF 1] step by (cases "even k") simp_all
  qed (use assms(5,6) in simp)
  then show ?thesis using step assms(8) by blast
qed

theorem mesh_batch_storm_witness:
  "\<exists>x y. (volley te0 (\<lambda>_. True) stream0 [] (forwarded (plain_frame CmdPublishBatch 0 [])) ^^ 1000) (mesh_node, mesh_node) = (x, y) \<and>
     sent_by x (receive te0 (\<lambda>_. True) stream0 [] [forwarded (plain_frame CmdPublishBatch 0 [])] x) =
       [(3, enc_frame (forwarded (plain_frame CmdPublishBatch 0 [])))]"
proof -
  let ?f = "plain_frame CmdPublishBatch 0 []"
  have f: "wf_frame ?f" "rebuilt CmdPublishBatch ?f (f_Payload ?f) = ?f" "f_Extensions ?f = []" "f_Payload ?f = []"
    using plain_frame_image(1) [of CmdPublishBatch "[]" 0]
    by (simp_all add: valid_opcode_def OpcodeOf_def wire_consts rebuilt_def) (simp_all add: plain_frame_def)
  have src: "\<forall>k. buffer_source (e_acq (te_env te0 k))"
  proof
    show "buffer_source (e_acq (te_env te0 k))" for k by unfold_locales (simp add: te0_def env0_def)
  qed
  have "r_compression demo1 = None"
    using topic_a_plain by (simp add: demo1_def Subscribe_def frame_of_def plain_subscription Let_def empty_spec_def append_slot_def
        report_active_def NewRouter_def empty_router_def GetTopicOffset_def)
  then have r: "storm_ready (\<lambda>_. True) [3] mesh_node"
    unfolding storm_ready_def by (intro conjI exI [of _ "demo1\<lparr>r_peers := Some 1\<rparr>"]) (simp_all add: synced_def mesh_node_fields)
  obtain x y where v: "(volley te0 (\<lambda>_. True) stream0 [] (forwarded ?f) ^^ 1000) (mesh_node, mesh_node) = (x, y)" by fastforce
  show ?thesis
    using mesh_batch_storm [OF f(1) _ _ src r r _ v] f by (intro exI [of _ x] exI [of _ y]) (simp add: v)
qed

end
