(* ===== verification/Compression.thy ===== *)
theory Compression
  imports Transport_Props Slab
begin

text \<open>
  The compression engine of \<^verbatim>\<open>internal/compress\<close> and what the broker makes of it. The ZSTD library is a parameter: what it
  encodes and decodes, its bound on the encoded size, and the bytes it leaves behind the decoded data in the buffer it
  was given. Which buffers go back to the allocator is part of the result.
\<close>

section \<open>The engine\<close>

text \<open>\<open>z_decode src n\<close> decodes into a fresh buffer of capacity \<open>n\<close>: the data, and the rest of the array it is in.\<close>

record zstd =
  z_encode :: "bytes \<Rightarrow> bytes"
  z_maxEncodedSize :: "nat \<Rightarrow> int"
  z_decode :: "bytes \<Rightarrow> nat \<Rightarrow> (bytes \<times> bytes) option"

definition slabClasses :: "nat list" where "slabClasses = [128, 256, 512, 2048, 8192, 32768]"

text \<open>\<open>acq n\<close> is the capacity of the buffer the allocator gives for \<open>n\<close> bytes. The result is the encoded data, the
  capacity of its array when it is still the one of the allocator, and the capacity that is given back.\<close>

definition max_size :: "zstd \<Rightarrow> bytes \<Rightarrow> nat" where
  "max_size z src =
     (let maxSize = z_maxEncodedSize z (length src) in if maxSize \<le> 0 then length src + 4096 else nat maxSize)"

definition compress :: "zstd \<Rightarrow> (nat \<Rightarrow> nat option) \<Rightarrow> bytes \<Rightarrow> bytes \<times> nat option \<times> nat option" where
  "compress z acq src =
     (let maxSize = max_size z src;
          capBefore = (case acq maxSize of None \<Rightarrow> maxSize | Some c \<Rightarrow> c);
          result = z_encode z src
      in if length result \<le> capBefore then (result, Some capBefore, None)
         else (result, None, if capBefore > 0 then Some capBefore else None))"

definition Compress :: "zstd \<Rightarrow> (nat \<Rightarrow> nat option) \<Rightarrow> bytes \<Rightarrow> bytes \<times> nat option \<times> nat option" where
  "Compress z acq src = compress z acq src"

definition decompress :: "zstd \<Rightarrow> bytes \<Rightarrow> int \<Rightarrow> bytes option" where
  "decompress z src uncompressedSize =
     (case z_decode z src (nat uncompressedSize) of
        None \<Rightarrow> None
      | Some (result, rest) \<Rightarrow>
          if int (length (result @ rest)) \<ge> uncompressedSize then Some (take (nat uncompressedSize) (result @ rest))
          else Some result)"

definition Decompress :: "zstd \<Rightarrow> bytes \<Rightarrow> int \<Rightarrow> bytes option" where
  "Decompress z src uncompressedSize = decompress z src uncompressedSize"

text \<open>A buffer goes back to the allocator when its capacity is one of the classes.\<close>

definition ReleaseBuf :: "bytes \<Rightarrow> nat \<Rightarrow> nat option" where
  "ReleaseBuf buf c = (if length buf = 0 then None else if c \<in> set slabClasses then Some c else None)"

definition CompressedSize :: "int \<Rightarrow> int" where
  "CompressedSize srcLen =
     (if srcLen \<le> 0 then 0
      else let extra = srcLen div 255; extra = (if extra < 16 then 16 else extra) in srcLen + extra + 16)"

section \<open>The laws of the library\<close>

text \<open>Decoding inverts encoding, and a buffer that is large enough is used to its capacity.\<close>

definition zstd_ok :: "zstd \<Rightarrow> bool" where
  "zstd_ok z \<longleftrightarrow> (\<forall>src n. \<exists>rest. z_decode z (z_encode z src) n = Some (src, rest) \<and> (length src \<le> n \<longrightarrow> length src + length rest = n))"

lemma slabClasses_sizes: "slabClasses = slab_sizes"
  by (simp add: slabClasses_def slab_sizes_def)

text \<open>C34: Decompression undoes compression when the declared size is right, and believes it when it is wrong. What the engine
  compresses it decompresses to the same bytes; with a declared size below the true one it returns that many bytes
  of the data without an error, and with one above it the data is followed by whatever the buffer held.\<close>

theorem compression_roundtrip:
  assumes "zstd_ok z" "0 \<le> n"
  shows "Decompress z (fst (Compress z acq src)) (int (length src)) = Some src \<and>
    (\<exists>rest. Decompress z (fst (Compress z acq src)) n = Some (take (nat n) src @ rest) \<and> (int (length src) < n \<longrightarrow> length src + length rest = nat n) \<and>
       (n \<le> int (length src) \<longrightarrow> rest = []))"
proof -
  have d: "\<exists>rest. z_decode z (z_encode z src) k = Some (src, rest) \<and> (length src \<le> k \<longrightarrow> length src + length rest = k)" for k
    using assms(1) by (simp add: zstd_ok_def)
  have e: "fst (Compress z acq src) = z_encode z src" by (simp add: Compress_def compress_def Let_def)
  obtain r1 where r1: "z_decode z (z_encode z src) (length src) = Some (src, r1)" "r1 = []" using d [of "length src"] by auto
  obtain r2 where r2: "z_decode z (z_encode z src) (nat n) = Some (src, r2)" "length src \<le> nat n \<longrightarrow> length src + length r2 = nat n"
    using d [of "nat n"] by auto
  have "Decompress z (z_encode z src) (int (length src)) = Some src" using r1 by (simp add: Decompress_def decompress_def)
  moreover have "Decompress z (z_encode z src) n = Some (take (nat n) src @ (if int (length src) < n then r2 else []))"
    using r2 assms(2) by (auto simp: Decompress_def decompress_def)
  ultimately show ?thesis using r2(2) by (auto simp: e)
qed

definition toy_zstd :: zstd where
  "toy_zstd = \<lparr>z_encode = (\<lambda>s. 0 # s), z_maxEncodedSize = (\<lambda>n. int n + 1),
     z_decode = (\<lambda>s n. case s of [] \<Rightarrow> None | _ # d \<Rightarrow> Some (d, replicate (n - length d) 0))\<rparr>"

theorem compression_roundtrip_witness:
  "Decompress toy_zstd (fst (Compress toy_zstd (\<lambda>_. None) [1, 2, 3])) 3 = Some [1, 2, 3] \<and>
   Decompress toy_zstd (fst (Compress toy_zstd (\<lambda>_. None) [1, 2, 3])) 2 = Some [1, 2]"
proof -
  have "zstd_ok toy_zstd" by (simp add: zstd_ok_def toy_zstd_def)
  from compression_roundtrip [OF this, of 2 "\<lambda>_. None" "[1, 2, 3]"] show ?thesis by simp
qed

section \<open>What the broker does with it\<close>

definition without_compression :: "Broker \<Rightarrow> Broker" where
  "without_compression b = b\<lparr>br_compression := None\<rparr>"

lemma without_fields [simp]:
  "br_router (without_compression b) = br_router b" "br_tick (without_compression b) = br_tick b"
  "br_compression (without_compression b) = None"
  by (simp_all add: without_compression_def)

lemma log_frame_without:
  "log_frame te cmd raw b = Ok b1 \<Longrightarrow> log_frame te cmd raw (without_compression b) = Ok (without_compression b1)"
  by (auto simp: log_frame_def without_compression_def split: if_splits prod.splits res.splits)

lemma admitFrame_without:
  assumes "admitFrame te s c f raw (db, b) = (Ok (), db1, b1)"
  shows "admitFrame te s c f raw (db2, without_compression b) = (Ok (), db2, without_compression b1)"
proof -
  have "authorized (without_compression b) c f = authorized b c f" by (simp add: authorized_def without_compression_def)
  then show ?thesis
    using assms log_frame_without [of te "f_Command f" raw b]
    by (auto simp: admitFrame_def decompressFrame_def [of _ "without_compression b"] split: prod.splits res.splits if_splits)
qed

lemma route_without:
  "routeFrame env s c f (without_compression b) = without_compression (routeFrame env s c f b)"
proof -
  have n: "note_effect e (without_compression b) = without_compression (note_effect e b)" for e b
    by (simp add: note_effect_def without_compression_def)
  have w: "with_router g (without_compression b) = without_compression (with_router g b)" for g b
    by (simp add: with_router_def without_compression_def)
  have sp: "startPublishSpan m f x (without_compression b) = without_compression (startPublishSpan m f x b)" for m x b
    by (simp add: startPublishSpan_def n without_compression_def [of b] split: res.split option.split) (simp add: note_effect_def without_compression_def)
  have h: "call_handler env s f (without_compression b) = without_compression (call_handler env s f b)" for b
  proof -
    have "br_handlers (without_compression b) = br_handlers b" by (simp add: without_compression_def)
    then show ?thesis by (auto simp: call_handler_def sendResponse_def n split: option.splits)
  qed
  have l: "handleLocalFrame env s c f (without_compression b) = map_prod id without_compression (handleLocalFrame env s c f b)" for b
    by (simp add: handleLocalFrame_def Let_def w sp split: option.split)
  show ?thesis
    by (simp add: routeFrame_def handleForwardedFrame_def w sp h l split: prod.split bool.split)
qed

text \<open>C40: The broker never uses what it decompresses. When a broker with a decompression engine accepts a stream of frames, its
  router ends up exactly as in a broker without one: every compressed frame is decompressed, counted against the budget
  and then routed in its compressed form, so that subscribers and batches see the compressed bytes.\<close>

theorem decompression_has_no_effect:
  assumes "handle_frames te s c fs (db, b) = (Ok (), db', b')"
  shows "handle_frames te s c fs (db2, b\<lparr>br_compression := None\<rparr>) = (Ok (), db2, b'\<lparr>br_compression := None\<rparr>)"
proof -
  have "handle_frames te s c fs (db2, without_compression b) = (Ok (), db2, without_compression b')"
    using assms
  proof (induction fs arbitrary: db b)
    case (Cons f fs)
    obtain db1 b1 where a: "admitFrame te s c f (enc_frame f) (db, b) = (Ok (), db1, b1)"
      "handle_frames te s c fs (next_state te s c f (db1, b1)) = (Ok (), db', b')"
      using Cons.prems by (cases "admitFrame te s c f (enc_frame f) (db, b)") (auto split: res.splits)
    have "next_state te s c f (db2, without_compression b1) = (db2, without_compression (snd (next_state te s c f (db1, b1))))"
      using route_without by (simp add: next_state_def) (simp add: without_compression_def)
    then show ?case
      using admitFrame_without [OF a(1)] Cons.IH [of db1 "snd (next_state te s c f (db1, b1))"] a(2) by (simp add: next_state_def)
  qed simp
  then show ?thesis by (simp add: without_compression_def)
qed

theorem decompression_has_no_effect_witness:
  "\<exists>b'. handle_frames te0 stream0 [] [publish_a] (0, broker0\<lparr>br_compression := Some (Decompress toy_zstd)\<rparr>) = (Ok (), 0, b') \<and>
     handle_frames te0 stream0 [] [publish_a] (0, broker0\<lparr>br_compression := None\<rparr>) = (Ok (), 0, b'\<lparr>br_compression := None\<rparr>)"
proof -
  let ?b = "broker0\<lparr>br_compression := Some (Decompress toy_zstd)\<rparr>"
  have "f_Extensions publish_a = []" by (simp add: publish_a_def frame_of_def)
  then have "admitFrame te0 stream0 [] publish_a (enc_frame publish_a) (0, ?b) = (Ok (), 0, ?b)"
    by (simp add: admitFrame_def decompressFrame_def FindExtension_def authorized_def log_frame_def broker0_fields)
  then obtain b' where h: "handle_frames te0 stream0 [] [publish_a] (0, ?b) = (Ok (), 0, b')" by (simp add: next_state_def)
  then show ?thesis using decompression_has_no_effect [OF h, of 0] by auto
qed

end
