(* ===== verification/Metrics.thy ===== *)
theory Metrics
  imports Aqueduct_Prelude "HOL-Library.AList"
begin

text \<open>
  The labels of \<^verbatim>\<open>internal/metrics\<close>: values that clients choose are mapped to a bounded number of labels. Calls are atomic:
  the second look-up is made under the write lock. The registry of Prometheus is not modelled.
\<close>

definition maxUniqueLabels :: nat where "maxUniqueLabels = 4096"

record labelBounded =
  lb_mapping :: "(bytes \<times> bytes) list"
  lb_count :: nat
  lb_overflow :: bytes

definition newLabelBounded :: labelBounded where
  "newLabelBounded = \<lparr>lb_mapping = [], lb_count = 0, lb_overflow = str ''__overflow__''\<rparr>"

definition sanitize :: "bytes \<Rightarrow> labelBounded \<Rightarrow> bytes \<times> labelBounded" where
  "sanitize val b =
     (case map_of (lb_mapping b) val of
        Some mapped \<Rightarrow> (mapped, b)
      | None \<Rightarrow>
          if lb_count b \<ge> maxUniqueLabels then (lb_overflow b, b\<lparr>lb_mapping := AList.update val (lb_overflow b) (lb_mapping b)\<rparr>)
          else (val, b\<lparr>lb_mapping := AList.update val val (lb_mapping b), lb_count := lb_count b + 1\<rparr>))"

record sanitizers =
  sz_topic :: labelBounded
  sz_client :: labelBounded
  sz_consumer :: labelBounded

definition initial_sanitizers :: sanitizers where
  "initial_sanitizers = \<lparr>sz_topic = newLabelBounded, sz_client = newLabelBounded, sz_consumer = newLabelBounded\<rparr>"

definition SanitizeTopic :: "bytes \<Rightarrow> sanitizers \<Rightarrow> bytes \<times> sanitizers" where
  "SanitizeTopic topic z = (case sanitize topic (sz_topic z) of (l, b) \<Rightarrow> (l, z\<lparr>sz_topic := b\<rparr>))"

definition SanitizeClient :: "bytes \<Rightarrow> sanitizers \<Rightarrow> bytes \<times> sanitizers" where
  "SanitizeClient client z = (case sanitize client (sz_client z) of (l, b) \<Rightarrow> (l, z\<lparr>sz_client := b\<rparr>))"

definition SanitizeConsumer :: "bytes \<Rightarrow> sanitizers \<Rightarrow> bytes \<times> sanitizers" where
  "SanitizeConsumer consumer z = (case sanitize consumer (sz_consumer z) of (l, b) \<Rightarrow> (l, z\<lparr>sz_consumer := b\<rparr>))"

text \<open>The server of the metrics listens in a goroutine and drops its error, so that starting it never fails.\<close>

definition healthz :: "nat \<times> bytes" where "healthz = (200, str ''OK'')"

definition StartServer :: "bytes \<Rightarrow> bytes option" where "StartServer addr = None"

section \<open>Properties\<close>

fun sanitize_all :: "bytes list \<Rightarrow> labelBounded \<Rightarrow> bytes list \<times> labelBounded" where
  "sanitize_all [] b = ([], b)"
| "sanitize_all (v # vs) b =
     (case sanitize v b of (l, b) \<Rightarrow> case sanitize_all vs b of (ls, b) \<Rightarrow> (l # ls, b))"

text \<open>The values that have their own label.\<close>

definition admitted :: "labelBounded \<Rightarrow> bytes set" where
  "admitted b = {v. map_of (lb_mapping b) v = Some v}"

definition labels_ok :: "labelBounded \<Rightarrow> bool" where
  "labels_ok b \<longleftrightarrow> distinct (map fst (lb_mapping b)) \<and> (\<forall>v l. map_of (lb_mapping b) v = Some l \<longrightarrow> l = v \<or> l = lb_overflow b) \<and>
     card (admitted b - {lb_overflow b}) \<le> lb_count b \<and> lb_count b \<le> maxUniqueLabels"

lemma finite_admitted: "finite (admitted b)"
proof -
  have "admitted b \<subseteq> fst ` set (lb_mapping b)" by (force simp: admitted_def dest: map_of_SomeD)
  then show ?thesis by (rule finite_subset) simp
qed

lemma sanitize_step:
  assumes "labels_ok b" "sanitize v b = (l, b')"
  shows "labels_ok b'" "lb_overflow b' = lb_overflow b" "l \<in> insert (lb_overflow b) (admitted b')"
    "fst ` set (lb_mapping b') = insert v (fst ` set (lb_mapping b))" "admitted b \<subseteq> admitted b'"
proof -
  have "labels_ok b' \<and> lb_overflow b' = lb_overflow b \<and> l \<in> insert (lb_overflow b) (admitted b') \<and>
      fst ` set (lb_mapping b') = insert v (fst ` set (lb_mapping b)) \<and> admitted b \<subseteq> admitted b'"
  proof (cases "map_of (lb_mapping b) v")
    case (Some m)
    have "v \<in> fst ` set (lb_mapping b)" using Some by (force dest: map_of_SomeD)
    moreover have e: "b' = b" "l = m" using assms(2) Some by (simp_all add: sanitize_def)
    moreover have "l \<in> insert (lb_overflow b) (admitted b)" using assms(1) Some e(2) unfolding labels_ok_def admitted_def by blast
    ultimately show ?thesis using assms(1) by auto
  next
    case None
    show ?thesis
    proof (cases "lb_count b \<ge> maxUniqueLabels")
      case True
      have e: "l = lb_overflow b" "b' = b\<lparr>lb_mapping := AList.update v (lb_overflow b) (lb_mapping b)\<rparr>"
        using assms(2) None True by (auto simp: sanitize_def)
      have "admitted b' - {lb_overflow b} = admitted b - {lb_overflow b}"
        using None by (auto simp: e admitted_def update_conv' split: if_splits)
      moreover have "admitted b \<subseteq> admitted b'" using None by (auto simp: e admitted_def update_conv')
      ultimately show ?thesis
        using assms(1) by (auto simp: e labels_ok_def update_conv' distinct_update dom_update split: if_splits)
    next
      case False
      have e: "l = v" "b' = b\<lparr>lb_mapping := AList.update v v (lb_mapping b), lb_count := lb_count b + 1\<rparr>"
        using assms(2) None False by (auto simp: sanitize_def)
      have a: "admitted b' = insert v (admitted b)" by (auto simp: e admitted_def update_conv' split: if_splits)
      have "card (admitted b' - {lb_overflow b}) \<le> Suc (card (admitted b - {lb_overflow b}))"
        unfolding a by (simp add: insert_Diff_if card_insert_if finite_admitted)
      then show ?thesis
        using assms(1) False a by (auto simp: e labels_ok_def update_conv' distinct_update dom_update split: if_splits)
    qed
  qed
  then show "labels_ok b'" "lb_overflow b' = lb_overflow b" "l \<in> insert (lb_overflow b) (admitted b')"
    "fst ` set (lb_mapping b') = insert v (fst ` set (lb_mapping b))" "admitted b \<subseteq> admitted b'" by simp_all
qed

lemma sanitize_all_spec:
  assumes "labels_ok b" "sanitize_all vs b = (ls, b')"
  shows "labels_ok b' \<and> lb_overflow b' = lb_overflow b \<and> set ls \<subseteq> insert (lb_overflow b) (admitted b') \<and>
    fst ` set (lb_mapping b') = set vs \<union> fst ` set (lb_mapping b) \<and> admitted b \<subseteq> admitted b'"
  using assms
proof (induction vs arbitrary: b ls)
  case (Cons v vs)
  obtain l b1 ls1 where s: "sanitize v b = (l, b1)" "sanitize_all vs b1 = (ls1, b')" "ls = l # ls1"
    using Cons.prems(2) by (auto split: prod.splits)
  note st = sanitize_step [OF Cons.prems(1) s(1)]
  show ?case using Cons.IH [OF st(1) s(2)] st s(3) by auto
qed simp

text \<open>Labels are bounded, the memory behind them is not. Whatever values clients make the broker label, at most 4097
  different labels come out (4096 values and the overflow label), so the number of time series is bounded; but the
  map that decides it keeps an entry for every different value it was ever asked for.\<close>

theorem label_cardinality_bounded:
  assumes "sanitize_all vs newLabelBounded = (ls, b)"
  shows "card (set ls) \<le> maxUniqueLabels + 1 \<and> length (lb_mapping b) = card (set vs)"
proof -
  have n: "labels_ok newLabelBounded" by (simp add: labels_ok_def newLabelBounded_def admitted_def)
  note s = sanitize_all_spec [OF n assms]
  have "card (set ls) \<le> card (insert (lb_overflow b) (admitted b - {lb_overflow b}))"
    using s by (intro card_mono) (auto simp: finite_admitted)
  also have "\<dots> \<le> Suc (card (admitted b - {lb_overflow b}))" by (rule card_insert_le_m1) simp_all
  also have "\<dots> \<le> maxUniqueLabels + 1" using s unfolding labels_ok_def by linarith
  finally have "card (set ls) \<le> maxUniqueLabels + 1" .
  moreover have "length (lb_mapping b) = card (fst ` set (lb_mapping b))"
    using s distinct_card [of "map fst (lb_mapping b)"] by (simp add: labels_ok_def)
  ultimately show ?thesis using s by (simp add: newLabelBounded_def)
qed

theorem label_cardinality_bounded_witness:
  "card (set (fst (sanitize_all [[1], [2], [1]] newLabelBounded))) \<le> 4097 \<and>
   length (lb_mapping (snd (sanitize_all [[1], [2], [1]] newLabelBounded))) = 2"
proof -
  obtain ls b where s: "sanitize_all [[1], [2], [1]] newLabelBounded = (ls, b)" by fastforce
  have "set [[1], [2], [1 :: byte]] = {[1], [2]}" by auto
  then have "card (set [[1], [2], [1 :: byte]]) = 2" by simp
  then show ?thesis using label_cardinality_bounded [OF s] s by (simp add: maxUniqueLabels_def)
qed

end
