(* ===== verification/Startup.thy ===== *)
theory Startup
  imports Config Admin Gateway Mesh Compression Metrics
begin

text \<open>
  The program of \<^verbatim>\<open>cmd/broker\<close>: how the configuration becomes a running broker with its peers, its log, its access rules,
  its administration server and its gateway. The file system, the network and the key generator are parameters, and so
  are YAML and the Unicode tables. Every exit of the program is an error value.
\<close>

section \<open>The library functions\<close>

definition ToLower :: "(bytes \<Rightarrow> bytes) \<Rightarrow> bytes \<Rightarrow> bytes" where
  "ToLower uni s = (if \<forall>c\<in>set s. c < 128 then map lower_byte s else uni s)"

text \<open>\<open>base64.StdEncoding\<close>: line ends are skipped, padding is required, and bits that do not fill a byte are dropped.\<close>

definition base64_digit :: "byte \<Rightarrow> nat option" where
  "base64_digit c =
     (if 65 \<le> c \<and> c \<le> 90 then Some (unat c - 65)
      else if 97 \<le> c \<and> c \<le> 122 then Some (unat c - 71)
      else if 48 \<le> c \<and> c \<le> 57 then Some (unat c + 4)
      else if c = 43 then Some 62
      else if c = 47 then Some 63
      else None)"

fun base64_quads :: "bytes \<Rightarrow> bytes option" where
  "base64_quads [] = Some []"
| "base64_quads (a # b # c # d # rest) =
     (case (base64_digit a, base64_digit b, base64_digit c, base64_digit d) of
        (Some x, Some y, Some z, Some w) \<Rightarrow>
          map_option ((@) [of_nat (x * 4 + y div 16), of_nat (y mod 16 * 16 + z div 4), of_nat (z mod 4 * 64 + w)])
            (base64_quads rest)
      | (Some x, Some y, Some z, None) \<Rightarrow>
          if d = 61 \<and> rest = [] then Some [of_nat (x * 4 + y div 16), of_nat (y mod 16 * 16 + z div 4)] else None
      | (Some x, Some y, None, None) \<Rightarrow>
          if c = 61 \<and> d = 61 \<and> rest = [] then Some [of_nat (x * 4 + y div 16)] else None
      | _ \<Rightarrow> None)"
| "base64_quads _ = None"

definition DecodeString :: "bytes \<Rightarrow> bytes option" where
  "DecodeString s = base64_quads (filter (\<lambda>c. c \<noteq> 10 \<and> c \<noteq> 13) s)"

text \<open>\<open>net.SplitHostPort\<close>: the port after the last colon, unless the host is not a plain or a bracketed one.\<close>

definition SplitHostPort :: "bytes \<Rightarrow> (bytes \<times> bytes) option" where
  "SplitHostPort hostport =
     (if 58 \<notin> set hostport then None
      else let port = rev (takeWhile (\<lambda>c. c \<noteq> 58) (rev hostport));
               i = length hostport - length port - 1
           in if hd hostport = 91 then
                (if 93 \<notin> set hostport then None
                 else let e = length (takeWhile (\<lambda>c. c \<noteq> 93) hostport) in
                      if e + 1 \<noteq> i then None
                      else if 91 \<in> set (drop 1 hostport) \<or> 93 \<in> set (drop (e + 1) hostport) then None
                      else Some (take (e - 1) (drop 1 hostport), port))
              else let host = take i hostport in
                   if 58 \<in> set host \<or> 91 \<in> set hostport \<or> 93 \<in> set hostport then None
                   else Some (host, port))"

section \<open>Flags and certificates\<close>

record flags =
  fl_config :: bytes
  fl_cert :: bytes
  fl_key :: bytes
  fl_aal :: bytes
  fl_addr :: bytes
  fl_metricsAddr :: bytes

text \<open>What the surroundings answer. \<open>selfSigned\<close> says whether keys can be generated, \<open>adminListens\<close>, \<open>bound\<close> and
  \<open>gatewayBinds\<close> whether the sockets can be opened, \<open>openable\<close> whether the log can.\<close>

record main_sys =
  ms_env :: env_sys
  ms_readFile :: "bytes \<Rightarrow> bytes option"
  ms_unmarshal :: "bytes \<Rightarrow> Config \<Rightarrow> Config option"
  ms_validPEM :: "bytes \<Rightarrow> bool"
  ms_systemPool :: "bytes option"
  ms_keyPair :: "bytes \<Rightarrow> bytes \<Rightarrow> bool"
  ms_selfSigned :: bool
  ms_adminListens :: bool
  ms_openable :: bool
  ms_random :: bytes
  ms_fs :: fs

datatype exit_reason =
    ExitConfig config_error
  | ExitCertificate
  | ExitClientCA
  | ExitMetrics
  | ExitMeshCA
  | ExitKey
  | ExitLog aal_error
  | ExitAdmin
  | ExitListen
  | ExitGateway
  | ExitShutdown

definition override_flags :: "flags \<Rightarrow> Config \<Rightarrow> Config" where
  "override_flags fl cfg =
     (let cfg = (if fl_addr fl \<noteq> [] then cfg\<lparr>cfg_ListenAddr := fl_addr fl\<rparr> else cfg);
          cfg = (if fl_metricsAddr fl \<noteq> [] then cfg\<lparr>cfg_MetricsAddr := fl_metricsAddr fl\<rparr> else cfg);
          cfg = (if fl_cert fl \<noteq> [] then cfg\<lparr>cfg_TLS := (cfg_TLS cfg)\<lparr>tls_CertFile := fl_cert fl, tls_Generate := False\<rparr>\<rparr> else cfg);
          cfg = (if fl_key fl \<noteq> [] then cfg\<lparr>cfg_TLS := (cfg_TLS cfg)\<lparr>tls_KeyFile := fl_key fl, tls_Generate := False\<rparr>\<rparr> else cfg);
          cfg = (if fl_aal fl \<noteq> [] then cfg\<lparr>cfg_AAL := (cfg_AAL cfg)\<lparr>aal_Enabled := True, aal_FilePath := fl_aal fl\<rparr>\<rparr> else cfg)
      in cfg)"

definition generateSelfSignedTLS :: "main_sys \<Rightarrow> tls_conf option" where
  "generateSelfSignedTLS ms =
     (if \<not> ms_selfSigned ms then None
      else Some (empty_tls\<lparr>tc_Certificates := [SelfSigned], tc_NextProtos := [str ''aqueduct-v1''], tc_MinVersion := VersionTLS13\<rparr>))"

text \<open>A pool of authorities from a file.\<close>

definition load_pool :: "main_sys \<Rightarrow> bytes \<Rightarrow> bytes option" where
  "load_pool ms path =
     (case ms_readFile ms path of
        None \<Rightarrow> None
      | Some caPEM \<Rightarrow> if ms_validPEM ms caPEM then Some caPEM else None)"

definition server_certificate :: "main_sys \<Rightarrow> TLSConfig \<Rightarrow> tls_conf option" where
  "server_certificate ms t =
     (if \<not> tls_Generate t \<and> tls_CertFile t \<noteq> [] \<and> tls_KeyFile t \<noteq> [] then
        (if ms_keyPair ms (tls_CertFile t) (tls_KeyFile t)
         then Some (empty_tls\<lparr>tc_Certificates := [KeyPair (tls_CertFile t) (tls_KeyFile t)],
                              tc_NextProtos := [str ''aqueduct-v1''], tc_MinVersion := VersionTLS13\<rparr>)
         else None)
      else generateSelfSignedTLS ms)"

definition server_tls :: "main_sys \<Rightarrow> TLSConfig \<Rightarrow> (exit_reason, tls_conf) res" where
  "server_tls ms t =
     (case server_certificate ms t of
        None \<Rightarrow> Err ExitCertificate
      | Some tlsConf \<Rightarrow>
          if tls_RequireClientCert t then
            let tlsConf = tlsConf\<lparr>tc_RequireClientCert := True\<rparr> in
            if tls_ClientCAFile t \<noteq> [] then
              (case load_pool ms (tls_ClientCAFile t) of
                 None \<Rightarrow> Err ExitClientCA
               | Some caPool \<Rightarrow> Ok (tlsConf\<lparr>tc_ClientCAs := Some caPool\<rparr>))
            else Ok tlsConf
          else Ok tlsConf)"

section \<open>Peers\<close>

definition peer_tls :: "main_sys \<Rightarrow> MeshConfig \<Rightarrow> (exit_reason, tls_conf) res" where
  "peer_tls ms m =
     (let peerTLS = empty_tls\<lparr>tc_InsecureSkipVerify := mesh_InsecureSkipVerify m, tc_NextProtos := [str ''aqueduct-mesh'']\<rparr> in
      if mesh_InsecureSkipVerify m then Ok peerTLS
      else if mesh_CAFile m \<noteq> [] then
        (case load_pool ms (mesh_CAFile m) of
           None \<Rightarrow> Err ExitMeshCA
         | Some caPool \<Rightarrow> Ok (peerTLS\<lparr>tc_RootCAs := Some caPool\<rparr>))
      else Ok (peerTLS\<lparr>tc_RootCAs := Some (case ms_systemPool ms of None \<Rightarrow> [] | Some p \<Rightarrow> p)\<rparr>))"

definition discovery_port :: "bytes \<Rightarrow> bytes \<Rightarrow> bytes" where
  "discovery_port port listenAddr =
     (if port = [] then
        (case SplitHostPort listenAddr of
           Some (_, p) \<Rightarrow> if p \<noteq> [] then p else str ''4242''
         | None \<Rightarrow> str ''4242'')
      else port)"

definition start_discovery :: "main_sys \<Rightarrow> Config \<Rightarrow> Discovery option" where
  "start_discovery ms cfg =
     (let d = cl_Discovery (cfg_Cluster cfg) in
      if cd_Enabled d \<and> cd_Host d \<noteq> [] then
        let discInterval = (case es_parseDuration (ms_env ms) (cd_Interval d) of
              Some i \<Rightarrow> if i \<le> 0 then 10 * 1000000000 else i
            | None \<Rightarrow> 10 * 1000000000)
        in Some (NewDiscovery \<lparr>dc_Enabled = True, dc_Host = cd_Host d,
                   dc_Port = discovery_port (cd_Port d) (cfg_ListenAddr cfg), dc_Interval = discInterval\<rparr>)
      else None)"

text \<open>The manager of the peers, if peers are configured, with the TLS configuration it dials with.\<close>

definition start_cluster :: "main_sys \<Rightarrow> Config \<Rightarrow> (exit_reason, (PeerManager \<times> tls_conf) option) res" where
  "start_cluster ms cfg =
     (if length (cl_Peers (cfg_Cluster cfg)) > 0 \<or> cd_Enabled (cl_Discovery (cfg_Cluster cfg))
      then rbind (peer_tls ms (cl_Mesh (cfg_Cluster cfg)))
             (\<lambda>peerTLS. Ok (Some (NewWithLogger (cl_Peers (cfg_Cluster cfg)), peerTLS)))
      else Ok None)"

section \<open>The log, the router and the access rules\<close>

definition decode_key :: "bytes \<Rightarrow> bytes option" where
  "decode_key key =
     (case DecodeString key of
        Some keyBytes \<Rightarrow> if length keyBytes = 32 then Some keyBytes else if length key = 32 then Some key else None
      | None \<Rightarrow> if length key = 32 then Some key else None)"

definition router_key :: "AALConfig \<Rightarrow> bytes" where
  "router_key a =
     (if aal_Enabled a \<and> aal_Key a \<noteq> [] then (case decode_key (aal_Key a) of Some k \<Rightarrow> k | None \<Rightarrow> []) else [])"

definition router_options :: "main_sys \<Rightarrow> Config \<Rightarrow> PeerManager option \<Rightarrow> router_option list" where
  "router_options ms cfg pm =
     [OptQueueSize (bk_QueueSize (cfg_Broker cfg)),
      OptPolicy (ParseBackpressurePolicy (es_lower (ms_env ms)) (bk_BackpressurePolicy (cfg_Broker cfg))),
      OptAALPath (aal_FilePath (cfg_AAL cfg)) (router_key (cfg_AAL cfg)),
      OptBatchSize (bk_BatchSize (cfg_Broker cfg)),
      OptFlushInterval (bk_FlushInterval (cfg_Broker cfg))] @
     (case pm of None \<Rightarrow> [] | Some pm \<Rightarrow> [OptPeers (Some (ActivePeers pm))])"

definition QuotaManager :: "Router \<Rightarrow> Manager option" where
  "QuotaManager r = r_quotaManager r"

definition rule_permission :: "(bytes \<Rightarrow> bytes) \<Rightarrow> bytes \<Rightarrow> Permission" where
  "rule_permission uni p =
     (let t = ToLower uni p in
      if t = str ''publish'' then PermPublish
      else if t = str ''subscribe'' then PermSubscribe
      else if t = str ''all'' then PermAll
      else 0)"

definition start_authz :: "(bytes \<Rightarrow> bytes) \<Rightarrow> ACLConfig \<Rightarrow> Engine option" where
  "start_authz uni a =
     (if acl_Enabled a then
        let defaultPerm = (if ToLower uni (acl_Default a) = str ''all'' then PermAll else PermNone);
            builder = fold (\<lambda>r b. Allow b (acr_Client r) (acr_Topic r) (rule_permission uni (acr_Permission r)))
                        (acl_Rules a) (NewBuilder defaultPerm)
        in Some (Build builder)
      else None)"

text \<open>The options of the log and the file system after it is opened.\<close>

definition start_log :: "main_sys \<Rightarrow> AALConfig \<Rightarrow> (exit_reason, (Broker \<Rightarrow> Broker) list \<times> fs) res" where
  "start_log ms a =
     (if aal_Enabled a \<and> aal_FilePath a \<noteq> [] then
        rbind (if aal_Key a \<noteq> [] then (case decode_key (aal_Key a) of Some k \<Rightarrow> Ok k | None \<Rightarrow> Err ExitKey) else Ok [])
          (\<lambda>aalKey2.
             case OpenEncrypted (ms_openable ms) (ms_random ms) (ms_fs ms) (aal_FilePath a) aalKey2 of
               (Ok aalLog, fs) \<Rightarrow> Ok ([WithAAL (Some aalLog), WithAALReplay (aal_FilePath a) aalKey2], fs)
             | (Err e, _) \<Rightarrow> Err (ExitLog e)
             | (Panic, _) \<Rightarrow> Panic)
      else Ok ([], ms_fs ms))"

section \<open>The program\<close>

text \<open>A running broker. The administration server is there until it is stopped.\<close>

record process =
  pr_cfg :: Config
  pr_tls :: tls_conf
  pr_peers :: "(PeerManager \<times> tls_conf) option"
  pr_discovery :: "Discovery option"
  pr_broker :: Broker
  pr_admin :: "Server option"
  pr_adminTLS :: "tls_conf option"
  pr_gateway :: "Gateway option"

definition start_admin :: "main_sys \<Rightarrow> Config \<Rightarrow> tls_conf \<Rightarrow> Router \<Rightarrow> Engine option \<Rightarrow> Broker \<Rightarrow>
    (exit_reason, Broker \<times> Server option \<times> tls_conf option) res" where
  "start_admin ms cfg tlsConf router authzEngine b =
     (if adm_Enabled (cfg_Admin cfg) then
        let (authzEngine, b) = (case authzEngine of
              None \<Rightarrow> let e = Some (NewEngine None PermAll) in (e, SetAuthzEngine e b)
            | Some e \<Rightarrow> (Some e, b));
            adminServer = NewServer (QuotaManager router) authzEngine []
        in if ms_adminListens ms then Ok (b, Some adminServer, Start_tls adminServer (Some tlsConf)) else Err ExitAdmin
      else Ok (b, None, None))"

text \<open>The handlers of the program only log.\<close>

definition log_handler :: handler where "log_handler frame = Some None"

definition new_broker :: "Config \<Rightarrow> Router \<Rightarrow> Engine option \<Rightarrow> (Broker \<Rightarrow> Broker) list \<Rightarrow> fs \<Rightarrow> Broker" where
  "new_broker cfg router authzEngine logOpts files =
     (let opts = [WithRouter (Some router), WithMaxBufSize (tr_MaxBufSize (cfg_Transport cfg)),
                  WithReadBufSize (tr_ReadBufSize (cfg_Transport cfg))];
          opts = opts @ (case authzEngine of None \<Rightarrow> [] | Some e \<Rightarrow> [WithAuthz (Some e)]);
          b = Transport.New files (opts @ logOpts);
          b = Handle CmdPublish log_handler b
      in Handle CmdSubscribe log_handler b)"

definition configure :: "main_sys \<Rightarrow> flags \<Rightarrow> (exit_reason, process) res" where
  "configure ms fl =
     (case Load (ms_env ms) (ms_readFile ms) (ms_unmarshal ms) (fl_config fl) of
        Err e \<Rightarrow> Err (ExitConfig e)
      | Panic \<Rightarrow> Panic
      | Ok cfg \<Rightarrow>
          let cfg = override_flags fl cfg in
          rbind (server_tls ms (cfg_TLS cfg)) (\<lambda>tlsConf.
          if StartServer (cfg_MetricsAddr cfg) \<noteq> None then Err ExitMetrics
          else rbind (start_cluster ms cfg) (\<lambda>cluster.
          let router = NewRouter True (router_options ms cfg (map_option fst cluster));
              authzEngine = start_authz (es_lower (ms_env ms)) (cfg_ACL cfg)
          in rbind (start_log ms (cfg_AAL cfg)) (\<lambda>(logOpts, files).
          let b = new_broker cfg router authzEngine logOpts files
          in rbind (start_admin ms cfg tlsConf router authzEngine b) (\<lambda>(b, adminServer, adminTLS).
          Ok \<lparr>pr_cfg = cfg, pr_tls = tlsConf, pr_peers = cluster,
              pr_discovery = (if cluster = None then None else start_discovery ms cfg),
              pr_broker = b, pr_admin = adminServer, pr_adminTLS = adminTLS, pr_gateway = None\<rparr>)))))"

definition webtransport_tls :: "tls_conf \<Rightarrow> tls_conf" where
  "webtransport_tls tlsConf =
     (let foundH3 = list_ex (\<lambda>p. p = str ''h3'') (tc_NextProtos tlsConf)
      in if \<not> foundH3 then tlsConf\<lparr>tc_NextProtos := tc_NextProtos tlsConf @ [str ''h3'']\<rparr> else tlsConf)"

text \<open>\<open>h3\<close> is \<open>http3.ConfigureTLSConfig\<close>, \<open>gwListen\<close> the address the gateway binds.\<close>

definition start_gateway :: "(tls_conf \<Rightarrow> tls_conf) \<Rightarrow> bytes option \<Rightarrow> process \<Rightarrow> (exit_reason, process) res" where
  "start_gateway h3 gwListen p =
     (let wt = cfg_WebTransport (pr_cfg p) in
      if wt_Enabled wt then
        let webTransportTLS = webtransport_tls (pr_tls p);
            wtOpts = [WithBroker True] @ (if wt_PathPrefix wt \<noteq> [] then [WithPathPrefix (wt_PathPrefix wt)] else [])
        in case NewGateway wtOpts of
             None \<Rightarrow> Err ExitGateway
           | Some gw \<Rightarrow>
               (case ListenAndServe h3 gwListen (Some webTransportTLS) gw of
                  (False, _) \<Rightarrow> Err ExitGateway
                | (True, gw) \<Rightarrow> Ok (p\<lparr>pr_gateway := Some gw\<rparr>))
      else Ok p)"

text \<open>The rest of the start; \<open>None\<close> is a replay that does not end.\<close>

definition serve :: "te_sys \<Rightarrow> bool \<Rightarrow> nat list \<Rightarrow> bool \<Rightarrow> (tls_conf \<Rightarrow> tls_conf) \<Rightarrow> bytes option \<Rightarrow> process \<Rightarrow>
    (exit_reason, process) res option" where
  "serve te openable rs bound h3 gwListen p =
     map_option (\<lambda>(ok, b). if \<not> ok then Err ExitListen else start_gateway h3 gwListen (p\<lparr>pr_broker := b\<rparr>))
       (Listen te openable rs bound (pr_broker p))"

text \<open>The end after a signal. \<open>cancels\<close> enumerates the loops of the peers.\<close>

definition shutdown :: "'e option \<Rightarrow> bool \<Rightarrow> 'e \<Rightarrow> nat list \<Rightarrow> process \<Rightarrow> (exit_reason, process) res" where
  "shutdown listenerErr drained ctxErr cancels p =
     (let p = p\<lparr>pr_admin := None, pr_gateway := map_option Gateway_Close (pr_gateway p)\<rparr> in
      case Shutdown listenerErr drained ctxErr (pr_broker p) of
        (Some e, b) \<Rightarrow> Err ExitShutdown
      | (None, b) \<Rightarrow>
          Ok (p\<lparr>pr_broker := b, pr_peers := map_option (map_prod (PeerManager_Close cancels) id) (pr_peers p)\<rparr>))"

text \<open>The administration server works on the engine of the broker and on the quotas of its router.\<close>

definition admin_call :: "caller \<Rightarrow> (Server \<Rightarrow> (admin_status, 'a) res \<times> Server) \<Rightarrow> process \<Rightarrow>
    ((admin_status, 'a) res \<times> process) option" where
  "admin_call c call p =
     (case pr_admin p of
        None \<Rightarrow> None
      | Some s \<Rightarrow>
          let s = s\<lparr>sv_authzEngine := AuthzEngine (pr_broker p),
                    sv_quotaManager := Option.bind (br_router (pr_broker p)) QuotaManager\<rparr>
          in case adminAuthInterceptor c call s of (res, s) \<Rightarrow>
               Some (res, p\<lparr>pr_admin := Some s,
                 pr_broker := with_router (WithQuotas (sv_quotaManager s)) (SetAuthzEngine (sv_authzEngine s) (pr_broker p))\<rparr>))"

section \<open>Metrics of the program\<close>

text \<open>The counters by label, each from the first use of the label on.\<close>

record prometheusMetrics =
  pc_published :: "bytes \<Rightarrow> nat option"
  pc_delivered :: "bytes \<Rightarrow> nat option"
  pc_rateLimited :: "bytes \<Rightarrow> nat option"
  pc_activeSubscribers :: nat

definition inc :: "bytes \<Rightarrow> (bytes \<Rightarrow> nat option) \<Rightarrow> bytes \<Rightarrow> nat option" where
  "inc l m = m(l \<mapsto> Suc (case m l of None \<Rightarrow> 0 | Some n \<Rightarrow> n))"

definition OnPublish :: "bytes \<Rightarrow> prometheusMetrics \<Rightarrow> prometheusMetrics" where
  "OnPublish topic m = m\<lparr>pc_published := inc topic (pc_published m)\<rparr>"

definition OnDeliver :: "bytes \<Rightarrow> prometheusMetrics \<Rightarrow> prometheusMetrics" where
  "OnDeliver topic m = m\<lparr>pc_delivered := inc topic (pc_delivered m)\<rparr>"

definition SetActiveSubscribers :: "nat \<Rightarrow> prometheusMetrics \<Rightarrow> prometheusMetrics" where
  "SetActiveSubscribers n m = m\<lparr>pc_activeSubscribers := n\<rparr>"

definition OnRateLimited :: "bytes \<Rightarrow> prometheusMetrics \<Rightarrow> prometheusMetrics" where
  "OnRateLimited clientID m = m\<lparr>pc_rateLimited := inc clientID (pc_rateLimited m)\<rparr>"

section \<open>What the start sets up\<close>

lemma configure_parts:
  assumes "configure ms fl = Ok p"
  obtains cfg0 cluster logOpts files adminServer where
    "Load (ms_env ms) (ms_readFile ms) (ms_unmarshal ms) (fl_config fl) = Ok cfg0" "pr_cfg p = override_flags fl cfg0"
    "server_tls ms (cfg_TLS (pr_cfg p)) = Ok (pr_tls p)" "start_cluster ms (pr_cfg p) = Ok (pr_peers p)"
    "start_log ms (cfg_AAL (pr_cfg p)) = Ok (logOpts, files)"
    "start_admin ms (pr_cfg p) (pr_tls p) (NewRouter True (router_options ms (pr_cfg p) (map_option fst (pr_peers p))))
       (start_authz (es_lower (ms_env ms)) (cfg_ACL (pr_cfg p)))
       (new_broker (pr_cfg p) (NewRouter True (router_options ms (pr_cfg p) (map_option fst (pr_peers p))))
          (start_authz (es_lower (ms_env ms)) (cfg_ACL (pr_cfg p))) logOpts files) =
     Ok (pr_broker p, pr_admin p, pr_adminTLS p)"
  using assms
  by (auto simp: configure_def Let_def rbind_eq_Ok split: res.splits if_splits prod.splits)

lemma start_admin_fields:
  assumes "start_admin ms cfg t router e b = Ok (b', adminServer, adminTLS)"
  shows "br_router b' = br_router b" "br_aal b' = br_aal b" "br_aalPath b' = br_aalPath b" "br_aalKey b' = br_aalKey b"
    "br_authz b' = (if e = None \<and> adm_Enabled (cfg_Admin cfg) then Some (NewEngine None PermAll) else br_authz b)"
  using assms by (auto simp: start_admin_def SetAuthzEngine_def Let_def split: if_splits option.splits)

lemma new_broker_fields:
  assumes "start_log ms a = Ok (logOpts, files)"
  shows "br_router (new_broker cfg r e logOpts files) = Some r" "br_authz (new_broker cfg r e logOpts files) = e"
  using assms
  by (auto simp: start_log_def rbind_eq_Ok new_broker_def Transport.New_def Handle_def WithRouter_def WithMaxBufSize_def
      WithReadBufSize_def WithAuthz_def WithAAL_def WithAALReplay_def Let_def split: if_splits option.splits prod.splits res.splits)

lemma configure_router:
  assumes "configure ms fl = Ok p"
  shows "br_router (pr_broker p) = Some (NewRouter True (router_options ms (pr_cfg p) (map_option fst (pr_peers p))))"
  using assms by (elim configure_parts) (simp add: start_admin_fields new_broker_fields)

lemma router_options_fields:
  "r_aalPath (NewRouter m (router_options ms cfg pm)) = aal_FilePath (cfg_AAL cfg)"
  "r_aalKey (NewRouter m (router_options ms cfg pm)) = router_key (cfg_AAL cfg)"
  "r_quotaManager (NewRouter m (router_options ms cfg pm)) = None"
  by (simp_all add: NewRouter_def router_options_def empty_router_def WithQueueSize_def WithBackpressurePolicy_def
      WithAALPath_def WithBatchSize_def WithFlushInterval_def WithPeerForwarder_def split: option.split)

section \<open>The key of the log\<close>

lemma decode_key_length: "decode_key k = Some x \<Longrightarrow> length x = 32"
  by (auto simp: decode_key_def split: option.splits if_splits)

lemma start_log_opened:
  assumes "start_log ms a = Ok (logOpts, files)" "aal_Enabled a" "aal_FilePath a \<noteq> []"
  obtains l where "logOpts = [WithAAL (Some l), WithAALReplay (aal_FilePath a) (router_key a)]"
    "l_file l = Some (aal_FilePath a)" "l_aead l = (if aal_Key a = [] then None else Some (router_key a))"
    "aal_Key a \<noteq> [] \<longrightarrow> length (router_key a) = 32"
proof -
  define key where "key = router_key a"
  obtain l where o: "OpenEncrypted (ms_openable ms) (ms_random ms) (ms_fs ms) (aal_FilePath a) key = (Ok l, files)"
      "logOpts = [WithAAL (Some l), WithAALReplay (aal_FilePath a) key]"
    and k: "if aal_Key a = [] then key = [] else length key = 32"
    using assms
    by (auto simp: start_log_def key_def router_key_def rbind_eq_Ok dest: decode_key_length
        split: if_splits option.splits prod.splits res.splits)
  have "l_file l = Some (aal_FilePath a) \<and> l_aead l = (if aal_Key a = [] then None else Some key)"
    using o(1) k by (auto simp: OpenEncrypted_def Let_def split: if_splits)
  then show ?thesis using that [of l] o(2) k unfolding key_def by (auto split: if_splits)
qed

text \<open>C21: One key for the log. When the program starts with an enabled log, the log is open at the configured path, and
  the key it is written with, the key it is replayed with and the key the router uses for late subscribers are the same.
  With a key in the configuration this is a key of 32 bytes, decoded or raw: a key that is neither makes the program
  exit, and never a log in plain text.\<close>

theorem configured_log_has_one_key:
  assumes "configure ms fl = Ok p" "a = cfg_AAL (pr_cfg p)" "aal_Enabled a" "aal_FilePath a \<noteq> []"
  shows "\<exists>l r. br_aal (pr_broker p) = Some l \<and> br_router (pr_broker p) = Some r \<and> l_file l = Some (aal_FilePath a) \<and>
    br_aalPath (pr_broker p) = aal_FilePath a \<and> r_aalPath r = aal_FilePath a \<and>
    (if aal_Key a = [] then l_aead l = None \<and> br_aalKey (pr_broker p) = [] \<and> r_aalKey r = []
     else \<exists>key. length key = 32 \<and> l_aead l = Some key \<and> br_aalKey (pr_broker p) = key \<and> r_aalKey r = key)"
  using assms(1)
proof (elim configure_parts)
  fix logOpts files
  assume l: "start_log ms (cfg_AAL (pr_cfg p)) = Ok (logOpts, files)"
    and adm: "start_admin ms (pr_cfg p) (pr_tls p) (NewRouter True (router_options ms (pr_cfg p) (map_option fst (pr_peers p))))
       (start_authz (es_lower (ms_env ms)) (cfg_ACL (pr_cfg p)))
       (new_broker (pr_cfg p) (NewRouter True (router_options ms (pr_cfg p) (map_option fst (pr_peers p))))
          (start_authz (es_lower (ms_env ms)) (cfg_ACL (pr_cfg p))) logOpts files) =
     Ok (pr_broker p, pr_admin p, pr_adminTLS p)"
  obtain log where log: "logOpts = [WithAAL (Some log), WithAALReplay (aal_FilePath a) (router_key a)]"
    "l_file log = Some (aal_FilePath a)" "l_aead log = (if aal_Key a = [] then None else Some (router_key a))"
    "aal_Key a \<noteq> [] \<longrightarrow> length (router_key a) = 32"
    using start_log_opened [OF l [folded assms(2)] assms(3,4)] .
  have "br_aal (new_broker cfg r e logOpts files) = Some log"
    "br_aalPath (new_broker cfg r e logOpts files) = aal_FilePath a" "br_aalKey (new_broker cfg r e logOpts files) = router_key a" for cfg r e
    unfolding log(1)
    by (simp_all add: new_broker_def Transport.New_def Handle_def WithRouter_def WithMaxBufSize_def WithReadBufSize_def
        WithAuthz_def WithAAL_def WithAALReplay_def Let_def split: option.split)
  then show ?thesis
    using start_admin_fields(2-4) [OF adm] configure_router [OF assms(1)] log(2-4) router_options_fields(1,2) [of True ms "pr_cfg p"]
    unfolding assms(2) [symmetric] by (auto simp: router_key_def [of a] split: if_splits)
qed

section \<open>Access rules\<close>

abbreviation configured_grants :: "(bytes \<Rightarrow> bytes) \<Rightarrow> ACLConfig \<Rightarrow> grant list" where
  "configured_grants uni a \<equiv> map (\<lambda>r. (acr_Client r, acr_Topic r, rule_permission uni (acr_Permission r))) (acl_Rules a)"

lemma start_authz_build:
  "acl_Enabled a \<Longrightarrow> start_authz uni a = Some (Build (build_all (configured_grants uni a)
     (if ToLower uni (acl_Default a) = str ''all'' then PermAll else PermNone)))"
  by (simp add: start_authz_def build_all_def fold_map comp_def)

lemma configure_authz:
  assumes "configure ms fl = Ok p"
  shows "br_authz (pr_broker p) =
    (if acl_Enabled (cfg_ACL (pr_cfg p)) then start_authz (es_lower (ms_env ms)) (cfg_ACL (pr_cfg p))
     else if adm_Enabled (cfg_Admin (pr_cfg p)) then Some (NewEngine None PermAll) else None)"
  using assms
  by (elim configure_parts) (auto simp: start_admin_fields new_broker_fields start_authz_def Let_def)


section \<open>Quotas\<close>

text \<open>The administration interface cannot set a quota. The program never gives the router a quota manager, so that a
  call for a client of its choice by an administrator is answered with success while nothing in the broker changes, and
  no publisher is ever held back.\<close>

theorem quota_calls_change_nothing:
  assumes "configure ms fl = Ok p" "admin_call c (SetClientQuota clientId rt) p = Some (res, p')"
  shows "pr_broker p' = pr_broker p \<and> Option.bind (br_router (pr_broker p')) QuotaManager = None \<and>
    (\<forall>s. pr_admin p = Some s \<longrightarrow> is_admin s c \<longrightarrow> clientId \<noteq> [] \<longrightarrow> res = Ok True) \<and>
    fst (Manager_TryAcquire (Option.bind (br_router (pr_broker p')) QuotaManager) publisher)"
proof -
  obtain r where r: "br_router (pr_broker p) = Some r" "r_quotaManager r = None"
    using configure_router [OF assms(1)] router_options_fields(3) by simp
  have same: "with_router (WithQuotas None) (SetAuthzEngine (AuthzEngine (pr_broker p)) (pr_broker p)) = pr_broker p"
    using r by (simp add: with_router_def WithQuotas_def SetAuthzEngine_def AuthzEngine_def)
  obtain s where s: "pr_admin p = Some s" using assms(2) by (auto simp: admin_call_def split: option.splits)
  show ?thesis
    using assms(2) same r s
    by (auto simp: admin_call_def interceptor_cases SetClientQuota_def count_request_def QuotaManager_def is_admin_def
        admin_allowed_def Manager_TryAcquire_def Let_def split: if_splits prod.splits)
qed

section \<open>The mesh\<close>

text \<open>A dial gets past the handshake only when the two sides agree on a protocol. Here the other side is a broker started
  by the same program, with any configuration of its own.\<close>

definition dial_possible :: "tls_conf \<Rightarrow> loop_event \<Rightarrow> bool" where
  "dial_possible peerTLS ev \<longleftrightarrow> (ev = OpenFailed \<or> (\<exists>s. ev = Opened s) \<longrightarrow>
     (\<exists>ms fl q. configure ms fl = Ok q \<and> negotiateALPN (tc_NextProtos (pr_tls q)) (tc_NextProtos peerTLS) \<noteq> None))"

datatype manager_step = StepAdd bytes | StepRemove bytes | StepLoop nat loop_event

fun run_step :: "manager_step \<Rightarrow> PeerManager \<Rightarrow> PeerManager" where
  "run_step (StepAdd a) pm = AddPeer a pm"
| "run_step (StepRemove a) pm = RemovePeer a pm"
| "run_step (StepLoop i ev) pm = (if i < length (pm_refs pm) then reconnectLoop i ev pm else pm)"

lemma server_tls_protocols: "server_tls ms t = Ok tc \<Longrightarrow> tc_NextProtos tc = [str ''aqueduct-v1'']"
  by (auto simp: server_tls_def server_certificate_def generateSelfSignedTLS_def Let_def split: option.splits if_splits)

lemma peer_tls_protocols: "peer_tls ms m = Ok tc \<Longrightarrow> tc_NextProtos tc = [str ''aqueduct-mesh'']"
  by (auto simp: peer_tls_def Let_def split: option.splits if_splits)

lemma mesh_protocols_differ:
  assumes "configure ms fl = Ok q" "tc_NextProtos peerTLS = [str ''aqueduct-mesh'']"
  shows "negotiateALPN (tc_NextProtos (pr_tls q)) (tc_NextProtos peerTLS) = None"
proof -
  have "str ''aqueduct-v1'' \<noteq> str ''aqueduct-mesh''" by code_simp
  moreover have "tc_NextProtos (pr_tls q) = [str ''aqueduct-v1'']"
    using assms(1) by (elim configure_parts) (simp add: server_tls_protocols)
  ultimately show ?thesis using assms(2) by (simp add: negotiateALPN_def)
qed

definition idle :: "PeerManager \<Rightarrow> bool" where
  "idle pm \<longleftrightarrow> pm_written pm = [] \<and> list_all (\<lambda>p. p_stream p = None \<and> p_loop p \<noteq> Streaming) (pm_refs pm) \<and>
     (\<forall>i\<in>set (pm_peers pm). i < length (pm_refs pm))"

lemma idle_update:
  "idle pm \<Longrightarrow> (\<And>p. p_stream p = None \<Longrightarrow> p_loop p \<noteq> Streaming \<Longrightarrow> p_stream (f p) = None \<and> p_loop (f p) \<noteq> Streaming) \<Longrightarrow>
    idle (update_ref i f pm)"
  by (cases "i < length (pm_refs pm)")
    (auto simp: idle_def update_ref_def list_all_length nth_list_update list_update_beyond)

lemma idle_add: "idle pm \<Longrightarrow> idle (AddPeer a pm)"
  by (auto simp: idle_def AddPeer_def start_peer_def swapPeers_def Let_def less_Suc_eq)

lemma idle_close_stream: "idle pm \<Longrightarrow> i < length (pm_refs pm) \<Longrightarrow> close_stream i pm = pm"
  by (simp add: idle_def close_stream_def list_all_length)

lemma idle_without_peer:
  "idle pm \<Longrightarrow> (\<forall>i\<in>set old. i < length (pm_refs pm)) \<Longrightarrow>
    snd (without_peer a old pm) = pm \<and> set (fst (without_peer a old pm)) \<subseteq> set old"
  by (induction old) (auto simp: idle_close_stream split: prod.splits)

lemma idle_remove: assumes "idle pm" shows "idle (RemovePeer a pm)"
proof (cases "pm_addrSet pm a")
  case (Some i)
  define pm1 where "pm1 = (cancel_loop i pm)\<lparr>pm_addrSet := (pm_addrSet pm)(a := None)\<rparr>"
  have "idle (cancel_loop i pm)" unfolding cancel_loop_def using assms by (rule idle_update) simp
  then have i: "idle pm1" by (simp add: pm1_def idle_def)
  then have "idle (swapPeers (without_peer a) pm1)"
    using idle_without_peer [OF i, of "pm_peers pm1" a] by (auto simp: swapPeers_def idle_def Let_def split: prod.splits)
  then show ?thesis by (simp add: RemovePeer_def Some pm1_def Let_def cancel_loop_def)
qed (simp add: RemovePeer_def assms)

lemma idle_loop:
  assumes "idle pm" "i < length (pm_refs pm)" "\<not> (ev = OpenFailed \<or> (\<exists>s. ev = Opened s))"
  shows "idle (reconnectLoop i ev pm)"
proof -
  have g: "idle (goto i pc pm')" if "idle pm'" "pc \<noteq> Streaming" for pc pm'
    unfolding goto_def using that(1) by (rule idle_update) (simp add: that(2))
  have b: "idle (set_backoff i d pm')" if "idle pm'" for d pm'
    unfolding set_backoff_def using that by (rule idle_update) simp
  have "p_loop (pm_refs pm ! i) \<noteq> Streaming" using assms(1,2) by (simp add: idle_def list_all_length)
  then show ?thesis
    using assms(1,3) by (cases ev) (auto simp: reconnectLoop_def end_wait_def g b Let_def split: loop_state.splits prod.splits bool.splits)
qed

lemma idle_New: "idle (NewWithLogger addrs)"
proof -
  have "idle pm \<Longrightarrow> start_peers as pm = (refs, pm') \<Longrightarrow>
      idle pm' \<and> (\<forall>i\<in>set refs. i < length (pm_refs pm')) \<and> length (pm_refs pm) \<le> length (pm_refs pm')" for as refs pm pm'
  proof (induction as arbitrary: pm refs)
    case (Cons a as)
    obtain i pm1 refs1 where s: "start_peer a pm = (i, pm1)" "start_peers as pm1 = (refs1, pm')" "refs = i # refs1"
      using Cons.prems(2) by (auto split: prod.splits)
    have "idle pm1 \<and> i < length (pm_refs pm1) \<and> length (pm_refs pm) \<le> length (pm_refs pm1)"
      using s(1) Cons.prems(1) by (auto simp: start_peer_def idle_def Let_def less_Suc_eq)
    then show ?case using Cons.IH [of pm1 refs1] s(2,3) by auto
  qed simp
  note start = this
  obtain refs pm' where s: "start_peers addrs empty_manager = (refs, pm')" by fastforce
  have "idle empty_manager" by (simp add: idle_def empty_manager_def)
  from start [OF this s] show ?thesis by (simp add: NewWithLogger_def s idle_def)
qed

text \<open>C36: Brokers started by the program never form a mesh. The manager dials with a protocol that no broker of the program
  offers, so every dial fails: however the operator and the discovery change the peers and however the reconnect loops
  run, no peer is ever active, and forwarding a frame writes nothing.\<close>

theorem mesh_never_connects:
  assumes "configure ms fl = Ok p" "pr_peers p = Some (pm, peerTLS)"
    and "\<forall>i ev. StepLoop i ev \<in> set steps \<longrightarrow> dial_possible peerTLS ev"
  shows "ActivePeers (fold run_step steps pm) = 0 \<and> pm_written (snd (Forward_peers ok buf fwd (fold run_step steps pm))) = []"
proof -
  have "start_cluster ms (pr_cfg p) = Ok (Some (pm, peerTLS))"
    using assms(1,2) by (elim configure_parts) simp
  then have pm: "pm = NewWithLogger (cl_Peers (cfg_Cluster (pr_cfg p)))" "tc_NextProtos peerTLS = [str ''aqueduct-mesh'']"
    by (auto simp: start_cluster_def rbind_eq_Ok peer_tls_protocols split: if_splits)
  have no: "\<not> (ev = OpenFailed \<or> (\<exists>s. ev = Opened s))" if d: "dial_possible peerTLS ev" for ev
  proof
    assume "ev = OpenFailed \<or> (\<exists>s. ev = Opened s)"
    then obtain ms' fl' q where "configure ms' fl' = Ok q" "negotiateALPN (tc_NextProtos (pr_tls q)) (tc_NextProtos peerTLS) \<noteq> None"
      using d by (auto simp: dial_possible_def)
    then show False using mesh_protocols_differ [of ms' fl' q peerTLS] pm(2) by simp
  qed
  have "idle (fold run_step steps pm)"
    using assms(3) idle_New [of "cl_Peers (cfg_Cluster (pr_cfg p))"] unfolding pm(1) [symmetric]
  proof (induction steps arbitrary: pm)
    case (Cons st steps)
    have "idle (run_step st pm)" using Cons.prems no by (cases st) (auto simp: idle_add idle_remove idle_loop)
    then show ?case using Cons.IH Cons.prems(1) by simp
  qed simp
  then show ?thesis
    by (auto simp: idle_def ActivePeers_def Forward_eq receivers_def list_all_length filter_empty_conv)
qed

section \<open>Runs of the program\<close>

text \<open>Runs: the start, listening with its replay, the streams of clients, the writers, the calls of administrators,
  changes in the number of active peers, and the shutdown.\<close>

inductive main_reach :: "main_sys \<Rightarrow> flags \<Rightarrow> process \<Rightarrow> bool" for ms fl where
  start: "configure ms fl = Ok p \<Longrightarrow> main_reach ms fl p"
| listen: "main_reach ms fl p \<Longrightarrow> serve te openable rs bound h3 gwListen p = Some (Ok p') \<Longrightarrow> main_reach ms fl p'"
| stream: "main_reach ms fl p \<Longrightarrow> br_router (pr_broker p) = Some r \<Longrightarrow> slots r + length inp \<le> 2 ^ 29 \<Longrightarrow>
    main_reach ms fl (p\<lparr>pr_broker := broker_of (HandleStream te raw s c evs inp (pr_broker p))\<rparr>)"
| writer: "main_reach ms fl p \<Longrightarrow> main_reach ms fl (p\<lparr>pr_broker := with_router (writer_round env oks ev i) (pr_broker p)\<rparr>)"
| peers: "main_reach ms fl p \<Longrightarrow> main_reach ms fl (p\<lparr>pr_broker := with_router (r_peers_update (\<lambda>_. n)) (pr_broker p)\<rparr>)"
| acl: "main_reach ms fl p \<Longrightarrow> admin_call c (UpdateACL uni rules) p = Some (res, p') \<Longrightarrow> main_reach ms fl p'"
| quota: "main_reach ms fl p \<Longrightarrow> admin_call c (SetClientQuota cid rt) p = Some (res', p') \<Longrightarrow> main_reach ms fl p'"
| shut: "main_reach ms fl p \<Longrightarrow> shutdown (lerr :: nat option) drained ctxErr cancels p = Ok p' \<Longrightarrow> main_reach ms fl p'"

lemma replay_frame_reach:
  assumes "case st of (k, ro) \<Rightarrow> \<exists>r. ro = Some r \<and> router_reach mt opts r"
  shows "case fst (replay_frame te st x) of (k, ro) \<Rightarrow> \<exists>r. ro = Some r \<and> router_reach mt opts r"
proof -
  have "router_reach mt opts (snd (Publish env f r))" if "router_reach mt opts r" for env f r
    using publish [OF that, of env f "[]"] by (simp add: Publish_def PublishWithClientID_def)
  then show ?thesis
    using assms by (auto simp: replay_frame_def split: res.splits prod.splits if_splits) (metis snd_conv)+
qed

lemma Listen_reach:
  assumes "br_router b = Some r" "router_reach mt opts r" "Listen te openable rs bound b = Some (ok, b')"
  shows "\<exists>r. br_router b' = Some r \<and> router_reach mt opts r"
proof -
  let ?I = "\<lambda>(k :: nat, ro). \<exists>r. ro = Some r \<and> router_reach mt opts r"
  have st: "?I (br_tick b, br_router b)" using assms(1,2) by simp
  have "\<exists>r. br_router b1 = Some r \<and> router_reach mt opts r"
    if r: "ReplayAAL te openable rs path key b = Some (res, b1)" for path key res b1
  proof (cases "path = []")
    case False
    then obtain z where z: "Replay (te_cipher te) openable rs (br_fs b) path key (replay_frame te) (br_tick b, br_router b) = Some z"
      "(res, b1) = (case z of Ok (records, err, (k, ro)) \<Rightarrow> (Ok (records, err), b\<lparr>br_router := ro, br_tick := k\<rparr>)
        | Err e \<Rightarrow> (Err e, b) | Panic \<Rightarrow> (Panic, b))"
      using r by (auto simp: ReplayAAL_def)
    show ?thesis
    proof (cases z)
      case (Ok x)
      obtain n e k ro where x: "x = (n, e, (k, ro))" by (cases x)
      have "?I (k, ro)"
        by (rule Replay_keeps [of ?I "replay_frame te", OF replay_frame_reach st]) (use z(1) Ok x in simp_all)
      then show ?thesis using z(2) Ok x by simp
    qed (use z(2) assms(1,2) in simp_all)
  qed (use r assms(1,2) in \<open>simp add: ReplayAAL_def\<close>)
  then show ?thesis
    using assms by (auto simp: Listen_def split: if_splits)
qed

definition reachable_router :: "process \<Rightarrow> bool" where
  "reachable_router p \<longleftrightarrow> (\<exists>opts r. br_router (pr_broker p) = Some r \<and> router_reach True opts r)"

lemma reachable_same_router: "br_router (pr_broker p') = br_router (pr_broker p) \<Longrightarrow> reachable_router p \<Longrightarrow> reachable_router p'"
  by (simp add: reachable_router_def)

lemma reachable_with_router:
  assumes "reachable_router p" "\<And>opts r. router_reach True opts r \<Longrightarrow> router_reach True opts (g r)"
    "br_router (pr_broker p') = map_option g (br_router (pr_broker p))"
  shows "reachable_router p'"
  using assms by (auto simp: reachable_router_def)

lemma serve_reachable:
  assumes "reachable_router p" "serve te openable rs bound h3 gwListen p = Some (Ok p')"
  shows "reachable_router p'"
proof -
  obtain b where b: "Listen te openable rs bound (pr_broker p) = Some (True, b)"
    "start_gateway h3 gwListen (p\<lparr>pr_broker := b\<rparr>) = Ok p'"
    using assms(2) by (auto simp: serve_def split: if_splits)
  have "pr_broker p' = b" using b(2) by (auto simp: start_gateway_def Let_def split: if_splits option.splits prod.splits bool.splits)
  then show ?thesis using Listen_reach [OF _ _ b(1)] assms(1) unfolding reachable_router_def by blast
qed

lemma admin_call_reachable:
  assumes "reachable_router p" "admin_call c f p = Some (res, p')"
  shows "reachable_router p'"
proof -
  obtain q where q: "br_router (pr_broker p') = map_option (WithQuotas q) (br_router (pr_broker p))"
    using assms(2) by (auto simp: admin_call_def with_router_def SetAuthzEngine_def Let_def split: option.splits prod.splits)
  from assms(1) _ q show ?thesis by (rule reachable_with_router) (simp add: WithQuotas_def refill)
qed

lemma Shutdown_router: "br_router (snd (Shutdown lerr d c b)) = br_router b"
  by (simp add: Shutdown_def cancel_and_close_def note_effect_def Let_def)

lemma shutdown_reachable:
  assumes "reachable_router p" "shutdown lerr drained ctxErr cancels p = Ok p'"
  shows "reachable_router p'"
proof -
  have "pr_broker p' = snd (Shutdown lerr drained ctxErr (pr_broker p))"
    using assms(2) by (auto simp: shutdown_def Let_def split: prod.splits option.splits)
  then show ?thesis using assms(1) by (simp add: reachable_router_def Shutdown_router)
qed


section \<open>An example\<close>

text \<open>A configuration with a peer, a rule, an encrypted log and the administration server.\<close>

definition demo_config :: "Config \<Rightarrow> Config" where
  "demo_config cfg = cfg\<lparr>
     cfg_Cluster := (cfg_Cluster cfg)\<lparr>cl_Peers := [str ''p:4242'']\<rparr>,
     cfg_ACL := \<lparr>acl_Enabled = True, acl_Default = [],
       acl_Rules = [\<lparr>acr_Client = str ''a'', acr_Topic = str ''t'', acr_Permission = str ''Publish''\<rparr>]\<rparr>,
     cfg_AAL := (cfg_AAL cfg)\<lparr>aal_Enabled := True, aal_FilePath := str ''log'', aal_Key := replicate 32 65\<rparr>,
     cfg_Admin := (cfg_Admin cfg)\<lparr>adm_Enabled := True\<rparr>\<rparr>"

definition demo_sys :: main_sys where
  "demo_sys = \<lparr>ms_env = \<lparr>es_getenv = (\<lambda>_. []), es_parseDuration = (\<lambda>_. None), es_lower = id\<rparr>, ms_readFile = Some,
     ms_unmarshal = (\<lambda>_ cfg. Some (demo_config cfg)), ms_validPEM = (\<lambda>_. True), ms_systemPool = None,
     ms_keyPair = (\<lambda>_ _. True), ms_selfSigned = True, ms_adminListens = True, ms_openable = True,
     ms_random = [0, 0, 0, 0], ms_fs = (\<lambda>_. None)\<rparr>"

definition demo_flags :: flags where
  "demo_flags = \<lparr>fl_config = str ''c'', fl_cert = [], fl_key = [], fl_aal = [], fl_addr = [], fl_metricsAddr = []\<rparr>"

lemma no_env: "(\<And>n. es_getenv es n = []) \<Longrightarrow> applyEnvOverrides es cfg = cfg"
  by (simp add: applyEnvOverrides_def applyWebTransportEnv_def applyCompressionEnv_def applyClusterEnv_def applyTracingEnv_def
      applyTransportEnv_def applyBrokerEnv_def applyAdminEnv_def applyACLEnv_def applyAALEnv_def applyTLSEnv_def applyListenEnv_def
      envString_def envStringList_def envPositiveInt_def envNonNegativeInt_def envDuration_def envInt64_def envBool_def Let_def)

lemma demo_loads: "Load (ms_env demo_sys) (ms_readFile demo_sys) (ms_unmarshal demo_sys) (fl_config demo_flags) = Ok (demo_config Default)"
  by (simp add: Load_def demo_sys_def demo_flags_def no_env str_def)

lemma demo_key: "decode_key (replicate 32 65) = Some (replicate 32 65)"
  by code_simp

lemma demo_starts:
  obtains p where "configure demo_sys demo_flags = Ok p" "pr_cfg p = demo_config Default"
    "\<exists>pm peerTLS. pr_peers p = Some (pm, peerTLS)" "\<exists>s. pr_admin p = Some s \<and> sv_cnAllowlist s = None"
proof -
  let ?cfg = "demo_config Default"
  have fl: "override_flags demo_flags ?cfg = ?cfg" by (simp add: override_flags_def demo_flags_def)
  obtain t where t: "server_tls demo_sys (cfg_TLS ?cfg) = Ok t"
    by (simp add: server_tls_def server_certificate_def generateSelfSignedTLS_def demo_sys_def demo_config_def Default_def)
  obtain pm peerTLS where c: "start_cluster demo_sys ?cfg = Ok (Some (pm, peerTLS))"
    by (simp add: start_cluster_def peer_tls_def demo_sys_def demo_config_def Default_def Let_def)
  obtain opts files where l: "start_log demo_sys (cfg_AAL ?cfg) = Ok (opts, files)"
    by (simp add: start_log_def demo_sys_def demo_config_def demo_key OpenEncrypted_def str_def Let_def)
  let ?r = "NewRouter True (router_options demo_sys ?cfg (Some pm))"
  let ?e = "start_authz (es_lower (ms_env demo_sys)) (cfg_ACL ?cfg)"
  obtain b adm admTLS where a: "start_admin demo_sys ?cfg t ?r ?e (new_broker ?cfg ?r ?e opts files) = Ok (b, Some adm, admTLS)"
    "sv_cnAllowlist adm = None"
    by (simp add: start_admin_def demo_sys_def demo_config_def start_authz_def NewServer_def Let_def)
  have "\<exists>p. configure demo_sys demo_flags = Ok p \<and> pr_cfg p = ?cfg \<and> pr_peers p = Some (pm, peerTLS) \<and> pr_admin p = Some adm"
    using a(1) by (simp add: configure_def demo_loads StartServer_def fl t c l Let_def)
  then show ?thesis using that a(2) by blast
qed

theorem configured_log_has_one_key_witness:
  "\<exists>p. configure demo_sys demo_flags = Ok p \<and> br_aalKey (pr_broker p) = replicate 32 65"
proof -
  obtain p where p: "configure demo_sys demo_flags = Ok p" "pr_cfg p = demo_config Default" using demo_starts by metis
  let ?a = "cfg_AAL (pr_cfg p)"
  have "aal_Enabled ?a" "aal_FilePath ?a \<noteq> []" "aal_Key ?a = replicate 32 65" by (simp_all add: p(2) demo_config_def str_def)
  then obtain r where "br_router (pr_broker p) = Some r" "br_aalKey (pr_broker p) = r_aalKey r"
    using configured_log_has_one_key [OF p(1) refl] by (auto split: if_splits)
  then show ?thesis
    using p configure_router [OF p(1)] \<open>aal_Enabled ?a\<close> \<open>aal_Key ?a = _\<close> by (auto simp: router_options_fields router_key_def demo_key)
qed


theorem quota_calls_change_nothing_witness:
  "\<exists>p p'. configure demo_sys demo_flags = Ok p \<and>
     admin_call (TLSAuth [str ''admin-1'']) (SetClientQuota (str ''a'') 5) p = Some (Ok True, p') \<and> pr_broker p' = pr_broker p"
proof -
  obtain p s where p: "configure demo_sys demo_flags = Ok p" "pr_admin p = Some s" "sv_cnAllowlist s = None"
    using demo_starts by metis
  obtain res p' where c: "admin_call (TLSAuth [str ''admin-1'']) (SetClientQuota (str ''a'') 5) p = Some (res, p')"
    by (cases "admin_call (TLSAuth [str ''admin-1'']) (SetClientQuota (str ''a'') 5) p") (auto simp: admin_call_def p(2) Let_def split: prod.splits)
  have "HasPrefix (str ''admin-1'') (str ''admin-'')" by code_simp
  then have "is_admin s (TLSAuth [str ''admin-1''])" by (simp add: is_admin_def admin_allowed_def p(3))
  then show ?thesis
    using quota_calls_change_nothing [OF p(1) c] p(1,2) c by (auto simp: str_def)
qed

theorem mesh_never_connects_witness:
  "\<exists>p pm peerTLS. configure demo_sys demo_flags = Ok p \<and> pr_peers p = Some (pm, peerTLS) \<and>
     ActivePeers (fold run_step [StepLoop 0 Check, StepLoop 0 DialFailed, StepAdd (str ''q:4242'')] pm) = 0"
proof -
  obtain p pm peerTLS where p: "configure demo_sys demo_flags = Ok p" "pr_peers p = Some (pm, peerTLS)"
    using demo_starts by metis
  from mesh_never_connects [OF p, of "[StepLoop 0 Check, StepLoop 0 DialFailed, StepAdd (str ''q:4242'')]"] p
  show ?thesis by (auto simp: dial_possible_def)
qed


end
