(* ===== verification/Spec2Isabelle.thy ===== *)
theory Spec2Isabelle
  imports Wildcard Quotas Slab Clients Tracing Startup
begin

text \<open>
  Verification of the Aqueduct message broker, the Go program under \<^verbatim>\<open>src/\<close>.

  \<^bold>\<open>The program.\<close> Clients open QUIC streams and write frames. The transport (\<^verbatim>\<open>internal/transport\<close>) cuts a stream into
  frames, checks the access rules (\<^verbatim>\<open>internal/authz\<close>), logs publications (\<^verbatim>\<open>internal/aal\<close>) and hands each frame to the
  router (\<^verbatim>\<open>internal/broker\<close>). The router keeps subscribers in parallel arrays, wraps a published message into a
  reference-counted buffer, puts it into the priority queues of its subscribers, and forwards it to the peers
  (\<^verbatim>\<open>internal/cluster\<close>). One writer per subscriber takes messages from the queues and writes them to the stream. Frames and
  their extensions are in \<^verbatim>\<open>internal/protocol\<close>, buffers come from the slab allocator (\<^verbatim>\<open>internal/mem\<close>), rates are limited by
  \<^verbatim>\<open>internal/quotas\<close>. Browsers come in through \<^verbatim>\<open>internal/webtransport\<close>, operators through \<^verbatim>\<open>internal/admin\<close>. The program
  \<^verbatim>\<open>cmd/broker\<close> builds all this from \<^verbatim>\<open>internal/config\<close>.

  \<^bold>\<open>How code is modelled.\<close> Definitions keep the names of the code. A struct is a record, a slice of bytes a list of
  8-bit words, an integer of the wire a word of its width, an \<open>int\<close> or a counter of 64 bits an integer with its
  wrap-around written out (\<open>i64\<close>). A call that may fail returns \<open>Ok\<close>, \<open>Err\<close> or \<open>Panic\<close> (theory \<open>Aqueduct_Prelude\<close>), where
  \<open>Panic\<close> is an index or slice out of bounds, also for accesses through \<^verbatim>\<open>unsafe\<close>. State is passed explicitly. What the code
  does to the outside (writes, spans, metrics that matter) is a log of effects in the state. A goroutine is a step
  function, and runs are inductive predicates that interleave the steps: \<open>router_reach\<close> for the router, \<open>pm_reach\<close> for the
  peers, \<open>main_reach\<close> for the whole program. An operation that holds a mutex is one step; the lock-free list of the slab
  allocator is modelled in single loads and compare-and-swaps.

  \<^bold>\<open>Theories, code and results.\<close>

  \<^item> \<open>Aqueduct_Prelude\<close>: results, slices, codecs of \<^verbatim>\<open>encoding/binary\<close>, and the lemmas on them; the collections
    \<open>wire_consts\<close> and \<open>no_panic\<close>.
  \<^item> \<open>Extensions\<close> (\<^verbatim>\<open>protocol/extensions.go\<close>), \<open>Frame\<close> (\<^verbatim>\<open>protocol/frame.go\<close>): parsing is characterised by an
    encoder, never panics and inverts the serialisers and the batch writer; what builders put into a block, readers
    find. The locale \<open>buffer_source\<close> is what serialisers need of a pool, \<open>tlv_codec\<close> the contract of entries.
  \<^item> \<open>Wildcard\<close>, \<open>Topics\<close> (\<^verbatim>\<open>broker/wildcard.go\<close> and the payload parsers of \<^verbatim>\<open>broker/router.go\<close>): matching is matching level
    by level; a subscription payload is read back.
  \<^item> \<open>Authz\<close> (\<^verbatim>\<open>authz/acl.go\<close>): the compiled engine decides by the grants. \<open>Quotas\<close> (\<^verbatim>\<open>quotas/bucket.go\<close>): a client gets
    no more than its burst and its rate, with the floating-point rounding of the refill.
  \<^item> \<open>Slab\<close> (\<^verbatim>\<open>mem/slab.go\<close>): blocks in use are disjoint when calls do not overlap; in small steps, a block can be given
    out twice. \<open>Msg_Ref\<close> (\<^verbatim>\<open>broker/msg_ref.go\<close>): counters match the handles, buffers are returned once.
  \<^item> \<open>Aal\<close> (\<^verbatim>\<open>aal/aal.go\<close>): what is written is replayed, encrypted or not, up to a torn tail; the locale
    \<open>record_loop\<close> is the reading of records from chunks. The replay loop may not end and is a partial function; the
    theorems about it prove its result, or that it has none.
  \<^item> \<open>Router\<close>, \<open>Router_Inv\<close>, \<open>Router_Steps\<close>, \<open>Router_Props\<close>, \<open>Router_Flow\<close>, \<open>Router_Effects\<close> (\<^verbatim>\<open>broker/router.go\<close>): the
    operations, the invariant \<open>rinv\<close>, its preservation, and on every reachable router memory safety, absence of leaks,
    delivery to exactly the subscribers that match, the order of the writers (locale \<open>ordered_source\<close>), the policies for
    full queues, consumer groups, dead letters and the end of \<open>Close\<close>.
  \<^item> \<open>Transport\<close>, \<open>Transport_Loop\<close>, \<open>Transport_Props\<close> (\<^verbatim>\<open>transport/broker.go\<close>, \<^verbatim>\<open>processor.go\<close>): the read loop refines
    handling the frames one by one, however the stream is cut into reads; access rules gate the router and the log;
    streams keep the router reachable; logged streams are replayed.
  \<^item> \<open>Cluster\<close>, \<open>Cluster_Props\<close>, \<open>Mesh\<close> (\<^verbatim>\<open>cluster/\<close>): the tables of the peer manager agree in every interleaving with its
    reconnect loops; discovery converges to the answers of DNS; a message makes one hop, a batch never stops. The locale
    \<open>peer_forwarder\<close> is what the router needs of the peers.
  \<^item> \<open>Compression\<close> (\<^verbatim>\<open>compress/zstd.go\<close>), \<open>Config\<close> (\<^verbatim>\<open>config/config.go\<close>), \<open>Tls\<close>, \<open>Admin\<close> (\<^verbatim>\<open>admin/server.go\<close>), \<open>Gateway\<close>
    (\<^verbatim>\<open>webtransport/server.go\<close> and the accept loops of the broker), \<open>Metrics\<close> (\<^verbatim>\<open>metrics/\<close>), \<open>Tracing\<close>
    (\<^verbatim>\<open>tracing/tracer.go\<close>), \<open>Clients\<close> (\<^verbatim>\<open>cmd/aqueduct-bench\<close>, \<^verbatim>\<open>examples/go\<close>): each with the property that makes it
    correct.
  \<^item> \<open>Startup\<close> (\<^verbatim>\<open>cmd/broker/main.go\<close>): from flags and configuration to the running program and its shutdown. The
    configured rules decide, the log has one key, the router stays consistent through every run, and the mesh of the
    program never connects.

  \<^bold>\<open>Bounds and fuel.\<close> No definition uses fuel: loops end by a measure, except the replay loop (\<open>partial_function\<close>) and
  the loops of goroutines, which are lists of events. Runs of the router have fewer than \<open>2^29\<close> subscriber slots, which
  keeps the 32-bit reference counters exact; a stream of \<open>n\<close> bytes can add at most \<open>n\<close> slots. Theorems on frames assume
  lengths below \<open>2^32\<close>, the range of the length field. Theorems on access rules assume that no granted pair of another
  client and topic has the same 64-bit key.

  \<^bold>\<open>Parameters.\<close> QUIC, HTTP/3, gRPC, the AEAD cipher, zstd, YAML, DNS, Prometheus, OpenTelemetry, the clock, the random
  generator and the Unicode tables are arguments, with what the code relies on as named hypotheses (\<open>aead_ok\<close>,
  \<open>zstd_ok\<close>, \<open>buffer_source\<close>). Each theorem with such a hypothesis has a witness with a concrete instance.

  \<^bold>\<open>Not modelled.\<close>

  \<^item> Generated code (\<^verbatim>\<open>admin/proto\<close>), log messages, the registration of Prometheus collectors, the report of the load
    generator with its percentiles, and the scripted calls of the example client: they have no state of their own.
  \<^item> Data races. Operations of the router are atomic steps. In the code a batch hands out slices of the read buffer of its
    stream, which a later read may overwrite before the writer sends them, and the read lock is taken recursively; the
    model gives messages their own bytes and cannot deadlock.
  \<^item> Runs of the router leave out the backfill worker of durable subscribers, which breaks the reference counting:
    theorem \<open>backfill_leaks\<close> shows how. The worker itself is modelled.
  \<^item> Failures of \<open>Stat\<close>, \<open>Rename\<close> and of reopening during the rotation of the log.
\<close>

end
